(* ===== verification/Prelude.thy ===== *)
theory Prelude
  imports Main "HOL-Library.Word"
begin

text \<open>
  Shared vocabulary of the MDF4 signal-extraction model: the byte and address types, the
  error values that stand for Go's returned errors and runtime panics, a bind on the sum
  type \<open>error + 'a\<close> (Go's \<open>if err != nil { return err }\<close>), Go slicing with its
  capacity bound (a slice's backing array may extend past its length with zero bytes), and the big-endian reading of byte and bit sequences that the bit-level
  decoder and its round-trip proofs rest on.
\<close>

section \<open>Types and errors\<close>

type_synonym byte = "8 word"

text \<open>File addresses are Go \<open>int64\<close> values; they are only compared and looked up.\<close>

type_synonym addr = int

text \<open>
  One constructor per way the Go code fails: a returned \<open>error\<close> (\<open>fmt.Errorf\<close>,
  an I/O error) or a runtime panic (index or slice out of range, division by zero,
  the bit-array library's range check, \<open>reflect.New\<close> of a nil type), which aborts the extraction just as an error
  does.
\<close>

datatype error =
    ErrNotEnoughData string
  | ErrUnsupportedType
  | ErrNotReady
  | ErrIO
  | ErrInflate
  | ErrVersion
  | ErrChannelNotFound
  | ErrParsing
  | PanicIndex
  | PanicSlice
  | PanicDivZero
  | PanicBitArray
  | PanicNilType
  | PanicNotFinalized

named_theorems mdf_eval "equations that evaluate the model on concrete inputs"

section \<open>Error propagation\<close>

definition bindE :: "'e + 'a \<Rightarrow> ('a \<Rightarrow> 'e + 'b) \<Rightarrow> 'e + 'b" where
  "bindE m f = (case m of Inl e \<Rightarrow> Inl e | Inr a \<Rightarrow> f a)"

text \<open>
  Bind for computations that may also run out of fuel (\<open>None\<close>): the recursive
  dispatcher of the block graph.
\<close>

definition bindR :: "('e + 'a) option \<Rightarrow> ('a \<Rightarrow> ('e + 'b) option) \<Rightarrow> ('e + 'b) option" where
  "bindR m f = (case m of None \<Rightarrow> None | Some (Inl e) \<Rightarrow> Some (Inl e) | Some (Inr a) \<Rightarrow> f a)"

text \<open>Apply a fallible function to every element, stopping at the first error.\<close>

fun mapE :: "('a \<Rightarrow> 'e + 'b) \<Rightarrow> 'a list \<Rightarrow> 'e + 'b list" where
  "mapE f [] = Inr []"
| "mapE f (x # xs) = bindE (f x) (\<lambda>y. bindE (mapE f xs) (\<lambda>ys. Inr (y # ys)))"

section \<open>Go slices\<close>

text \<open>
  \<open>s[lo:hi]\<close> on a byte slice. A Go slice is a window on a backing array: it has a
  length and a capacity, and Go's bounds check is \<open>0 \<le> lo \<le> hi \<le> cap(s)\<close>, not
  \<open>len(s)\<close>; the elements between the length and the capacity are read as they stand in
  the backing array. A slice is modelled by its elements \<open>xs\<close> and its spare capacity
  \<open>k = cap - len\<close>, whose backing bytes are zero: every buffer the engine slices comes from
  \<open>make\<close> (no spare capacity) or from \<open>io.ReadAll\<close>, whose spare capacity is memory the
  runtime allocated zeroed and nothing wrote. Outside the bounds the program panics.
\<close>

definition go_slice :: "'a::zero list \<Rightarrow> nat \<Rightarrow> nat \<Rightarrow> nat \<Rightarrow> error + 'a list" where
  "go_slice xs k lo hi =
     (if lo \<le> hi \<and> hi \<le> length xs + k then Inr (take (hi - lo) (drop lo (xs @ replicate k 0)))
      else Inl PanicSlice)"

section \<open>Big-endian numbers\<close>

text \<open>The number a byte sequence spells, most significant byte first.\<close>

definition be_nat :: "byte list \<Rightarrow> nat" where
  "be_nat bs = foldl (\<lambda>acc b. acc * 256 + unat b) 0 bs"

text \<open>The number a bit sequence spells, most significant bit first.\<close>

definition bits_nat :: "bool list \<Rightarrow> nat" where
  "bits_nat bs = foldl (\<lambda>acc b. 2 * acc + of_bool b) 0 bs"

text \<open>The \<open>w\<close>-byte big-endian encoding of \<open>n\<close> (the inverse of \<^const>\<open>be_nat\<close>).\<close>

fun be_bytes :: "nat \<Rightarrow> nat \<Rightarrow> byte list" where
  "be_bytes 0 n = []"
| "be_bytes (Suc w) n = be_bytes w (n div 256) @ [word_of_nat n]"

declare bindR_def [mdf_eval] go_slice_def [mdf_eval] be_nat_def [mdf_eval] bits_nat_def [mdf_eval] bindE_def [mdf_eval]

section \<open>Lemmas\<close>

lemma bindE_Inl [simp]: "bindE (Inl e) f = Inl e"
  by (simp add: bindE_def)

lemma bindE_Inr [simp]: "bindE (Inr a) f = f a"
  by (simp add: bindE_def)

lemma bindE_eq_Inr_iff: "bindE m f = Inr b \<longleftrightarrow> (\<exists>a. m = Inr a \<and> f a = Inr b)"
  by (cases m) auto

lemma bindE_Inr_right [simp]: "bindE m Inr = m"
  by (cases m) simp_all

lemma bindR_None [simp]: "bindR None f = None"
  by (simp add: bindR_def)

lemma bindR_Inl [simp]: "bindR (Some (Inl e)) f = Some (Inl e)"
  by (simp add: bindR_def)

lemma bindR_Inr [simp]: "bindR (Some (Inr a)) f = f a"
  by (simp add: bindR_def)

lemma bindE_assoc: "bindE (bindE m f) g = bindE m (\<lambda>a. bindE (f a) g)"
  by (cases m) auto

lemma mapE_append:
  "mapE f (xs @ ys) = bindE (mapE f xs) (\<lambda>as. bindE (mapE f ys) (\<lambda>bs. Inr (as @ bs)))"
proof (induction xs)
  case Nil
  then show ?case by (cases "mapE f ys") simp_all
next
  case (Cons x xs)
  then show ?case by (cases "f x"; cases "mapE f xs"; cases "mapE f ys") simp_all
qed

lemma mapE_cong: "(\<And>x. x \<in> set xs \<Longrightarrow> f x = g x) \<Longrightarrow> mapE f xs = mapE g xs"
  by (induction xs) simp_all

lemma mapE_Inr_length: "mapE f xs = Inr ys \<Longrightarrow> length ys = length xs"
  by (induction xs arbitrary: ys) (auto simp: bindE_eq_Inr_iff)

lemma mapE_prefix_Inr: "mapE f (xs @ ys) = Inr zs \<Longrightarrow> \<exists>zs'. mapE f xs = Inr zs'"
  by (auto simp: mapE_append bindE_eq_Inr_iff)

lemma mapE_map: "mapE f (map g xs) = mapE (f \<circ> g) xs"
  by (induction xs) simp_all

lemma mapE_all_Inr: "(\<And>x. x \<in> set xs \<Longrightarrow> f x = Inr (g x)) \<Longrightarrow> mapE f xs = Inr (map g xs)"
  by (induction xs) simp_all

lemma go_slice_ok [simp]:
  "lo \<le> hi \<Longrightarrow> hi \<le> length xs \<Longrightarrow> go_slice xs k lo hi = Inr (take (hi - lo) (drop lo xs))"
  by (simp add: go_slice_def)

text \<open>Within the length the spare capacity plays no part; past it the window is zero-padded.\<close>

lemma go_slice_within_len:
  "hi \<le> length xs \<Longrightarrow> go_slice xs k lo hi = go_slice xs 0 lo hi"
  by (simp add: go_slice_def)

lemma go_slice_no_spare:
  "go_slice xs 0 lo hi = (if lo \<le> hi \<and> hi \<le> length xs then Inr (take (hi - lo) (drop lo xs)) else Inl PanicSlice)"
  by (simp add: go_slice_def)

lemma go_slice_padded:
  "lo \<le> length xs \<Longrightarrow> length xs \<le> hi \<Longrightarrow> hi \<le> length xs + k
   \<Longrightarrow> go_slice xs k lo hi = Inr (drop lo xs @ replicate (hi - length xs) 0)"
  by (simp add: go_slice_def)

lemma go_slice_append_left:
  "hi \<le> length xs \<Longrightarrow> go_slice (xs @ ys) k lo hi = go_slice xs k lo hi"
  by (simp add: go_slice_def)

lemma go_slice_append_right:
  "length xs \<le> lo \<Longrightarrow> length xs \<le> hi \<Longrightarrow> go_slice (xs @ ys) k lo hi = go_slice ys k (lo - length xs) (hi - length xs)"
  by (auto simp: go_slice_def)

lemma be_nat_Nil [simp]: "be_nat [] = 0"
  by (simp add: be_nat_def)

lemma be_nat_snoc [simp]: "be_nat (xs @ [b]) = be_nat xs * 256 + unat b"
  by (simp add: be_nat_def)

lemma bits_nat_Nil [simp]: "bits_nat [] = 0"
  by (simp add: bits_nat_def)

lemma bits_nat_snoc [simp]: "bits_nat (xs @ [b]) = 2 * bits_nat xs + of_bool b"
  by (simp add: bits_nat_def)

lemma length_be_bytes [simp]: "length (be_bytes w n) = w"
  by (induction w arbitrary: n) simp_all

lemma unat_byte_less: "unat (b :: byte) < 256"
  using unsigned_less [of b] by simp

lemma be_nat_be_bytes: "be_nat (be_bytes w n) = n mod 2 ^ (8 * w)"
proof (induction w arbitrary: n)
  case 0
  then show ?case by simp
next
  case (Suc w)
  have "be_nat (be_bytes (Suc w) n) = n div 256 mod 2 ^ (8 * w) * 256 + n mod 256"
    by (simp add: Suc.IH unat_of_nat)
  also have "\<dots> = n mod (256 * 2 ^ (8 * w))"
    by (simp add: mod_mult2_eq)
  finally show ?case by (simp add: power_add)
qed

text \<open>Bits of \<open>a * 256 + c\<close> for a byte \<open>c\<close>: the low eight are \<open>c\<close>'s, the rest \<open>a\<close>'s.\<close>

lemma bit_times256_low:
  fixes a c :: nat
  assumes "p < 8"
  shows "bit (a * 256 + c) p = bit c p"
proof -
  have e: "a * 256 + c = c + (a * 2 ^ (8 - p)) * 2 ^ p" using assms
    by (simp add: mult.assoc flip: power_add)
  have "(a * 256 + c) div 2 ^ p = a * 2 ^ (8 - p) + c div 2 ^ p"
    unfolding e by simp
  moreover have "even ((2::nat) ^ (8 - p))" using assms by simp
  ultimately show ?thesis by (simp add: bit_iff_odd)
qed

lemma bit_times256_high:
  fixes a c :: nat
  assumes "c < 256" "8 \<le> p"
  shows "bit (a * 256 + c) p = bit a (p - 8)"
proof -
  have "(2::nat) ^ p = 2 ^ (8 + (p - 8))" using assms(2) by simp
  then have e: "(2::nat) ^ p = 256 * 2 ^ (p - 8)" by (simp only: power_add) simp
  have "(a * 256 + c) div 256 = a" using assms(1) by simp
  then have "(a * 256 + c) div 2 ^ p = a div 2 ^ (p - 8)"
    unfolding e by (simp add: div_mult2_eq)
  then show ?thesis by (simp add: bit_iff_odd)
qed

text \<open>
  Reading \<open>n\<close> consecutive bits of \<open>N\<close>, counted from the most significant end of a
  \<open>K\<close>-bit field and starting at \<open>off\<close>, spells \<open>N\<close> shifted right by the bits
  after the window, truncated to \<open>n\<close> bits.
\<close>

lemma bits_nat_window:
  assumes "off + n \<le> K"
  shows "bits_nat (map (\<lambda>i. bit N (K - Suc i)) [off..<off + n]) = N div 2 ^ (K - off - n) mod 2 ^ n"
  using assms
proof (induction n)
  case 0
  then show ?case by simp
next
  case (Suc n)
  define m where "m = K - off - Suc n"
  define X where "X = N div 2 ^ m"
  have km: "K - (off + n) = Suc m" "K - Suc (off + n) = m" using Suc.prems by (simp_all add: m_def)
  have "bits_nat (map (\<lambda>i. bit N (K - Suc i)) [off..<off + Suc n])
      = 2 * (N div 2 ^ Suc m mod 2 ^ n) + of_bool (bit N m)"
    using Suc by (simp add: km)
  also have "\<dots> = 2 * (X div 2 mod 2 ^ n) + X mod 2"
  proof -
    have "N div 2 ^ Suc m = X div 2" unfolding X_def power_Suc2 by (rule div_mult2_eq)
    moreover have "of_bool (bit N m) = X mod 2" by (simp add: X_def bit_iff_odd of_bool_odd_eq_mod_2)
    ultimately show ?thesis by simp
  qed
  also have "\<dots> = X mod 2 ^ Suc n"
    by (simp add: mod_mult2_eq)
  also have "\<dots> = N div 2 ^ m mod 2 ^ Suc n"
    by (simp add: X_def)
  finally show ?case by (simp add: m_def)
qed

end
