(* ===== verification/BitDecoder.thy ===== *)
theory BitDecoder
  imports Prelude
begin

text \<open>
  The bit-level value decoder of \<open>src/channel.go\<close>: \<open>parseSignalMeasure\<close> and its
  helper \<open>reverseBytes\<close>. A Go \<open>interface{}\<close> type descriptor becomes the datatype
  \<open>dtype\<close> (one constructor per type the switch tests, \<open>TNil\<close> for a descriptor no case
  matches) and the decoded \<open>interface{}\<close> value the datatype \<open>measure_value\<close>. Floats are kept
  as their IEEE bit pattern (\<open>math.Float32frombits\<close> is a bijection on bit patterns), and
  signed integers as words read back with \<open>sint\<close>. The two library calls the decoder
  makes, \<open>bitarray.NewBufferFromByteSlice(data).BitArrayAt(off, n).ToUint64()\<close> of
  \<open>github.com/tunabay/go-bitarray\<close> and \<open>hex.EncodeToString\<close>, are modelled from their
  documentation: bits are numbered from the most significant bit of the first byte, an
  out-of-range window panics, and the bits read as a big-endian unsigned number.
\<close>

section \<open>Data\<close>

datatype byte_order = LittleEndian | BigEndian

datatype dtype =
    TString | TBytes | TInt8 | TUInt8 | TInt16 | TUInt16 | TInt32 | TUInt32
  | TInt64 | TUInt64 | TFloat32 | TFloat64 | TNil

datatype measure_value =
    VString "byte list"
  | VHex string
  | VInt8 "8 word" | VUInt8 "8 word"
  | VInt16 "16 word" | VUInt16 "16 word"
  | VInt32 "32 word" | VUInt32 "32 word"
  | VInt64 "64 word" | VUInt64 "64 word"
  | VFloat32 "32 word" | VFloat64 "64 word"

section \<open>Library calls\<close>

definition hex_digit :: "nat \<Rightarrow> char" where
  "hex_digit n = ''0123456789abcdef'' ! n"

definition hex_encode :: "byte list \<Rightarrow> string" where
  "hex_encode bs = concat (map (\<lambda>b. [hex_digit (unat b div 16), hex_digit (unat b mod 16)]) bs)"

text \<open>Bit \<open>i\<close> of a bit buffer over \<open>data\<close>, most significant bit of \<open>data ! 0\<close> first.\<close>

definition buffer_bit :: "byte list \<Rightarrow> nat \<Rightarrow> bool" where
  "buffer_bit data i = bit (unat (data ! (i div 8))) (7 - i mod 8)"

definition bit_array_at :: "byte list \<Rightarrow> int \<Rightarrow> nat \<Rightarrow> error + bool list" where
  "bit_array_at data off n =
     (if off < 0 \<or> int (8 * length data) < off + int n then Inl PanicBitArray
      else Inr (map (buffer_bit data) [nat off..<nat off + n]))"

text \<open>\<open>ToUint64\<close>: the bits as a big-endian number, of which a \<open>uint64\<close> keeps the low 64 bits.\<close>

definition to_uint64 :: "bool list \<Rightarrow> 64 word" where
  "to_uint64 bs = word_of_nat (bits_nat bs)"

section \<open>The decoder\<close>

text \<open>\<open>reverseBytes\<close> copies \<open>data[n-i-1]\<close> into position \<open>i\<close> of a fresh slice.\<close>

definition reverse_bytes :: "byte list \<Rightarrow> byte list" where
  "reverse_bytes data = map (\<lambda>i. data ! (length data - i - 1)) [0..<length data]"

text \<open>
  The second type switch of \<open>parseSignalMeasure\<close>: each case first checks that the
  window is at least as wide as the type, then truncates the extracted \<open>uint64\<close>
  (\<open>int16(value)\<close>, \<open>uint32(value)\<close>, \<open>Float32frombits(uint32(value))\<close>, ...).
\<close>

fun numeric_value :: "dtype \<Rightarrow> nat \<Rightarrow> 64 word \<Rightarrow> error + measure_value" where
  "numeric_value TInt16 len v = (if len < 2 then Inl (ErrNotEnoughData ''int16'') else Inr (VInt16 (ucast v)))"
| "numeric_value TUInt16 len v = (if len < 2 then Inl (ErrNotEnoughData ''uint16'') else Inr (VUInt16 (ucast v)))"
| "numeric_value TInt32 len v = (if len < 4 then Inl (ErrNotEnoughData ''int32'') else Inr (VInt32 (ucast v)))"
| "numeric_value TUInt32 len v = (if len < 4 then Inl (ErrNotEnoughData ''uint32'') else Inr (VUInt32 (ucast v)))"
| "numeric_value TInt64 len v = (if len < 8 then Inl (ErrNotEnoughData ''int64'') else Inr (VInt64 v))"
| "numeric_value TUInt64 len v = (if len < 8 then Inl (ErrNotEnoughData ''uint64'') else Inr (VUInt64 v))"
| "numeric_value TFloat32 len v = (if len < 4 then Inl (ErrNotEnoughData ''float32'') else Inr (VFloat32 (ucast v)))"
| "numeric_value TFloat64 len v = (if len < 8 then Inl (ErrNotEnoughData ''float64'') else Inr (VFloat64 v))"
| "numeric_value _ len v = Inl ErrUnsupportedType"

text \<open>
  \<open>parseSignalMeasure(data, byteOrder, dataType, offset, bitcount)\<close>: byte-granular
  types return at once from the leading byte(s); every other descriptor goes through the
  byte reversal (little endian), the bit window at \<open>len(data)*8 - offset - bitcount\<close>
  and the second switch.
\<close>

fun parse_signal_measure :: "byte list \<Rightarrow> byte_order \<Rightarrow> dtype \<Rightarrow> nat \<Rightarrow> nat \<Rightarrow> error + measure_value" where
  "parse_signal_measure data bo TString off bc = Inr (VString data)"
| "parse_signal_measure data bo TBytes off bc = Inr (VHex (hex_encode data))"
| "parse_signal_measure data bo TInt8 off bc = (case data of [] \<Rightarrow> Inl PanicIndex | b # _ \<Rightarrow> Inr (VInt8 b))"
| "parse_signal_measure data bo TUInt8 off bc = (case data of [] \<Rightarrow> Inl PanicIndex | b # _ \<Rightarrow> Inr (VUInt8 b))"
| "parse_signal_measure data bo dt off bc =
     (let data' = (if bo = LittleEndian then reverse_bytes data else data);
          start = int (length data' * 8) - int off - int bc
      in bindE (bit_array_at data' start bc) (\<lambda>bits. numeric_value dt (length data') (to_uint64 bits)))"

section \<open>Reading a decoded value back\<close>

text \<open>Byte width of each type the decoder produces (0 for the rest).\<close>

fun type_size :: "dtype \<Rightarrow> nat" where
  "type_size TInt8 = 1" | "type_size TUInt8 = 1"
| "type_size TInt16 = 2" | "type_size TUInt16 = 2"
| "type_size TInt32 = 4" | "type_size TUInt32 = 4" | "type_size TFloat32 = 4"
| "type_size TInt64 = 8" | "type_size TUInt64 = 8" | "type_size TFloat64 = 8"
| "type_size _ = 0"

fun value_dtype :: "measure_value \<Rightarrow> dtype" where
  "value_dtype (VString _) = TString" | "value_dtype (VHex _) = TBytes"
| "value_dtype (VInt8 _) = TInt8" | "value_dtype (VUInt8 _) = TUInt8"
| "value_dtype (VInt16 _) = TInt16" | "value_dtype (VUInt16 _) = TUInt16"
| "value_dtype (VInt32 _) = TInt32" | "value_dtype (VUInt32 _) = TUInt32"
| "value_dtype (VInt64 _) = TInt64" | "value_dtype (VUInt64 _) = TUInt64"
| "value_dtype (VFloat32 _) = TFloat32" | "value_dtype (VFloat64 _) = TFloat64"

text \<open>The raw bit pattern of a numeric value, as an unsigned number.\<close>

fun value_bits :: "measure_value \<Rightarrow> nat" where
  "value_bits (VInt8 w) = unat w" | "value_bits (VUInt8 w) = unat w"
| "value_bits (VInt16 w) = unat w" | "value_bits (VUInt16 w) = unat w"
| "value_bits (VInt32 w) = unat w" | "value_bits (VUInt32 w) = unat w"
| "value_bits (VInt64 w) = unat w" | "value_bits (VUInt64 w) = unat w"
| "value_bits (VFloat32 w) = unat w" | "value_bits (VFloat64 w) = unat w"
| "value_bits _ = 0"

text \<open>A signed value read back as a Go integer.\<close>

fun value_sint :: "measure_value \<Rightarrow> int" where
  "value_sint (VInt8 w) = sint w" | "value_sint (VInt16 w) = sint w"
| "value_sint (VInt32 w) = sint w" | "value_sint (VInt64 w) = sint w"
| "value_sint _ = 0"

text \<open>
  The field a window holds in the MDF layout: the window read as one unsigned number
  (little-endian: first byte least significant), shifted right by the bit offset and
  cut to the bit count.
\<close>

definition field_nat :: "byte_order \<Rightarrow> byte list \<Rightarrow> nat \<Rightarrow> nat \<Rightarrow> nat" where
  "field_nat bo data off bc =
     be_nat (if bo = LittleEndian then rev data else data) div 2 ^ off mod 2 ^ bc"

text \<open>A window of \<open>w\<close> bytes that holds \<open>x\<close> at bit offset \<open>off\<close> in byte order \<open>bo\<close>.\<close>

definition encode_field :: "byte_order \<Rightarrow> nat \<Rightarrow> nat \<Rightarrow> nat \<Rightarrow> byte list" where
  "encode_field bo w off x =
     (let bs = be_bytes w (x * 2 ^ off) in if bo = LittleEndian then rev bs else bs)"

declare hex_digit_def [mdf_eval] hex_encode_def [mdf_eval] buffer_bit_def [mdf_eval]
  bit_array_at_def [mdf_eval] to_uint64_def [mdf_eval] reverse_bytes_def [mdf_eval]
  encode_field_def [mdf_eval] field_nat_def [mdf_eval]

section \<open>Lemmas: the bit window\<close>

lemma reverse_bytes_rev: "reverse_bytes data = rev data"
  by (rule nth_equalityI) (auto simp: reverse_bytes_def rev_nth)

lemma buffer_bit_be_nat:
  "i < 8 * length data \<Longrightarrow> buffer_bit data i = bit (be_nat data) (8 * length data - Suc i)"
proof (induction data arbitrary: i rule: rev_induct)
  case Nil
  then show ?case by simp
next
  case (snoc b xs)
  show ?case
  proof (cases "i < 8 * length xs")
    case True
    then have "i div 8 < length xs" by simp
    then have "buffer_bit (xs @ [b]) i = buffer_bit xs i"
      by (simp add: buffer_bit_def nth_append)
    moreover have "8 * length (xs @ [b]) - Suc i - 8 = 8 * length xs - Suc i"
      using True by simp
    ultimately show ?thesis
      using True snoc.IH unat_byte_less [of b] by (simp add: bit_times256_high)
  next
    case False
    then have d: "i div 8 = length xs" using snoc.prems by simp
    define r where "r = i - 8 * length xs"
    have r: "i = 8 * length xs + r" "r < 8"
      using False snoc.prems by (simp_all add: r_def)
    have m: "7 + 8 * length xs - i = 7 - i mod 8"
      using r by simp
    show ?thesis
      using d by (simp add: buffer_bit_def m bit_times256_low)
  qed
qed

lemma bit_array_at_nat:
  "s + n \<le> 8 * length data \<Longrightarrow> bit_array_at data (int s) n = Inr (map (buffer_bit data) [s..<s + n])"
  by (simp add: bit_array_at_def)

lemma window_start_int:
  "off + bc \<le> 8 * len \<Longrightarrow> int (len * 8) - int off - int bc = int (8 * len - off - bc)"
  by simp

lemma bit_array_at_window:
  assumes "off + bc \<le> 8 * length data"
  shows "bit_array_at data (int (length data * 8) - int off - int bc) bc
           = Inr (map (\<lambda>i. bit (be_nat data) (8 * length data - Suc i))
                      [8 * length data - off - bc..<8 * length data - off - bc + bc])"
proof -
  have "8 * length data - off - bc + bc \<le> 8 * length data" using assms by simp
  then have "bit_array_at data (int (8 * length data - off - bc)) bc
               = Inr (map (buffer_bit data) [8 * length data - off - bc..<8 * length data - off - bc + bc])"
    by (rule bit_array_at_nat)
  moreover have "map (buffer_bit data) [8 * length data - off - bc..<8 * length data - off - bc + bc]
      = map (\<lambda>i. bit (be_nat data) (8 * length data - Suc i)) [8 * length data - off - bc..<8 * length data - off - bc + bc]"
  proof (rule map_cong)
    fix i assume "i \<in> set [8 * length data - off - bc..<8 * length data - off - bc + bc]"
    then have "i < 8 * length data" using assms by auto
    then show "buffer_bit data i = bit (be_nat data) (8 * length data - Suc i)"
      by (rule buffer_bit_be_nat)
  qed simp
  ultimately show ?thesis by (simp only: window_start_int [OF assms])
qed

text \<open>The bits the decoder extracts spell the MDF field of the (oriented) window.\<close>

lemma bit_array_at_field:
  assumes "off + bc \<le> 8 * length data"
  shows "bindE (bit_array_at data (int (length data * 8) - int off - int bc) bc) (\<lambda>bits. f (to_uint64 bits))
           = f (word_of_nat (be_nat data div 2 ^ off mod 2 ^ bc))"
proof -
  have k: "8 * length data - (8 * length data - off - bc) - bc = off"
    using assms by simp
  have "8 * length data - off - bc + bc \<le> 8 * length data"
    using assms by simp
  then show ?thesis
    using assms by (simp only: bit_array_at_window bits_nat_window k bindE_Inr to_uint64_def list.map_comp)
qed

lemma numeric_value_size:
  "2 \<le> type_size dt \<Longrightarrow> type_size dt \<le> len \<Longrightarrow> numeric_value dt len v = Inr (v' :: measure_value) \<Longrightarrow> value_dtype v' = dt"
  by (cases dt) (auto split: if_splits)

lemma parse_wide_eq:
  "2 \<le> type_size dt \<Longrightarrow> parse_signal_measure data bo dt off bc =
     (let data' = (if bo = LittleEndian then rev data else data)
      in bindE (bit_array_at data' (int (length data' * 8) - int off - int bc) bc)
               (\<lambda>bits. numeric_value dt (length data') (to_uint64 bits)))"
  by (cases dt) (simp_all add: reverse_bytes_rev)

lemma length_encode_field [simp]: "length (encode_field bo w off x) = w"
  by (simp add: encode_field_def Let_def)

lemma unat_ucast_word_of_nat:
  "x < 2 ^ LENGTH('a) \<Longrightarrow> LENGTH('a) \<le> 64 \<Longrightarrow> unat (ucast (word_of_nat x :: 64 word) :: 'a::len word) = x"
proof -
  assume x: "x < 2 ^ LENGTH('a)" and l: "LENGTH('a) \<le> 64"
  have "x < 2 ^ 64" using x l by (meson order_less_le_trans power_increasing_iff one_less_numeral_iff semiring_norm(76))
  then show ?thesis using x by (simp add: unsigned_ucast_eq unat_of_nat take_bit_nat_eq_self)
qed

lemma numeric_value_bits:
  assumes "2 \<le> type_size dt" "type_size dt \<le> len" "x < 2 ^ (8 * type_size dt)"
  shows "\<exists>v. numeric_value dt len (word_of_nat x) = Inr v \<and> value_dtype v = dt \<and> value_bits v = x"
  using assms by (cases dt) (auto simp: unat_ucast_word_of_nat unat_of_nat)

lemma field_nat_encode:
  assumes "off + bc \<le> 8 * w" "x < 2 ^ bc"
  shows "field_nat bo (encode_field bo w off x) off bc = x"
proof -
  have o: "(if bo = LittleEndian then rev (encode_field bo w off x) else encode_field bo w off x)
           = be_bytes w (x * 2 ^ off)"
    by (cases bo) (simp_all add: encode_field_def)
  have "x * 2 ^ off < 2 ^ bc * 2 ^ off" using assms(2) by simp
  also have "\<dots> \<le> 2 ^ (8 * w)" using assms(1) by (simp flip: power_add)
  finally have "be_nat (be_bytes w (x * 2 ^ off)) = x * 2 ^ off"
    by (simp add: be_nat_be_bytes)
  then show ?thesis using assms(2) by (simp add: field_nat_def o)
qed

lemma parse_numeric_field:
  assumes "2 \<le> type_size dt" "off + bc \<le> 8 * length data"
  shows "parse_signal_measure data bo dt off bc
           = numeric_value dt (length data) (word_of_nat (field_nat bo data off bc))"
proof -
  define data' where "data' = (if bo = LittleEndian then rev data else data)"
  have l: "length data' = length data" by (simp add: data'_def)
  have "parse_signal_measure data bo dt off bc
      = bindE (bit_array_at data' (int (length data' * 8) - int off - int bc) bc)
              (\<lambda>bits. numeric_value dt (length data') (to_uint64 bits))"
    using assms(1) by (simp add: parse_wide_eq data'_def)
  also have "\<dots> = numeric_value dt (length data') (word_of_nat (be_nat data' div 2 ^ off mod 2 ^ bc))"
    using assms(2) l by (intro bit_array_at_field) simp
  finally show ?thesis by (simp add: l field_nat_def data'_def)
qed

lemma sint_ucast_small:
  fixes x :: nat
  assumes "x < 2 ^ (LENGTH('a) - 1)" "LENGTH('a) \<le> 64"
  shows "sint (ucast (word_of_nat x :: 64 word) :: 'a::len word) = int x"
proof -
  have "x < 2 ^ LENGTH('a)"
    using assms(1) by (meson order_less_le_trans diff_le_self power_increasing one_le_numeral)
  then have u: "uint (ucast (word_of_nat x :: 64 word) :: 'a word) = int x"
    using unat_ucast_word_of_nat [of x] assms(2) by (metis uint_nat)
  have lt: "int x < 2 ^ (LENGTH('a) - Suc 0)" using assms(1) by (simp add: of_nat_less_iff [symmetric])
  have "(0::int) \<le> 2 ^ (LENGTH('a) - Suc 0)" by simp
  then have ge: "- (2 ^ (LENGTH('a) - Suc 0)) \<le> int x" by linarith
  have "signed_take_bit (LENGTH('a) - Suc 0) (int x) = int x"
    using ge lt by (rule signed_take_bit_int_eq_self)
  then show ?thesis
    by (simp add: sint_uint u)
qed

text \<open>A wide type decodes only when its bit field lies inside the window.\<close>

lemma parse_wide_window:
  assumes "2 \<le> type_size dt" "parse_signal_measure data bo dt off bc = Inr v"
  shows "off + bc \<le> 8 * length data"
proof (rule ccontr)
  assume "\<not> off + bc \<le> 8 * length data"
  then have "parse_signal_measure data bo dt off bc = Inl PanicBitArray"
    by (simp add: parse_wide_eq [OF assms(1)] bit_array_at_def Let_def)
  with assms(2) show False by simp
qed

text \<open>C3: For every numeric type of width 2, 4 or 8 bytes, a value x < 2^bc written at bit offset off of a window in either byte order decodes back to x with the declared type.\<close>

theorem parse_roundtrip:
  assumes "2 \<le> type_size dt" "type_size dt \<le> w" "off + bc \<le> 8 * w" "bc \<le> 8 * type_size dt" "x < 2 ^ bc"
  shows "\<exists>v. parse_signal_measure (encode_field bo w off x) bo dt off bc = Inr v
             \<and> value_dtype v = dt \<and> value_bits v = x"
proof -
  have "x < 2 ^ (8 * type_size dt)"
    using assms(4,5) by (meson order_less_le_trans one_le_numeral power_increasing)
  then show ?thesis
    using assms by (simp add: parse_numeric_field field_nat_encode numeric_value_bits)
qed

text \<open>C12: For every numeric type of width 2, 4 or 8 bytes and a bit count within the type, a successful decode of any window yields exactly the MDF field the window holds at the bit offset, which is below 2^bc: the value never exceeds the declared bit count.\<close>

theorem parse_value_is_field:
  assumes "2 \<le> type_size dt" "bc \<le> 8 * type_size dt" "parse_signal_measure data bo dt off bc = Inr v"
  shows "value_bits v = field_nat bo data off bc \<and> value_bits v < 2 ^ bc"
proof -
  have w: "off + bc \<le> 8 * length data" using assms(1,3) by (rule parse_wide_window)
  have e: "parse_signal_measure data bo dt off bc = numeric_value dt (length data) (word_of_nat (field_nat bo data off bc))"
    by (rule parse_numeric_field [OF assms(1) w])
  have f: "field_nat bo data off bc < 2 ^ bc" by (simp add: field_nat_def)
  also have "(2::nat) ^ bc \<le> 2 ^ (8 * type_size dt)" using assms(2) by (rule power_increasing) simp
  finally have f8: "field_nat bo data off bc < 2 ^ (8 * type_size dt)" .
  have len: "type_size dt \<le> length data"
    using assms(1,3) unfolding e by (cases dt) (auto split: if_splits)
  obtain v' where "numeric_value dt (length data) (word_of_nat (field_nat bo data off bc)) = Inr v'"
    and "value_bits v' = field_nat bo data off bc"
    using numeric_value_bits [OF assms(1) len f8] by blast
  with assms(3) e f show ?thesis by simp
qed

text \<open>C22: A wide numeric type decoded from a window narrower than the type fails with the not-enough-data error, after the bit window itself was in range.\<close>

theorem parse_not_enough_data:
  assumes "2 \<le> type_size dt" "off + bc \<le> 8 * length data" "length data < type_size dt"
  shows "\<exists>ty. parse_signal_measure data bo dt off bc = Inl (ErrNotEnoughData ty)"
proof -
  have e: "parse_signal_measure data bo dt off bc
             = numeric_value dt (length data) (word_of_nat (field_nat bo data off bc))"
    using assms(1,2) by (rule parse_numeric_field)
  show ?thesis unfolding e using assms(1,3) by (cases dt) auto
qed

text \<open>C21: For wide numeric types and unknown descriptors, a bit field reaching past the window (offset + count > 8 * len) makes the bit-array library panic before any type check.\<close>

theorem parse_window_panic:
  assumes "2 \<le> type_size dt \<or> dt = TNil" "8 * length data < off + bc"
  shows "parse_signal_measure data bo dt off bc = Inl PanicBitArray"
  using assms by (cases dt) (auto simp: bit_array_at_def reverse_bytes_rev)

lemma parse_unsupported_type:
  "off + bc \<le> 8 * length data \<Longrightarrow> parse_signal_measure data bo TNil off bc = Inl ErrUnsupportedType"
proof -
  assume a: "off + bc \<le> 8 * length data"
  define data' where "data' = (if bo = LittleEndian then rev data else data)"
  have "parse_signal_measure data bo TNil off bc
      = bindE (bit_array_at data' (int (length data' * 8) - int off - int bc) bc)
              (\<lambda>bits. (\<lambda>_. Inl ErrUnsupportedType) (to_uint64 bits))"
    by (simp add: data'_def reverse_bytes_rev)
  also have "\<dots> = Inl ErrUnsupportedType"
    by (rule bit_array_at_field) (simp add: data'_def a)
  finally show ?thesis .
qed

text \<open>C23: The wide signed types never sign-extend the bit field: whenever an int16, int32 or int64 channel whose bit count is below the type's width decodes, the signed value read back is the unsigned MDF field, so a negative field (its top bit set) comes out as a positive number.\<close>

theorem parse_signed_no_sign_extension:
  assumes "dt = TInt16 \<or> dt = TInt32 \<or> dt = TInt64" "bc < 8 * type_size dt"
    "parse_signal_measure data bo dt off bc = Inr v"
  shows "value_sint v = int (field_nat bo data off bc)"
proof -
  let ?f = "field_nat bo data off bc"
  have wide: "2 \<le> type_size dt" using assms(1) by auto
  have e: "parse_signal_measure data bo dt off bc = numeric_value dt (length data) (word_of_nat ?f)"
    using parse_numeric_field [OF wide parse_wide_window [OF wide assms(3)]] .
  have "?f < 2 ^ bc" by (simp add: field_nat_def)
  also have "(2::nat) ^ bc \<le> 2 ^ (8 * type_size dt - 1)" using assms(2) by (intro power_increasing) simp_all
  finally have f: "?f < 2 ^ (8 * type_size dt - 1)" .
  show ?thesis
    using assms(1) assms(3) f unfolding e
    by (auto split: if_splits simp: sint_ucast_small [where 'a = 16] sint_ucast_small [where 'a = 32]
             sint_ucast_small [where 'a = 64, simplified])
qed

theorem parse_roundtrip_witness:
  "2 \<le> type_size TUInt16 \<and> type_size TUInt16 \<le> 2 \<and> (3::nat) + 9 \<le> 8 * 2 \<and> 9 \<le> 8 * type_size TUInt16
   \<and> (300::nat) < 2 ^ 9
   \<and> (\<exists>v. parse_signal_measure (encode_field BigEndian 2 3 300) BigEndian TUInt16 3 9 = Inr v
          \<and> value_dtype v = TUInt16 \<and> value_bits v = 300)"
  using parse_roundtrip [of TUInt16 2 3 9 300 BigEndian] by simp

theorem parse_not_enough_data_witness:
  "2 \<le> type_size TUInt32 \<and> (0::nat) + 16 \<le> 8 * length [1, 2 :: byte] \<and> length [1, 2 :: byte] < type_size TUInt32
   \<and> (\<exists>ty. parse_signal_measure [1, 2] LittleEndian TUInt32 0 16 = Inl (ErrNotEnoughData ty))"
  using parse_not_enough_data [of TUInt32 0 16 "[1, 2]" LittleEndian] by simp

theorem parse_window_panic_witness:
  "(2 \<le> type_size TUInt16 \<or> TUInt16 = TNil) \<and> 8 * length [1, 2 :: byte] < 4 + 16
   \<and> parse_signal_measure [1, 2] BigEndian TUInt16 4 16 = Inl PanicBitArray"
  using parse_window_panic [of TUInt16 "[1, 2]" 4 16 BigEndian] by simp

theorem parse_value_is_field_witness:
  "2 \<le> type_size TUInt16 \<and> 12 \<le> 8 * type_size TUInt16
   \<and> parse_signal_measure [0xAB, 0xFC] LittleEndian TUInt16 4 12 = Inr (VUInt16 0xFCA)
   \<and> value_bits (VUInt16 0xFCA) = field_nat LittleEndian [0xAB, 0xFC] 4 12 \<and> value_bits (VUInt16 0xFCA) < 2 ^ 12"
proof -
  have p: "parse_signal_measure [0xAB, 0xFC] LittleEndian TUInt16 4 12 = Inr (VUInt16 0xFCA)"
    using parse_numeric_field [of TUInt16 4 12 "[0xAB, 0xFC]" LittleEndian] by (simp add: field_nat_def be_nat_def)
  show ?thesis using parse_value_is_field [OF _ _ p] p by simp
qed

theorem parse_signed_no_sign_extension_witness:
  "(TInt16 = TInt16 \<or> TInt16 = TInt32 \<or> TInt16 = TInt64) \<and> 12 < 8 * type_size TInt16
   \<and> parse_signal_measure [0xFF, 0x0F] LittleEndian TInt16 0 12 = Inr (VInt16 0x0FFF)
   \<and> value_sint (VInt16 0x0FFF) = int (field_nat LittleEndian [0xFF, 0x0F] 0 12)
   \<and> value_sint (VInt16 0x0FFF) = 4095"
proof -
  have p: "parse_signal_measure [0xFF, 0x0F] LittleEndian TInt16 0 12 = Inr (VInt16 0x0FFF)"
    using parse_numeric_field [of TInt16 0 12 "[0xFF, 0x0F]" LittleEndian] by (simp add: field_nat_def be_nat_def)
  show ?thesis using parse_signed_no_sign_extension [OF _ _ p] p by (simp add: field_nat_def be_nat_def)
qed

end
