(* ===== verification/RecordReader.thy ===== *)
theory RecordReader
  imports BitDecoder
begin

text \<open>
  The fixed-length record reader of \<open>src/channel.go\<close>: the per-read state
  \<open>ChannelReader\<close>, one sample read \<open>readDatablock\<close>, and the row loop of \<open>readDT\<close> with
  its end-of-buffer remainder logic. Positions are \<open>nat\<close>: every Go \<open>int64\<close> involved
  (\<open>StartOffset\<close>, \<open>RowSize\<close>, \<open>pos\<close>) starts non-negative and only grows by
  \<open>RowSize\<close> while below the buffer length, so no wrap-around is reachable. The loop of
  \<open>readDT\<close> is \<open>read_dt_loop\<close>, recursion on the iterations left; the file access that
  precedes it lives with the dispatcher, which owns the file.
\<close>

section \<open>State\<close>

record channel_reader =
  cr_byte_order :: byte_order
  cr_size_measure_row :: nat
  cr_data_type :: dtype
  cr_data_address :: addr
  cr_next_data_address :: addr
  cr_measure_buffer :: "byte list"
  cr_buffer_spare :: nat
  cr_row_size :: nat
  cr_bit_count :: nat
  cr_bit_offset :: nat
  cr_start_offset :: nat

section \<open>Operations\<close>

text \<open>
  \<open>readDatablock(pos)\<close>: the window \<open>MeasureBuffer[pos:pos+SizeMeasureRow]\<close>, decoded.
  The slice is bounded by the buffer's capacity: \<open>cr_buffer_spare\<close> is
  \<open>cap(MeasureBuffer) - len(MeasureBuffer)\<close>.
\<close>

definition read_datablock :: "channel_reader \<Rightarrow> nat \<Rightarrow> error + measure_value" where
  "read_datablock r pos =
     bindE (go_slice (cr_measure_buffer r) (cr_buffer_spare r) pos (pos + cr_size_measure_row r))
       (\<lambda>w. parse_signal_measure w (cr_byte_order r) (cr_data_type r) (cr_bit_offset r) (cr_bit_count r))"

text \<open>
  The branch of \<open>readDT\<close> taken when \<open>pos >= len(MeasureBuffer)\<close>: the remainder
  \<open>len % RowSize\<close> (a division by zero panics), and, when it is not zero, the start
  offset for the next block moved by \<open>RowSize - remaining\<close> modulo \<open>RowSize\<close>.
\<close>

definition buffer_exhausted :: "channel_reader \<Rightarrow> error + channel_reader" where
  "buffer_exhausted r =
     (if cr_row_size r = 0 then Inl PanicDivZero
      else (let remaining = length (cr_measure_buffer r) mod cr_row_size r
            in Inr (if 0 < remaining
                    then r\<lparr>cr_start_offset := (cr_start_offset r + (cr_row_size r - remaining)) mod cr_row_size r\<rparr>
                    else r)))"

text \<open>
  The loop \<open>for i := 0; i < CycleCount; i++\<close> of \<open>readDT\<close>, with \<open>k\<close> iterations left,
  the byte position \<open>pos\<close> and the samples appended so far.
\<close>

fun read_dt_loop :: "channel_reader \<Rightarrow> nat \<Rightarrow> nat \<Rightarrow> measure_value list
                     \<Rightarrow> error + (channel_reader \<times> measure_value list)" where
  "read_dt_loop r 0 pos acc = Inr (r, acc)"
| "read_dt_loop r (Suc k) pos acc =
     (if length (cr_measure_buffer r) \<le> pos
      then bindE (buffer_exhausted r) (\<lambda>r'. Inr (r', acc))
      else bindE (read_datablock r pos) (\<lambda>v. read_dt_loop r k (pos + cr_row_size r) (acc @ [v])))"

section \<open>Reference: the rows a buffer holds\<close>

text \<open>
  The byte positions the loop visits: \<open>s + j * R\<close> for the first \<open>k\<close> rows, up to the
  first one at or past the end of the buffer.
\<close>

definition row_positions :: "nat \<Rightarrow> nat \<Rightarrow> nat \<Rightarrow> nat \<Rightarrow> nat list" where
  "row_positions L R s k = takeWhile (\<lambda>p. p < L) (map (\<lambda>j. s + j * R) [0..<k])"

text \<open>How many rows of stride \<open>R\<close> start before \<open>L\<close> when the first starts at \<open>s\<close>.\<close>

definition row_count :: "nat \<Rightarrow> nat \<Rightarrow> nat \<Rightarrow> nat" where
  "row_count L R s = (L - s + (R - 1)) div R"

text \<open>The data of consecutive blocks read one after another, the reader carried along.\<close>

fun read_blocks :: "channel_reader \<Rightarrow> nat \<Rightarrow> byte list list \<Rightarrow> measure_value list
                    \<Rightarrow> error + (channel_reader \<times> measure_value list)" where
  "read_blocks r k [] acc = Inr (r, acc)"
| "read_blocks r k (b # bs) acc =
     bindE (read_dt_loop (r\<lparr>cr_measure_buffer := b\<rparr>) k (cr_start_offset r) acc)
       (\<lambda>(r', acc'). read_blocks r' k bs acc')"

text \<open>
  The same over slices that may carry spare capacity, as inflated blocks do: each slice is
  its bytes and its \<open>cap - len\<close>.
\<close>

fun read_slices :: "channel_reader \<Rightarrow> nat \<Rightarrow> (byte list \<times> nat) list \<Rightarrow> measure_value list
                    \<Rightarrow> error + (channel_reader \<times> measure_value list)" where
  "read_slices r k [] acc = Inr (r, acc)"
| "read_slices r k (b # bs) acc =
     bindE (read_dt_loop (r\<lparr>cr_measure_buffer := fst b, cr_buffer_spare := snd b\<rparr>) k (cr_start_offset r) acc)
       (\<lambda>(r', acc'). read_slices r' k bs acc')"

declare read_datablock_def [mdf_eval] buffer_exhausted_def [mdf_eval] row_positions_def [mdf_eval]
  row_count_def [mdf_eval]

section \<open>Lemmas\<close>

lemma row_count_iff: "0 < R \<Longrightarrow> s + j * R < L \<longleftrightarrow> j < row_count L R s"
proof (cases "s < L")
  case False
  assume "0 < R"
  then have "row_count L R s = 0" using False by (simp add: row_count_def)
  with False show ?thesis by simp
next
  case True
  assume R: "0 < R"
  define a where "a = L - s - 1"
  have e: "L - s + (R - 1) = a + 1 * R" using True R by (simp add: a_def)
  have "s + j * R < L \<longleftrightarrow> j * R \<le> a" using True by (auto simp: a_def)
  also have "\<dots> \<longleftrightarrow> j \<le> a div R" using R by (simp add: less_eq_div_iff_mult_less_eq)
  also have "\<dots> \<longleftrightarrow> j < row_count L R s"
  proof -
    have "row_count L R s = Suc (a div R)" unfolding row_count_def e using R by (simp add: div_add_self2)
    then show ?thesis by (simp add: less_Suc_eq_le)
  qed
  finally show ?thesis .
qed

lemma row_count_unique:
  assumes "0 < R" "\<And>j. s + j * R < L \<longleftrightarrow> j < c"
  shows "row_count L R s = c"
proof -
  have h: "\<And>j. j < row_count L R s \<longleftrightarrow> j < c"
    using assms by (simp add: row_count_iff [symmetric])
  show ?thesis
  proof (rule antisym)
    show "row_count L R s \<le> c" using h [of c] by simp
    show "c \<le> row_count L R s" using h [of "row_count L R s"] by simp
  qed
qed

lemma takeWhile_less_upt: "takeWhile (\<lambda>j. j < c) [0..<k] = [0..<min k c]"
proof (induction k)
  case 0
  then show ?case by simp
next
  case (Suc k)
  show ?case
  proof (cases "k < c")
    case True
    with Suc.IH show ?thesis by (simp add: takeWhile_append min_def)
  next
    case False
    show ?thesis
    proof (cases "k = c")
      case True
      with Suc.IH show ?thesis by (simp add: takeWhile_append)
    next
      case False
      with \<open>\<not> k < c\<close> have "c < k" by simp
      then have "\<not> (\<forall>x\<in>set [0..<k]. x < c)" by auto
      with Suc.IH \<open>c < k\<close> show ?thesis by (auto simp: takeWhile_append min_def)
    qed
  qed
qed

lemma row_positions_eq:
  assumes "0 < R"
  shows "row_positions L R s k = map (\<lambda>j. s + j * R) [0..<min k (row_count L R s)]"
proof -
  have "takeWhile ((\<lambda>p. p < L) \<circ> (\<lambda>j. s + j * R)) [0..<k] = takeWhile (\<lambda>j. j < row_count L R s) [0..<k]"
    using assms by (intro takeWhile_cong) (simp_all add: row_count_iff)
  then show ?thesis
    by (simp add: row_positions_def takeWhile_map takeWhile_less_upt)
qed

lemma length_row_positions: "0 < R \<Longrightarrow> length (row_positions L R s k) = min k (row_count L R s)"
  by (simp add: row_positions_eq)

lemma row_positions_Suc:
  "row_positions L R s (Suc k) = (if s < L then s # row_positions L R (s + R) k else [])"
proof -
  have "map (\<lambda>j. s + j * R) [0..<Suc k] = s # map (\<lambda>j. s + R + j * R) [0..<k]"
    by (simp add: upt_conv_Cons map_Suc_upt [symmetric] del: upt_Suc)
  then show ?thesis by (simp add: row_positions_def)
qed

text \<open>The loop visits exactly the reference positions, in order.\<close>

lemma read_dt_loop_eq:
  "read_dt_loop r k pos acc =
     bindE (mapE (read_datablock r) (row_positions (length (cr_measure_buffer r)) (cr_row_size r) pos k))
       (\<lambda>vs. if length (row_positions (length (cr_measure_buffer r)) (cr_row_size r) pos k) < k
             then bindE (buffer_exhausted r) (\<lambda>r'. Inr (r', acc @ vs))
             else Inr (r, acc @ vs))"
proof (induction k arbitrary: pos acc)
  case 0
  then show ?case by (simp add: row_positions_def)
next
  case (Suc k)
  show ?case
  proof (cases "length (cr_measure_buffer r) \<le> pos")
    case True
    then show ?thesis by (simp add: row_positions_Suc)
  next
    case False
    then show ?thesis
      by (cases "read_datablock r pos") (simp_all add: row_positions_Suc Suc.IH bindE_assoc cong: if_cong)
  qed
qed


lemma carry_mod:
  assumes "0 < R" "s < R"
  shows "int (if 0 < L mod R then (s + (R - L mod R)) mod R else s) = (int s - int L) mod int R"
proof (cases "0 < L mod R")
  case True
  have lt: "L mod R < R" using assms(1) by simp
  have "int ((s + (R - L mod R)) mod R) = (int s + int R - int (L mod R)) mod int R"
    using lt by (simp add: of_nat_mod of_nat_diff)
  also have "\<dots> = ((int s - int (L mod R)) + int R) mod int R"
    by (simp add: algebra_simps)
  also have "\<dots> = (int s - int (L mod R)) mod int R"
    by (rule mod_add_self2)
  also have "\<dots> = (int s - int L) mod int R"
    by (simp add: of_nat_mod mod_diff_right_eq)
  finally show ?thesis using True by simp
next
  case False
  then have "int L mod int R = 0" by (simp flip: of_nat_mod)
  then have "(int s - int L) mod int R = int s mod int R" by (simp add: mod_diff_right_eq [symmetric])
  also have "\<dots> = int s" using assms by simp
  finally show ?thesis using False by simp
qed

lemma buffer_exhausted_Inr:
  assumes "0 < cr_row_size r" "cr_start_offset r < cr_row_size r"
  shows "\<exists>s'. buffer_exhausted r = Inr (r\<lparr>cr_start_offset := s'\<rparr>)
              \<and> int s' = (int (cr_start_offset r) - int (length (cr_measure_buffer r))) mod int (cr_row_size r)"
proof -
  let ?R = "cr_row_size r" and ?s = "cr_start_offset r" and ?L = "length (cr_measure_buffer r)"
  let ?s' = "if 0 < ?L mod ?R then (?s + (?R - ?L mod ?R)) mod ?R else ?s"
  have "buffer_exhausted r = Inr (r\<lparr>cr_start_offset := ?s'\<rparr>)"
    using assms(1) by (simp add: buffer_exhausted_def Let_def)
  moreover have "int ?s' = (int ?s - int ?L) mod int ?R"
    using assms by (rule carry_mod)
  ultimately show ?thesis by blast
qed

text \<open>C6: A buffer of exactly k rows read with a start offset inside the first row yields the samples of the k positions s + j*R, in order, and leaves the reader unchanged: no remainder logic is triggered.\<close>

theorem read_dt_exact_stride:
  assumes "0 < cr_row_size r" "s < cr_row_size r"
    and "length (cr_measure_buffer r) = k * cr_row_size r"
  shows "read_dt_loop r k s acc
           = bindE (mapE (read_datablock r) (map (\<lambda>j. s + j * cr_row_size r) [0..<k]))
                   (\<lambda>vs. Inr (r, acc @ vs))"
proof -
  have "row_count (length (cr_measure_buffer r)) (cr_row_size r) s = k"
    using assms(1) unfolding assms(3)
  proof (rule row_count_unique)
    fix j
    show "s + j * cr_row_size r < k * cr_row_size r \<longleftrightarrow> j < k"
    proof
      assume "s + j * cr_row_size r < k * cr_row_size r"
      then have "j * cr_row_size r < k * cr_row_size r" by linarith
      then show "j < k" using mult_less_cancel2 by blast
    next
      assume "j < k"
      then have "Suc j * cr_row_size r \<le> k * cr_row_size r" by (intro mult_le_mono1) simp
      then show "s + j * cr_row_size r < k * cr_row_size r" using assms(2) by simp
    qed
  qed
  then show ?thesis
    using assms(1) by (simp add: read_dt_loop_eq row_positions_eq)
qed

text \<open>C7: When a block runs out before the cycle count, the start offset carried to the next block is (s - len) mod R, as an integer, and stays below the row size.\<close>

theorem read_dt_carry:
  assumes "0 < cr_row_size r" "cr_start_offset r < cr_row_size r"
    and "row_count (length (cr_measure_buffer r)) (cr_row_size r) (cr_start_offset r) < k"
    and "read_dt_loop r k (cr_start_offset r) acc = Inr (r', vs)"
  shows "int (cr_start_offset r') = (int (cr_start_offset r) - int (length (cr_measure_buffer r))) mod int (cr_row_size r)
         \<and> cr_start_offset r' < cr_row_size r"
proof -
  obtain s' where be: "buffer_exhausted r = Inr (r\<lparr>cr_start_offset := s'\<rparr>)"
    and s': "int s' = (int (cr_start_offset r) - int (length (cr_measure_buffer r))) mod int (cr_row_size r)"
    using buffer_exhausted_Inr [OF assms(1,2)] by blast
  have "r' = r\<lparr>cr_start_offset := s'\<rparr>"
    using assms(1,3,4) be by (auto simp: read_dt_loop_eq length_row_positions bindE_eq_Inr_iff)
  moreover have "int s' < int (cr_row_size r)"
    using s' assms(1) by simp
  ultimately show ?thesis using s' by simp
qed

lemma read_dt_loop_numeral:
  "read_dt_loop r (numeral n) pos acc =
     (if length (cr_measure_buffer r) \<le> pos
      then bindE (buffer_exhausted r) (\<lambda>r'. Inr (r', acc))
      else bindE (read_datablock r pos) (\<lambda>v. read_dt_loop r (pred_numeral n) (pos + cr_row_size r) (acc @ [v])))"
  by (simp add: numeral_eq_Suc)

text \<open>A sample read of a wide numeric type, through the bit-window lemma of the decoder.\<close>

lemma read_datablock_numeric:
  assumes "2 \<le> type_size (cr_data_type r)"
    and "pos + cr_size_measure_row r \<le> length (cr_measure_buffer r)"
    and "cr_bit_offset r + cr_bit_count r \<le> 8 * cr_size_measure_row r"
  shows "read_datablock r pos
           = numeric_value (cr_data_type r) (cr_size_measure_row r)
               (word_of_nat (field_nat (cr_byte_order r)
                  (take (cr_size_measure_row r) (drop pos (cr_measure_buffer r)))
                  (cr_bit_offset r) (cr_bit_count r)))"
proof -
  have l: "length (take (cr_size_measure_row r) (drop pos (cr_measure_buffer r))) = cr_size_measure_row r"
    using assms(2) by simp
  show ?thesis
    using assms(1,2,3) parse_numeric_field [of "cr_data_type r" "cr_bit_offset r" "cr_bit_count r"
        "take (cr_size_measure_row r) (drop pos (cr_measure_buffer r))" "cr_byte_order r"]
    by (simp only: read_datablock_def l go_slice_ok le_add1 bindE_Inr diff_add_inverse)
qed

lemma buffer_exhausted_ok: "0 < cr_row_size r \<Longrightarrow> \<exists>r'. buffer_exhausted r = Inr r'"
  by (simp add: buffer_exhausted_def Let_def)

text \<open>The samples a loop appends, with the reader forgotten: those of the reference positions.\<close>

lemma read_dt_loop_values:
  assumes "0 < cr_row_size r"
  shows "map_sum id snd (read_dt_loop r k pos acc)
           = map_sum id (\<lambda>vs. acc @ vs)
               (mapE (read_datablock r) (row_positions (length (cr_measure_buffer r)) (cr_row_size r) pos k))"
proof -
  obtain r' where "buffer_exhausted r = Inr r'" using buffer_exhausted_ok [OF assms] by blast
  then show ?thesis
    by (cases "mapE (read_datablock r) (row_positions (length (cr_measure_buffer r)) (cr_row_size r) pos k)")
       (simp_all add: read_dt_loop_eq)
qed

text \<open>Where the rows of a second block start, seen from the start of the first block.\<close>

text \<open>The loop moves only the reader's start offset.\<close>

lemma read_dt_loop_reader:
  "read_dt_loop r k pos acc = Inr (r', vs) \<Longrightarrow> r' = r\<lparr>cr_start_offset := cr_start_offset r'\<rparr>"
proof (induction k arbitrary: pos acc)
  case (Suc k)
  then show ?case
    by (auto simp: buffer_exhausted_def Let_def bindE_eq_Inr_iff split: if_splits)
qed simp

lemma read_dt_loop_spare:
  "read_dt_loop r k pos acc = Inr (r', vs) \<Longrightarrow> cr_buffer_spare r' = cr_buffer_spare r"
  by (subst read_dt_loop_reader) simp_all

lemma carry_position:
  assumes R: "0 < R" and s: "s < R" and s': "int s' = (int s - int L1) mod int R"
  shows "s + row_count L1 R s * R = L1 + s'"
proof -
  let ?m1 = "row_count L1 R s"
  have ge: "L1 \<le> s + ?m1 * R" using row_count_iff [OF R, of s ?m1 L1] by simp
  have lt: "s + ?m1 * R < L1 + R"
  proof (cases ?m1)
    case 0
    then show ?thesis using s by simp
  next
    case (Suc j)
    then have "s + j * R < L1" using row_count_iff [OF R, of s j L1] by simp
    then show ?thesis using Suc by simp
  qed
  define d where "d = s + ?m1 * R - L1"
  have d: "d < R" "int d = int s - int L1 + int (?m1 * R)" using ge lt by (simp_all add: d_def of_nat_diff)
  have "int s - int L1 = int d - int ?m1 * int R" using d(2) by simp
  then have "(int s - int L1) mod int R = (int d - int ?m1 * int R) mod int R" by simp
  also have "\<dots> = int d mod int R" by (simp add: mod_diff_eq [symmetric])
  also have "\<dots> = int d" using d(1) by simp
  finally have "s' = d" using s' by simp
  then show ?thesis using ge by (simp add: d_def)
qed

text \<open>
  The rows of two consecutive blocks: those of the first block, then those of the second
  counted from the carried offset and shifted by the first block's length.
\<close>

lemma row_positions_split:
  assumes R: "0 < R" and s: "s < R" and first: "row_count L1 R s < k"
    and cover: "L1 + L2 \<le> s + k * R" and s': "int s' = (int s - int L1) mod int R"
  shows "row_positions (L1 + L2) R s k
           = row_positions L1 R s k @ map (\<lambda>q. L1 + q) (row_positions L2 R s' k)"
proof -
  define m1 where "m1 = row_count L1 R s"
  define m where "m = row_count (L1 + L2) R s"
  have key: "s + m1 * R = L1 + s'" unfolding m1_def using R s s' by (rule carry_position)
  have m_le: "m \<le> k"
  proof (rule ccontr)
    assume "\<not> m \<le> k"
    then have "s + k * R < L1 + L2" using row_count_iff [OF R, of s k "L1 + L2"] by (simp add: m_def)
    with cover show False by simp
  qed
  have m1_le: "m1 \<le> m"
  proof (rule ccontr)
    assume "\<not> m1 \<le> m"
    then have "s + m * R < L1" using row_count_iff [OF R, of s m L1] by (simp add: m1_def)
    then have "m < m" using row_count_iff [OF R, of s m "L1 + L2"] by (simp add: m_def)
    then show False by simp
  qed
  have m2: "row_count L2 R s' = m - m1"
  proof (rule row_count_unique [OF R])
    fix j
    have e: "s + (m1 + j) * R = (L1 + s') + j * R"
      using key by (simp add: add_mult_distrib)
    have "s' + j * R < L2 \<longleftrightarrow> s + (m1 + j) * R < L1 + L2"
      unfolding e by simp
    also have "\<dots> \<longleftrightarrow> m1 + j < m" using row_count_iff [OF R] by (simp add: m_def)
    finally show "s' + j * R < L2 \<longleftrightarrow> j < m - m1" using m1_le by arith
  qed
  have "[0..<m1 + (m - m1)] = [0..<m1] @ [m1..<m1 + (m - m1)]"
    by (rule upt_add_eq_append) simp
  then have up: "[0..<m] = [0..<m1] @ map (\<lambda>j. j + m1) [0..<m - m1]"
    using m1_le by (simp add: map_add_upt)
  have sh: "\<And>x. s + (x + m1) * R = L1 + (s' + x * R)"
    using key by (simp add: add_mult_distrib)
  show ?thesis
    using m_le m1_le first R
    by (simp add: row_positions_eq m2 up sh flip: m_def m1_def)
qed

lemma read_datablock_append_left:
  "p + cr_size_measure_row r \<le> length b1 \<Longrightarrow>
   read_datablock (r\<lparr>cr_measure_buffer := b1 @ b2\<rparr>) p = read_datablock (r\<lparr>cr_measure_buffer := b1\<rparr>) p"
  by (simp add: read_datablock_def go_slice_append_left)

lemma read_datablock_append_right:
  "read_datablock (r\<lparr>cr_measure_buffer := b1 @ b2\<rparr>) (length b1 + q)
   = read_datablock (r\<lparr>cr_start_offset := x, cr_measure_buffer := b2\<rparr>) q"
  by (simp add: read_datablock_def go_slice_append_right add.assoc)

lemma buffer_same_spare [simp]:
  "cr_buffer_spare r = k \<Longrightarrow> r\<lparr>cr_measure_buffer := b, cr_buffer_spare := k\<rparr> = r\<lparr>cr_measure_buffer := b\<rparr>"
  by (cases r) auto

text \<open>Blocks loaded with \<open>make\<close> are slices without spare capacity.\<close>

lemma read_blocks_slices:
  "cr_buffer_spare r = 0 \<Longrightarrow> read_blocks r k bs acc = read_slices r k (map (\<lambda>b. (b, 0)) bs) acc"
proof (induction bs arbitrary: r acc)
  case (Cons b bs)
  show ?case
  proof (cases "read_dt_loop (r\<lparr>cr_measure_buffer := b\<rparr>) k (cr_start_offset r) acc")
    case (Inr p)
    then show ?thesis
      using Cons.IH [of "fst p"] read_dt_loop_spare [of _ k _ acc "fst p" "snd p"] Cons.prems
      by (cases p) simp
  qed (simp add: Cons.prems)
qed simp

section \<open>Reads past the end of the buffer\<close>

text \<open>
  A field inside the buffer reads the same whatever the capacity; a field that runs past
  the length panics on a buffer without spare capacity.
\<close>

lemma read_datablock_spare:
  "p + cr_size_measure_row r \<le> length (cr_measure_buffer r) \<Longrightarrow>
   read_datablock (r\<lparr>cr_buffer_spare := k\<rparr>) p = read_datablock r p"
  by (simp add: read_datablock_def go_slice_within_len [of _ "cr_measure_buffer r"])

lemma read_datablock_past_len:
  "cr_buffer_spare r = 0 \<Longrightarrow> length (cr_measure_buffer r) < p + cr_size_measure_row r \<Longrightarrow>
   read_datablock r p = Inl PanicSlice"
  by (simp add: read_datablock_def go_slice_def)

lemma buffer_exhausted_spare:
  "buffer_exhausted (r\<lparr>cr_buffer_spare := k\<rparr>) = map_sum id (\<lambda>r'. r'\<lparr>cr_buffer_spare := k\<rparr>) (buffer_exhausted r)"
  by (simp add: buffer_exhausted_def Let_def)

text \<open>When every row the loop visits lies inside the buffer, the capacity plays no part.\<close>

lemma read_dt_loop_spare_upd:
  assumes "\<forall>p \<in> set (row_positions (length (cr_measure_buffer r)) (cr_row_size r) pos K).
             p + cr_size_measure_row r \<le> length (cr_measure_buffer r)"
  shows "read_dt_loop (r\<lparr>cr_buffer_spare := k\<rparr>) K pos acc
           = map_sum id (apfst (\<lambda>r'. r'\<lparr>cr_buffer_spare := k\<rparr>)) (read_dt_loop r K pos acc)"
proof -
  let ?P = "row_positions (length (cr_measure_buffer r)) (cr_row_size r) pos K"
  have m: "mapE (read_datablock (r\<lparr>cr_buffer_spare := k\<rparr>)) ?P = mapE (read_datablock r) ?P"
    using assms by (intro mapE_cong) (simp add: read_datablock_spare)
  show ?thesis
    by (cases "mapE (read_datablock r) ?P"; cases "buffer_exhausted r")
       (simp_all add: read_dt_loop_eq [of "r\<lparr>cr_buffer_spare := k\<rparr>"] read_dt_loop_eq [of r] m buffer_exhausted_spare)
qed

text \<open>The rows before the first one that runs past the end decode; that one panics.\<close>

lemma mapE_first_past_len:
  assumes "cr_buffer_spare r = 0" "\<exists>p \<in> set P. length (cr_measure_buffer r) < p + cr_size_measure_row r"
  shows "mapE (read_datablock r) P
           = bindE (mapE (read_datablock r) (takeWhile (\<lambda>q. q + cr_size_measure_row r \<le> length (cr_measure_buffer r)) P))
               (\<lambda>_. Inl PanicSlice)"
  using assms(2)
proof (induction P)
  case (Cons p P)
  show ?case
  proof (cases "p + cr_size_measure_row r \<le> length (cr_measure_buffer r)")
    case True
    then have IH: "mapE (read_datablock r) P
                   = bindE (mapE (read_datablock r) (takeWhile (\<lambda>q. q + cr_size_measure_row r \<le> length (cr_measure_buffer r)) P))
                       (\<lambda>_. Inl PanicSlice)"
      using Cons by (intro Cons.IH) auto
    show ?thesis
      using True IH by (cases "read_datablock r p"; cases "mapE (read_datablock r) (takeWhile (\<lambda>q. q + cr_size_measure_row r \<le> length (cr_measure_buffer r)) P)") simp_all
  next
    case False
    then show ?thesis using assms(1) by (simp add: read_datablock_past_len)
  qed
qed simp

text \<open>
  A loop that succeeds on a buffer with spare capacity, although one of its rows runs
  past the length, panics on the same bytes without spare capacity.
\<close>

lemma read_dt_loop_padding:
  assumes "cr_buffer_spare r = 0"
    and "p \<in> set (row_positions (length (cr_measure_buffer r)) (cr_row_size r) pos K)"
    and "length (cr_measure_buffer r) < p + cr_size_measure_row r"
    and "read_dt_loop (r\<lparr>cr_buffer_spare := k\<rparr>) K pos acc = Inr x"
  shows "read_dt_loop r K pos acc = Inl PanicSlice"
proof -
  let ?P = "row_positions (length (cr_measure_buffer r)) (cr_row_size r) pos K"
  let ?fits = "\<lambda>q. q + cr_size_measure_row r \<le> length (cr_measure_buffer r)"
  let ?T = "takeWhile ?fits ?P"
  obtain vs where "mapE (read_datablock (r\<lparr>cr_buffer_spare := k\<rparr>)) ?P = Inr vs"
    using assms(4) by (auto simp: read_dt_loop_eq [of "r\<lparr>cr_buffer_spare := k\<rparr>"] bindE_eq_Inr_iff)
  then have "mapE (read_datablock (r\<lparr>cr_buffer_spare := k\<rparr>)) (?T @ dropWhile ?fits ?P) = Inr vs"
    by simp
  then obtain ts where "mapE (read_datablock (r\<lparr>cr_buffer_spare := k\<rparr>)) ?T = Inr ts"
    by (blast dest: mapE_prefix_Inr)
  moreover have "mapE (read_datablock (r\<lparr>cr_buffer_spare := k\<rparr>)) ?T = mapE (read_datablock r) ?T"
    by (intro mapE_cong) (auto simp: read_datablock_spare dest: set_takeWhileD)
  ultimately have t: "mapE (read_datablock r) ?T = Inr ts" by simp
  have "mapE (read_datablock r) ?P = bindE (mapE (read_datablock r) ?T) (\<lambda>_. Inl PanicSlice)"
    using mapE_first_past_len [OF assms(1), of ?P] assms(2,3) by blast
  then show ?thesis by (simp add: read_dt_loop_eq [of r] t)
qed

lemma read_blocks_single:
  "read_blocks r k [b] acc = read_dt_loop (r\<lparr>cr_measure_buffer := b\<rparr>) k (cr_start_offset r) acc"
  by (cases "read_dt_loop (r\<lparr>cr_measure_buffer := b\<rparr>) k (cr_start_offset r) acc") auto

text \<open>C4: Reading two consecutive data blocks with the start offset carried by the remainder logic yields the same samples (or the same error) as reading their concatenation, when the first block ends before the cycle count, no field straddles the boundary and the rows cover the data.\<close>

theorem read_blocks_two_flat:
  assumes R: "0 < cr_row_size r" and s: "cr_start_offset r < cr_row_size r"
    and first: "row_count (length b1) (cr_row_size r) (cr_start_offset r) < k"
    and cover: "length b1 + length b2 \<le> cr_start_offset r + k * cr_row_size r"
    and whole: "\<forall>p \<in> set (row_positions (length b1) (cr_row_size r) (cr_start_offset r) k).
                  p + cr_size_measure_row r \<le> length b1"
  shows "map_sum id snd (read_blocks r k [b1, b2] acc)
         = map_sum id snd (read_dt_loop (r\<lparr>cr_measure_buffer := b1 @ b2\<rparr>) k (cr_start_offset r) acc)"
proof -
  let ?R = "cr_row_size r" and ?s = "cr_start_offset r"
  define r1 where "r1 = r\<lparr>cr_measure_buffer := b1\<rparr>"
  obtain s' where be: "buffer_exhausted r1 = Inr (r1\<lparr>cr_start_offset := s'\<rparr>)"
    and s'_eq: "int s' = (int ?s - int (length b1)) mod int ?R"
    using buffer_exhausted_Inr [of r1] R s by (auto simp: r1_def)
  define r2 where "r2 = r\<lparr>cr_start_offset := s', cr_measure_buffer := b2\<rparr>"
  define P1 where "P1 = row_positions (length b1) ?R ?s k"
  define P2 where "P2 = row_positions (length b2) ?R s' k"
  have split: "row_positions (length b1 + length b2) ?R ?s k = P1 @ map (\<lambda>q. length b1 + q) P2"
    unfolding P1_def P2_def using R s first cover s'_eq by (rule row_positions_split)
  have len1: "length P1 < k" using first R by (simp add: P1_def length_row_positions)
  have step1: "read_dt_loop r1 k ?s acc
                 = bindE (mapE (read_datablock r1) P1) (\<lambda>vs. Inr (r1\<lparr>cr_start_offset := s'\<rparr>, acc @ vs))"
    using len1 be by (simp add: read_dt_loop_eq P1_def r1_def)
  have r2': "r1\<lparr>cr_start_offset := s', cr_measure_buffer := b2\<rparr> = r2" by (simp add: r1_def r2_def)
  have left: "mapE (read_datablock (r\<lparr>cr_measure_buffer := b1 @ b2\<rparr>)) P1 = mapE (read_datablock r1) P1"
    using whole unfolding P1_def r1_def by (intro mapE_cong) (simp add: read_datablock_append_left)
  have right: "mapE (read_datablock (r\<lparr>cr_measure_buffer := b1 @ b2\<rparr>)) (map (\<lambda>q. length b1 + q) P2)
                 = mapE (read_datablock r2) P2"
    unfolding mapE_map r2_def by (intro mapE_cong) (simp add: read_datablock_append_right)
  have lb: "read_blocks r k [b1, b2] acc
             = bindE (read_dt_loop r1 k ?s acc)
                 (\<lambda>(r', acc'). read_dt_loop (r'\<lparr>cr_measure_buffer := b2\<rparr>) k (cr_start_offset r') acc')"
    unfolding r1_def by (subst read_blocks.simps(2)) (simp only: split_def read_blocks_single)
  have lhs: "map_sum id snd (read_blocks r k [b1, b2] acc)
               = map_sum id snd (bindE (mapE (read_datablock r1) P1) (\<lambda>vs. read_dt_loop r2 k s' (acc @ vs)))"
    unfolding lb step1 by (cases "mapE (read_datablock r1) P1") (simp_all add: r2')
  have v2: "\<And>acc'. map_sum id snd (read_dt_loop r2 k s' acc')
               = map_sum id (\<lambda>vs. acc' @ vs) (mapE (read_datablock r2) P2)"
    using R by (simp add: read_dt_loop_values r2_def P2_def)
  have vf: "map_sum id snd (read_dt_loop (r\<lparr>cr_measure_buffer := b1 @ b2\<rparr>) k ?s acc)
              = map_sum id (\<lambda>vs. acc @ vs) (mapE (read_datablock (r\<lparr>cr_measure_buffer := b1 @ b2\<rparr>))
                                               (P1 @ map (\<lambda>q. length b1 + q) P2))"
    using R by (simp add: read_dt_loop_values split)
  show ?thesis
    unfolding lhs vf mapE_append left right
    by (cases "mapE (read_datablock r1) P1"; cases "mapE (read_datablock r2) P2") (simp_all add: v2)
qed

text \<open>C16: On a buffer without spare capacity (a block loaded with make), a row whose field runs past the end of the buffer makes readDT panic on the slice as soon as the rows before it are decoded: a record split across two data blocks is never decoded.\<close>

theorem read_dt_straddle_panic:
  assumes "cr_buffer_spare r = 0" "p \<in> set (row_positions (length (cr_measure_buffer r)) (cr_row_size r) pos K)"
    "length (cr_measure_buffer r) < p + cr_size_measure_row r"
  shows "read_dt_loop r K pos acc
           = bindE (mapE (read_datablock r)
                      (takeWhile (\<lambda>q. q + cr_size_measure_row r \<le> length (cr_measure_buffer r))
                         (row_positions (length (cr_measure_buffer r)) (cr_row_size r) pos K)))
               (\<lambda>_. Inl PanicSlice)"
proof -
  let ?P = "row_positions (length (cr_measure_buffer r)) (cr_row_size r) pos K"
  have m: "mapE (read_datablock r) ?P
             = bindE (mapE (read_datablock r) (takeWhile (\<lambda>q. q + cr_size_measure_row r \<le> length (cr_measure_buffer r)) ?P))
                 (\<lambda>_. Inl PanicSlice)"
    using mapE_first_past_len [OF assms(1), of ?P] assms(2,3) by blast
  show ?thesis
    by (simp add: read_dt_loop_eq [of r] m bindE_assoc)
qed

text \<open>C17: The cycle count bounds each block, not the data group: when the first of two blocks holds at least k rows, the reader decodes k rows of it, keeps its start offset (no remainder logic runs), and decodes the second block from that same offset with a fresh budget of k rows.\<close>

theorem read_blocks_count_per_block:
  assumes "0 < cr_row_size r" "k \<le> row_count (length b1) (cr_row_size r) (cr_start_offset r)"
  shows "map_sum id snd (read_blocks r k [b1, b2] acc)
           = map_sum id (\<lambda>vs. acc @ vs)
               (bindE (mapE (read_datablock (r\<lparr>cr_measure_buffer := b1\<rparr>)) (map (\<lambda>j. cr_start_offset r + j * cr_row_size r) [0..<k]))
                  (\<lambda>vs1. bindE (mapE (read_datablock (r\<lparr>cr_measure_buffer := b2\<rparr>))
                                   (row_positions (length b2) (cr_row_size r) (cr_start_offset r) k))
                           (\<lambda>vs2. Inr (vs1 @ vs2))))"
proof -
  let ?R = "cr_row_size r" and ?s = "cr_start_offset r"
  define r1 where "r1 = r\<lparr>cr_measure_buffer := b1\<rparr>"
  define P2 where "P2 = row_positions (length b2) ?R ?s k"
  have P1: "row_positions (length b1) ?R ?s k = map (\<lambda>j. ?s + j * ?R) [0..<k]"
    using assms by (simp add: row_positions_eq min_absorb1)
  have one: "read_dt_loop r1 k ?s acc
               = bindE (mapE (read_datablock r1) (map (\<lambda>j. ?s + j * ?R) [0..<k])) (\<lambda>vs. Inr (r1, acc @ vs))"
    using P1 by (simp add: read_dt_loop_eq r1_def)
  have two: "\<And>acc'. map_sum id snd (read_dt_loop (r1\<lparr>cr_measure_buffer := b2\<rparr>) k ?s acc')
               = map_sum id (\<lambda>vs. acc' @ vs) (mapE (read_datablock (r\<lparr>cr_measure_buffer := b2\<rparr>)) P2)"
    using assms(1) by (simp add: read_dt_loop_values r1_def P2_def)
  have lb: "read_blocks r k [b1, b2] acc
             = bindE (read_dt_loop r1 k ?s acc)
                 (\<lambda>(r', acc'). read_dt_loop (r'\<lparr>cr_measure_buffer := b2\<rparr>) k (cr_start_offset r') acc')"
    unfolding r1_def by (subst read_blocks.simps(2)) (simp only: split_def read_blocks_single)
  have s1: "cr_start_offset r1 = ?s" "r1\<lparr>cr_measure_buffer := b1\<rparr> = r1" by (simp_all add: r1_def)
  show ?thesis
    unfolding P2_def [symmetric] r1_def [symmetric] lb one
    by (cases "mapE (read_datablock r1) (map (\<lambda>j. ?s + j * ?R) [0..<k])";
        cases "mapE (read_datablock (r\<lparr>cr_measure_buffer := b2\<rparr>)) P2")
       (simp_all add: two s1)
qed

theorem read_dt_exact_stride_witness:
  "let r = \<lparr>cr_byte_order = LittleEndian, cr_size_measure_row = 2, cr_data_type = TUInt16,
            cr_data_address = 0, cr_next_data_address = 0,
            cr_measure_buffer = [0x01, 0x00, 0xAA, 0xAA, 0x02, 0x00, 0xBB, 0xBB, 0x03, 0x00, 0xCC, 0xCC],
            cr_buffer_spare = 0, cr_row_size = 4, cr_bit_count = 16, cr_bit_offset = 0, cr_start_offset = 0\<rparr>
   in 0 < cr_row_size r \<and> 0 < cr_row_size r \<and> length (cr_measure_buffer r) = 3 * cr_row_size r
      \<and> read_dt_loop r 3 0 [] = bindE (mapE (read_datablock r) (map (\<lambda>j. 0 + j * cr_row_size r) [0..<3]))
                                      (\<lambda>vs. Inr (r, [] @ vs))"
  unfolding Let_def
  by (intro conjI read_dt_exact_stride) simp_all

theorem read_dt_carry_witness:
  "let r = \<lparr>cr_byte_order = LittleEndian, cr_size_measure_row = 1, cr_data_type = TUInt8,
            cr_data_address = 0, cr_next_data_address = 0, cr_measure_buffer = [1, 2, 3, 4, 5, 6],
            cr_buffer_spare = 0, cr_row_size = 4, cr_bit_count = 8, cr_bit_offset = 0, cr_start_offset = 1\<rparr>
   in 0 < cr_row_size r \<and> cr_start_offset r < cr_row_size r
      \<and> row_count (length (cr_measure_buffer r)) (cr_row_size r) (cr_start_offset r) < 3
      \<and> read_dt_loop r 3 (cr_start_offset r) [] = Inr (r\<lparr>cr_start_offset := 3\<rparr>, [VUInt8 2, VUInt8 6])
      \<and> int (cr_start_offset (r\<lparr>cr_start_offset := 3\<rparr>))
          = (int (cr_start_offset r) - int (length (cr_measure_buffer r))) mod int (cr_row_size r)
      \<and> cr_start_offset (r\<lparr>cr_start_offset := 3\<rparr>) < cr_row_size r"
proof -
  let ?r = "\<lparr>cr_byte_order = LittleEndian, cr_size_measure_row = 1, cr_data_type = TUInt8,
            cr_data_address = 0, cr_next_data_address = 0, cr_measure_buffer = [1, 2, 3, 4, 5, 6 :: byte],
            cr_buffer_spare = 0, cr_row_size = 4, cr_bit_count = 8, cr_bit_offset = 0, cr_start_offset = 1\<rparr>"
  have run: "read_dt_loop ?r 3 (cr_start_offset ?r) [] = Inr (?r\<lparr>cr_start_offset := 3\<rparr>, [VUInt8 2, VUInt8 6])"
    by (simp add: read_dt_loop_numeral read_datablock_def go_slice_def buffer_exhausted_def)
  have hyps: "0 < cr_row_size ?r" "cr_start_offset ?r < cr_row_size ?r"
    "row_count (length (cr_measure_buffer ?r)) (cr_row_size ?r) (cr_start_offset ?r) < 3"
    by (simp_all add: row_count_def)
  show ?thesis
    using read_dt_carry [OF hyps run] hyps run by (simp add: Let_def)
qed

theorem read_blocks_two_flat_witness:
  "let r = \<lparr>cr_byte_order = LittleEndian, cr_size_measure_row = 2, cr_data_type = TUInt16,
            cr_data_address = 0, cr_next_data_address = 0, cr_measure_buffer = [],
            cr_buffer_spare = 0, cr_row_size = 4, cr_bit_count = 16, cr_bit_offset = 0, cr_start_offset = 0\<rparr>;
       b1 = [0x01, 0x00, 0xAA, 0xAA, 0x02, 0x00]; b2 = [0xBB, 0xBB, 0x03, 0x00, 0xCC, 0xCC]
   in 0 < cr_row_size r \<and> cr_start_offset r < cr_row_size r
      \<and> row_count (length b1) (cr_row_size r) (cr_start_offset r) < 3
      \<and> length b1 + length b2 \<le> cr_start_offset r + 3 * cr_row_size r
      \<and> (\<forall>p \<in> set (row_positions (length b1) (cr_row_size r) (cr_start_offset r) 3).
            p + cr_size_measure_row r \<le> length b1)
      \<and> map_sum id snd (read_blocks r 3 [b1, b2] [])
          = map_sum id snd (read_dt_loop (r\<lparr>cr_measure_buffer := b1 @ b2\<rparr>) 3 (cr_start_offset r) [])"
proof -
  let ?r = "\<lparr>cr_byte_order = LittleEndian, cr_size_measure_row = 2, cr_data_type = TUInt16,
            cr_data_address = 0, cr_next_data_address = 0, cr_measure_buffer = [] :: byte list,
            cr_buffer_spare = 0, cr_row_size = 4, cr_bit_count = 16, cr_bit_offset = 0, cr_start_offset = 0\<rparr>"
  let ?b1 = "[0x01, 0x00, 0xAA, 0xAA, 0x02, 0x00] :: byte list"
  let ?b2 = "[0xBB, 0xBB, 0x03, 0x00, 0xCC, 0xCC] :: byte list"
  have pos: "row_positions (length ?b1) (cr_row_size ?r) (cr_start_offset ?r) 3 = [0, 4]"
    by (simp add: row_positions_def numeral_3_eq_3)
  have h: "0 < cr_row_size ?r" "cr_start_offset ?r < cr_row_size ?r"
    "row_count (length ?b1) (cr_row_size ?r) (cr_start_offset ?r) < 3"
    "length ?b1 + length ?b2 \<le> cr_start_offset ?r + 3 * cr_row_size ?r"
    "\<forall>p \<in> set (row_positions (length ?b1) (cr_row_size ?r) (cr_start_offset ?r) 3).
       p + cr_size_measure_row ?r \<le> length ?b1"
    by (simp_all only: pos) (simp_all add: row_count_def)
  have "map_sum id snd (read_blocks ?r 3 [?b1, ?b2] [])
        = map_sum id snd (read_dt_loop (?r\<lparr>cr_measure_buffer := ?b1 @ ?b2\<rparr>) 3 (cr_start_offset ?r) [])"
    using h by (rule read_blocks_two_flat)
  with h show ?thesis by (simp only: Let_def)
qed

theorem read_dt_straddle_panic_witness:
  "let r = \<lparr>cr_byte_order = LittleEndian, cr_size_measure_row = 2, cr_data_type = TUInt16,
            cr_data_address = 0, cr_next_data_address = 0, cr_measure_buffer = [0x01, 0x00, 0xAA, 0xAA, 0x02],
            cr_buffer_spare = 0, cr_row_size = 4, cr_bit_count = 16, cr_bit_offset = 0, cr_start_offset = 0\<rparr>
   in cr_buffer_spare r = 0 \<and> 4 \<in> set (row_positions (length (cr_measure_buffer r)) (cr_row_size r) 0 2)
      \<and> length (cr_measure_buffer r) < 4 + cr_size_measure_row r
      \<and> read_dt_loop r 2 0 [] = Inl PanicSlice"
proof -
  let ?r = "\<lparr>cr_byte_order = LittleEndian, cr_size_measure_row = 2, cr_data_type = TUInt16,
            cr_data_address = 0, cr_next_data_address = 0, cr_measure_buffer = [0x01, 0x00, 0xAA, 0xAA, 0x02 :: byte],
            cr_buffer_spare = 0, cr_row_size = 4, cr_bit_count = 16, cr_bit_offset = 0, cr_start_offset = 0\<rparr>"
  have h: "cr_buffer_spare ?r = 0" "4 \<in> set (row_positions (length (cr_measure_buffer ?r)) (cr_row_size ?r) 0 2)"
    "length (cr_measure_buffer ?r) < 4 + cr_size_measure_row ?r"
    by (simp_all add: row_positions_def upt_conv_Cons)
  have "read_dt_loop ?r 2 0 [] = Inl PanicSlice"
    by (subst read_dt_straddle_panic [OF h, of "[]"])
       (simp add: row_positions_def upt_conv_Cons read_datablock_numeric field_nat_def be_nat_def)
  then show ?thesis using h by (simp add: Let_def)
qed

theorem read_blocks_count_per_block_witness:
  "let r = \<lparr>cr_byte_order = LittleEndian, cr_size_measure_row = 1, cr_data_type = TUInt8,
            cr_data_address = 0, cr_next_data_address = 0, cr_measure_buffer = [],
            cr_buffer_spare = 0, cr_row_size = 4, cr_bit_count = 8, cr_bit_offset = 0, cr_start_offset = 0\<rparr>
   in 0 < cr_row_size r \<and> 2 \<le> row_count (length [0x01, 0xAA, 0xAA, 0xAA, 0x02 :: byte]) (cr_row_size r) (cr_start_offset r)
      \<and> map_sum id snd (read_blocks r 2 [[0x01, 0xAA, 0xAA, 0xAA, 0x02], [0xBB, 0xBB, 0xBB]] [])
          = Inr [VUInt8 1, VUInt8 2, VUInt8 0xBB]"
proof -
  let ?r = "\<lparr>cr_byte_order = LittleEndian, cr_size_measure_row = 1, cr_data_type = TUInt8,
            cr_data_address = 0, cr_next_data_address = 0, cr_measure_buffer = [] :: byte list,
            cr_buffer_spare = 0, cr_row_size = 4, cr_bit_count = 8, cr_bit_offset = 0, cr_start_offset = 0\<rparr>"
  have h: "0 < cr_row_size ?r" "2 \<le> row_count (length [0x01, 0xAA, 0xAA, 0xAA, 0x02 :: byte]) (cr_row_size ?r) (cr_start_offset ?r)"
    by (simp_all add: row_count_def)
  have "map_sum id snd (read_blocks ?r 2 [[0x01, 0xAA, 0xAA, 0xAA, 0x02], [0xBB, 0xBB, 0xBB]] [])
          = Inr [VUInt8 1, VUInt8 2, VUInt8 0xBB]"
    by (subst read_blocks_count_per_block [OF h, of "[0xBB, 0xBB, 0xBB]" "[]"])
       (simp add: row_positions_def upt_conv_Cons read_datablock_def go_slice_def)
  then show ?thesis using h by (simp add: Let_def)
qed

end
