(* ===== verification/Blocks.thy ===== *)
theory Blocks
  imports RecordReader
begin

text \<open>
  The file as the engine sees it. The block parsers the engine calls
  (\<open>blocks.GetHeaderID\<close>, \<open>blocks.GetLength\<close>, \<open>DL.New\<close>, \<open>HL.New\<close>, \<open>DZ.New\<close>) belong
  to packages outside \<open>src/\<close>; they are modelled from the spec and the MDF4 format: a file
  is a map from addresses to parsed blocks, each block has its 4-byte tag, and a data list
  carries its \<open>next\<close> link, its declared count and its child links. A parser applied to a
  block of another kind, or to an address that holds no block, fails with \<open>ErrIO\<close>.
  The data section of a list or header block is not modelled (it is never read as samples
  by the paths the engine takes for well-formed files). \<open>readBlockFromFile\<close>,
  \<open>loadBuffer\<close>, \<open>readBlockToMemory\<close> (\<open>src/channel.go\<close>) and \<open>Flate.Decompress\<close>
  (\<open>src/blocks/DZ/flate.go\<close>) are modelled from the source; zlib itself is a parameter
  of the environment.
\<close>

section \<open>Blocks and the file\<close>

definition dt_id :: string where "dt_id = ''##DT''"
definition dv_id :: string where "dv_id = ''##DV''"
definition dl_id :: string where "dl_id = ''##DL''"
definition dz_id :: string where "dz_id = ''##DZ''"
definition hl_id :: string where "hl_id = ''##HL''"
definition sd_id :: string where "sd_id = ''##SD''"
definition cg_id :: string where "cg_id = ''##CG''"

text \<open>
  \<open>DataBlock tag data\<close>: a block read as raw bytes (DT, DV, SD, ...);
  \<open>DLBlock next count links\<close>; \<open>DZBlock original_tag zip_type original_length compressed\<close>;
  \<open>HLBlock dl_first\<close>.
\<close>

datatype block =
    DataBlock string "byte list"
  | DLBlock addr nat "addr list"
  | DZBlock string nat nat "byte list"
  | HLBlock addr

text \<open>
  The environment: the parsed file, zlib (\<open>env_inflate\<close>: the stream a compressed
  payload inflates to, or the error \<open>zlib.NewReader\<close> or a read reports), and the spare
  capacity \<open>io.ReadAll\<close> leaves on an \<open>n\<close>-byte result (\<open>env_read_all_spare n\<close>):
  \<open>io.ReadAll\<close> starts from a 512-byte buffer and grows it by \<open>append\<close>, whose growth
  is the runtime's choice, so the capacity is a parameter and every theorem holds for all.
\<close>

record env =
  env_file :: "addr \<Rightarrow> block option"
  env_inflate :: "byte list \<Rightarrow> error + byte list"
  env_read_all_spare :: "nat \<Rightarrow> nat"

record dl_node =
  dl_next :: addr
  dl_count :: nat
  dl_links :: "addr list"

record dz_header =
  dz_org_id :: string
  dz_zip_type :: nat
  dz_org_length :: nat
  dz_data :: "byte list"

fun block_id :: "block \<Rightarrow> string" where
  "block_id (DataBlock t _) = t"
| "block_id (DLBlock _ _ _) = dl_id"
| "block_id (DZBlock _ _ _ _) = dz_id"
| "block_id (HLBlock _) = hl_id"

fun block_data :: "block \<Rightarrow> byte list" where
  "block_data (DataBlock _ d) = d"
| "block_data (DZBlock _ _ _ z) = z"
| "block_data _ = []"

section \<open>Parsers of the blocks package\<close>

definition get_header_id :: "env \<Rightarrow> addr \<Rightarrow> error + string" where
  "get_header_id e a = (case env_file e a of None \<Rightarrow> Inl ErrIO | Some b \<Rightarrow> Inr (block_id b))"

definition get_length :: "env \<Rightarrow> addr \<Rightarrow> error + nat" where
  "get_length e a = (case env_file e a of None \<Rightarrow> Inl ErrIO | Some b \<Rightarrow> Inr (length (block_data b)))"

definition dl_new :: "env \<Rightarrow> addr \<Rightarrow> error + dl_node" where
  "dl_new e a = (case env_file e a of
                   Some (DLBlock nxt cnt links) \<Rightarrow> Inr \<lparr>dl_next = nxt, dl_count = cnt, dl_links = links\<rparr>
                 | _ \<Rightarrow> Inl ErrIO)"

definition hl_new :: "env \<Rightarrow> addr \<Rightarrow> error + addr" where
  "hl_new e a = (case env_file e a of Some (HLBlock dl) \<Rightarrow> Inr dl | _ \<Rightarrow> Inl ErrIO)"

definition dz_new :: "env \<Rightarrow> addr \<Rightarrow> error + dz_header" where
  "dz_new e a = (case env_file e a of
                   Some (DZBlock org zt ol z) \<Rightarrow> Inr \<lparr>dz_org_id = org, dz_zip_type = zt, dz_org_length = ol, dz_data = z\<rparr>
                 | _ \<Rightarrow> Inl ErrIO)"

section \<open>Reading a block into memory\<close>

text \<open>
  \<open>readBlockFromFile(f, addr, buf)\<close>: seek past the header and \<open>io.ReadFull\<close> the
  \<open>len(buf)\<close> bytes of the data section; asking for more than it holds fails.
\<close>

definition read_block_from_file :: "env \<Rightarrow> addr \<Rightarrow> nat \<Rightarrow> error + byte list" where
  "read_block_from_file e a n =
     (case env_file e a of None \<Rightarrow> Inl ErrIO
      | Some b \<Rightarrow> if n \<le> length (block_data b) then Inr (take n (block_data b)) else Inl ErrIO)"

text \<open>
  \<open>loadBuffer\<close>: a fresh zeroed buffer (\<open>make\<close>: capacity equal to its length) when the
  block length differs from the current one; otherwise the buffer is kept, capacity and all.
\<close>

definition load_buffer :: "env \<Rightarrow> channel_reader \<Rightarrow> error + channel_reader" where
  "load_buffer e r =
     bindE (get_length e (cr_data_address r))
       (\<lambda>len. Inr (if len \<noteq> length (cr_measure_buffer r)
                   then r\<lparr>cr_measure_buffer := replicate len 0, cr_buffer_spare := 0\<rparr> else r))"

text \<open>
  \<open>readBlockToMemory\<close>: \<open>loadBuffer\<close>, then fill the buffer from the file
  (\<open>io.ReadFull\<close> overwrites its \<open>len\<close> bytes in place and leaves its capacity). An error
  carries the reader as far as it was changed.
\<close>

definition read_block_to_memory :: "env \<Rightarrow> channel_reader \<Rightarrow> (error \<times> channel_reader) + channel_reader" where
  "read_block_to_memory e r =
     (case load_buffer e r of
        Inl err \<Rightarrow> Inl (err, r)
      | Inr r1 \<Rightarrow> (case read_block_from_file e (cr_data_address r1) (length (cr_measure_buffer r1)) of
                    Inl err \<Rightarrow> Inl (err, r1)
                  | Inr d \<Rightarrow> Inr (r1\<lparr>cr_measure_buffer := d\<rparr>)))"

text \<open>
  The reader a successful \<open>readBlockToMemory\<close> leaves with the data \<open>d\<close>: the capacity is
  the old one when the length did not change, and the length otherwise.
\<close>

definition loaded :: "byte list \<Rightarrow> channel_reader \<Rightarrow> channel_reader" where
  "loaded d r = r\<lparr>cr_measure_buffer := d,
                  cr_buffer_spare := (if length d = length (cr_measure_buffer r) then cr_buffer_spare r else 0)\<rparr>"

section \<open>Decompression\<close>

text \<open>\<open>Flate\<close> (\<open>src/blocks/DZ/flate.go\<close>): the decompression request a DZ block builds.\<close>

record flate =
  fl_decompressed_id :: string
  fl_compress_type :: "8 word"
  fl_decompressed_length :: "64 word"
  fl_compressed_length :: "64 word"
  fl_datablock :: "byte list"

text \<open>
  \<open>Deflate(data)\<close>: \<open>zlib.NewReader\<close> then \<open>io.ReadAll\<close>; zlib is the environment's
  \<open>env_inflate\<close>, which fails on a bad header or a corrupt stream. The result is a slice:
  the inflated bytes and the spare capacity \<open>io.ReadAll\<close> left on them.
\<close>

definition deflate :: "env \<Rightarrow> byte list \<Rightarrow> error + (byte list \<times> nat)" where
  "deflate e data = bindE (env_inflate e data) (\<lambda>d. Inr (d, env_read_all_spare e (length d)))"

text \<open>
  \<open>Flate.Decompress()\<close>: inflate the data block. Neither \<open>CompressType\<close> (deflate or
  transposition + deflate) nor the declared lengths are consulted.
\<close>

definition decompress :: "env \<Rightarrow> flate \<Rightarrow> error + (byte list \<times> nat)" where
  "decompress e f = deflate e (fl_datablock f)"

text \<open>\<open>dz.Read()\<close> (package \<open>DZ\<close>, outside \<open>src/\<close>): the \<open>Flate\<close> of the block's header.\<close>

definition dz_flate :: "dz_header \<Rightarrow> flate" where
  "dz_flate dz =
     \<lparr>fl_decompressed_id = dz_org_id dz, fl_compress_type = word_of_nat (dz_zip_type dz),
      fl_decompressed_length = word_of_nat (dz_org_length dz),
      fl_compressed_length = word_of_nat (length (dz_data dz)), fl_datablock = dz_data dz\<rparr>"

definition dz_read :: "env \<Rightarrow> dz_header \<Rightarrow> error + (byte list \<times> nat)" where
  "dz_read e dz = decompress e (dz_flate dz)"

declare dt_id_def [mdf_eval] dv_id_def [mdf_eval] dl_id_def [mdf_eval] dz_id_def [mdf_eval]
  hl_id_def [mdf_eval] sd_id_def [mdf_eval] cg_id_def [mdf_eval] get_header_id_def [mdf_eval]
  get_length_def [mdf_eval] dl_new_def [mdf_eval] hl_new_def [mdf_eval] dz_new_def [mdf_eval]
  read_block_from_file_def [mdf_eval] load_buffer_def [mdf_eval] read_block_to_memory_def [mdf_eval]
  dz_read_def [mdf_eval] dz_flate_def [mdf_eval] decompress_def [mdf_eval] deflate_def [mdf_eval]

section \<open>Lemmas\<close>

lemma block_ids_distinct:
  "dt_id \<noteq> dv_id" "dt_id \<noteq> dl_id" "dt_id \<noteq> dz_id" "dt_id \<noteq> hl_id" "dt_id \<noteq> sd_id" "dt_id \<noteq> cg_id"
  "dv_id \<noteq> dl_id" "dv_id \<noteq> dz_id" "dv_id \<noteq> hl_id" "dv_id \<noteq> sd_id" "dv_id \<noteq> cg_id"
  "dl_id \<noteq> dz_id" "dl_id \<noteq> hl_id" "dl_id \<noteq> sd_id" "dl_id \<noteq> cg_id"
  "dz_id \<noteq> hl_id" "dz_id \<noteq> sd_id" "dz_id \<noteq> cg_id" "hl_id \<noteq> sd_id" "hl_id \<noteq> cg_id" "sd_id \<noteq> cg_id"
  by (simp_all add: dt_id_def dv_id_def dl_id_def dz_id_def hl_id_def sd_id_def cg_id_def)

text \<open>Reading a raw block into memory leaves exactly its data section in the buffer.\<close>

lemma read_block_to_memory_data:
  "env_file e (cr_data_address r) = Some b \<Longrightarrow>
   read_block_to_memory e r = Inr (loaded (block_data b) r)"
  by (simp add: read_block_to_memory_def load_buffer_def get_length_def read_block_from_file_def loaded_def)

lemma loaded_no_spare [simp]:
  "cr_buffer_spare r = 0 \<Longrightarrow> loaded d r = r\<lparr>cr_measure_buffer := d\<rparr>"
  by (simp add: loaded_def)

lemma loaded_fields [simp]:
  "cr_measure_buffer (loaded d r) = d" "cr_row_size (loaded d r) = cr_row_size r"
  "cr_start_offset (loaded d r) = cr_start_offset r" "cr_data_address (loaded d r) = cr_data_address r"
  by (simp_all add: loaded_def)

text \<open>A DZ block's payload is plain-inflated, whatever its zip type and declared length.\<close>

lemma dz_read_inflate:
  "dz_read e dz = bindE (env_inflate e (dz_data dz)) (\<lambda>d. Inr (d, env_read_all_spare e (length d)))"
  by (simp add: dz_read_def decompress_def deflate_def dz_flate_def)

lemma dz_read_ignores_zip_type:
  "dz_read e (dz\<lparr>dz_zip_type := z, dz_org_length := n\<rparr>) = dz_read e dz"
  by (simp add: dz_read_inflate)

end
