(* ===== verification/Dispatcher.thy ===== *)
theory Dispatcher
  imports Blocks "HOL-Library.Sublist"
begin

text \<open>
  The dispatcher of \<open>src/channel.go\<close>: the channel (\<open>Channel\<close>, read-only part), the
  mutable state a read changes (the reader objects the channel points to, the
  \<open>compressedHL\<close> flag, the data group's shared \<open>CachedDataGroup\<close>), \<open>readDT\<close>,
  \<open>readSdBlock\<close> and the mutually recursive handlers \<open>extractSample\<close>,
  \<open>readFixedLenghtSample\<close>, \<open>readVLSDSample\<close>, \<open>readDataList\<close> (with its chain loop),
  \<open>readDataZipped\<close> and \<open>readHeaderList\<close>. A cyclic list chain or a zipped block that
  claims to hold a zipped block makes the Go code recurse for ever, so the handlers take
  fuel: \<open>None\<close> is "did not return within the fuel".
\<close>

section \<open>Channel and state\<close>

text \<open>
  What the handlers read from the channel's blocks: the CN block (\<open>ByteOrder()\<close>,
  \<open>SignalBytesRange()\<close>, \<open>LoadDataType\<close>, \<open>Data.ByteOffset\<close>, \<open>Data.BitOffset\<close>,
  \<open>Data.BitCount\<close>, \<open>IsVLSD()\<close>, \<open>Link.Data\<close>, \<open>InvalBitPos()\<close>), the DG block
  (\<open>RecordIDSize()\<close>, \<open>DataAddress()\<close>), the CG block (\<open>DataBytes\<close>, \<open>CycleCount\<close>),
  the file option \<open>IsMemoryOptimized()\<close> and the conversion (\<open>Conversion\<close>, \<open>nil\<close> is
  \<open>None\<close>; \<open>Apply\<close> rewrites the sample slice in place).
\<close>

record channel =
  ch_byte_order :: byte_order
  ch_signal_bytes :: nat
  ch_data_type :: dtype
  ch_byte_offset :: nat
  ch_bit_offset :: nat
  ch_bit_count :: nat
  ch_vlsd :: bool
  ch_link_data :: addr
  ch_inval_bit_pos :: nat
  ch_record_id_size :: nat
  ch_dg_data_address :: addr
  ch_data_bytes :: nat
  ch_cycle_count :: nat
  ch_memory_optimized :: bool
  ch_conversion :: "(measure_value list \<Rightarrow> measure_value list) option"

text \<open>
  The mutable state. \<open>*ChannelReader\<close> objects are shared through pointers, so they live
  in a heap (\<open>st_readers\<close>) and the channel holds an index (\<open>st_reader\<close>, the field
  \<open>channelReader\<close>). \<open>st_cache\<close> is the data group's \<open>CachedDataGroup\<close> (\<open>nil\<close> is
  \<open>None\<close>; a slice is its bytes and its spare capacity), shared by every channel of the group; \<open>st_start_address\<close>,
  \<open>st_cached_samples\<close> and \<open>st_is_converted\<close> are the channel's \<open>startAddress\<close>,
  \<open>CachedSamples\<close> and \<open>isConverted\<close>.
\<close>

record ch_state =
  st_readers :: "channel_reader list"
  st_reader :: nat
  st_compressed_hl :: bool
  st_cache :: "(byte list \<times> nat) option"
  st_start_address :: addr
  st_cached_samples :: "measure_value list option"
  st_is_converted :: bool

text \<open>A handler returns the state reached, with the error or with the samples so far.\<close>

type_synonym outcome = "((error \<times> ch_state) + (ch_state \<times> measure_value list)) option"

definition cur_reader :: "ch_state \<Rightarrow> channel_reader" where
  "cur_reader s = st_readers s ! st_reader s"

definition set_reader :: "channel_reader \<Rightarrow> ch_state \<Rightarrow> ch_state" where
  "set_reader r s = s\<lparr>st_readers := (st_readers s)[st_reader s := r]\<rparr>"

text \<open>\<open>c.channelReader = &ChannelReader{...}\<close>: allocate a reader and point at it.\<close>

definition new_reader :: "channel_reader \<Rightarrow> ch_state \<Rightarrow> ch_state" where
  "new_reader r s = s\<lparr>st_readers := st_readers s @ [r], st_reader := length (st_readers s)\<rparr>"

text \<open>
  \<open>loadChannelReader(addr)\<close> (and \<open>newChannelReader\<close>, which only calls it): the
  reader starts on the group's cached slice (its bytes and its capacity), with
  \<open>NextDataAddress\<close> Go's zero value.
\<close>

definition load_channel_reader :: "channel \<Rightarrow> (byte list \<times> nat) option \<Rightarrow> addr \<Rightarrow> channel_reader" where
  "load_channel_reader ch cache a =
     \<lparr>cr_byte_order = ch_byte_order ch, cr_size_measure_row = ch_signal_bytes ch,
      cr_data_type = ch_data_type ch, cr_data_address = a, cr_next_data_address = 0,
      cr_measure_buffer = (case cache of None \<Rightarrow> [] | Some b \<Rightarrow> fst b),
      cr_buffer_spare = (case cache of None \<Rightarrow> 0 | Some b \<Rightarrow> snd b),
      cr_row_size = ch_data_bytes ch, cr_bit_count = ch_bit_count ch,
      cr_bit_offset = ch_bit_offset ch,
      cr_start_offset = ch_byte_offset ch + ch_record_id_size ch\<rparr>"

text \<open>An error of a step that does not touch the state is reported with the state.\<close>

definition at_state :: "ch_state \<Rightarrow> error + 'a \<Rightarrow> (error \<times> ch_state) + 'a" where
  "at_state s m = map_sum (\<lambda>err. (err, s)) id m"

section \<open>Reading one data block\<close>

text \<open>
  \<open>if c.DataGroup.CachedDataGroup == nil { readBlockToMemory }\<close>, the prologue of
  \<open>readDT\<close> and of \<open>readSdBlock\<close>.
\<close>

definition load_if_uncached :: "env \<Rightarrow> ch_state \<Rightarrow> (error \<times> ch_state) + ch_state" where
  "load_if_uncached e s =
     (if st_cache s = None
      then map_sum (\<lambda>(err, r). (err, set_reader r s)) (\<lambda>r. set_reader r s)
             (read_block_to_memory e (cur_reader s))
      else Inr s)"

text \<open>\<open>readDT\<close>: the record loop of \<open>RecordReader\<close> on the current reader.\<close>

definition read_dt :: "channel \<Rightarrow> env \<Rightarrow> ch_state \<Rightarrow> measure_value list
                       \<Rightarrow> (error \<times> ch_state) + (ch_state \<times> measure_value list)" where
  "read_dt ch e s acc =
     bindE (load_if_uncached e s)
       (\<lambda>s1. bindE (at_state s1 (read_dt_loop (cur_reader s1) (ch_cycle_count ch)
                                   (cr_start_offset (cur_reader s1)) acc))
               (\<lambda>(r', acc'). Inr (set_reader r' s1, acc')))"

text \<open>\<open>binary.LittleEndian.Uint32\<close> on a four-byte slice.\<close>

definition le_uint32 :: "byte list \<Rightarrow> nat" where
  "le_uint32 bs = be_nat (rev bs)"

text \<open>\<open>readSdBlock\<close>: a 4-byte little-endian length, then that many bytes, decoded once.\<close>

definition read_sd_block :: "env \<Rightarrow> ch_state \<Rightarrow> measure_value list
                             \<Rightarrow> (error \<times> ch_state) + (ch_state \<times> measure_value list)" where
  "read_sd_block e s acc =
     bindE (load_if_uncached e s)
       (\<lambda>s1. let r = cur_reader s1 in
          bindE (at_state s1 (go_slice (cr_measure_buffer r) (cr_buffer_spare r) 0 4))
            (\<lambda>lb. bindE (at_state s1 (go_slice (cr_measure_buffer r) (cr_buffer_spare r) 4 (4 + le_uint32 lb)))
               (\<lambda>d. bindE (at_state s1 (parse_signal_measure d (cr_byte_order r) (cr_data_type r)
                                          (cr_bit_offset r) (cr_bit_count r)))
                  (\<lambda>v. Inr (s1, acc @ [v])))))"

text \<open>
  \<open>readFixedLenghtSample\<close> has a value receiver: it runs on a copy of the channel, so what
  its callees assign to the copy's \<open>channelReader\<close> and \<open>compressedHL\<close> is gone when it
  returns, while changes to the reader objects and to the group cache, reached through
  pointers, stay.
\<close>

definition restore :: "ch_state \<Rightarrow> ch_state \<Rightarrow> ch_state" where
  "restore s s' = s'\<lparr>st_reader := st_reader s, st_compressed_hl := st_compressed_hl s\<rparr>"

definition restore_outcome :: "ch_state \<Rightarrow> outcome \<Rightarrow> outcome" where
  "restore_outcome s = map_option (map_sum (\<lambda>(err, s'). (err, restore s s')) (\<lambda>(s', vs). (restore s s', vs)))"

section \<open>The dispatcher\<close>

text \<open>
  The handlers call one another through \<open>extractSample\<close> and the list loop; each is a
  definition over \<open>rec\<close>, the dispatcher it calls back, and a call is a value of
  \<open>call\<close>. \<open>run\<close> ties them together with fuel.
\<close>

datatype call =
    CExtract string
  | CFixed string
  | CVLSD string
  | CDataList
  | CDLLoop string dl_node nat
  | CZipped
  | CHeaderList

type_synonym dispatch = "call \<Rightarrow> ch_state \<Rightarrow> measure_value list \<Rightarrow> outcome"

text \<open>\<open>extractSample(id)\<close>: VLSD channels and fixed-length channels take different switches.\<close>

definition extract_sample :: "dispatch \<Rightarrow> channel \<Rightarrow> string \<Rightarrow> ch_state \<Rightarrow> measure_value list \<Rightarrow> outcome" where
  "extract_sample rec ch bid s acc =
     (if ch_vlsd ch then rec (CVLSD bid) s acc
      else restore_outcome s (rec (CFixed bid) s acc))"

text \<open>\<open>readFixedLenghtSample(blockID)\<close>.\<close>

definition read_fixed :: "dispatch \<Rightarrow> channel \<Rightarrow> env \<Rightarrow> string \<Rightarrow> ch_state \<Rightarrow> measure_value list \<Rightarrow> outcome" where
  "read_fixed rec ch e bid s acc =
     (if bid = dt_id \<or> bid = dv_id then Some (read_dt ch e s acc)
      else if bid = dl_id then rec CDataList s acc
      else if bid = dz_id then rec CZipped s acc
      else if bid = hl_id then rec CHeaderList s acc
      else Some (Inl (ErrNotReady, s)))"

text \<open>\<open>readVLSDSample(id)\<close>; a bare DT block and a CG block return without samples.\<close>

definition read_vlsd :: "dispatch \<Rightarrow> env \<Rightarrow> string \<Rightarrow> ch_state \<Rightarrow> measure_value list \<Rightarrow> outcome" where
  "read_vlsd rec e bid s acc =
     (if bid = dt_id then Some (Inr (s, acc))
      else if bid = sd_id then Some (read_sd_block e s acc)
      else if bid = dl_id then rec CDataList s acc
      else if bid = dz_id then rec CZipped s acc
      else if bid = hl_id then rec CHeaderList s acc
      else if bid = cg_id then Some (Inr (s, acc))
      else Some (Inl (ErrNotReady, s)))"

text \<open>
  \<open>readDataList\<close>, before its loop: open the list at the reader's address, take the tag
  of its first child (\<open>Link.Data[0]\<close> panics on an empty list) and point the channel
  at a fresh reader.
\<close>

definition read_data_list :: "dispatch \<Rightarrow> channel \<Rightarrow> env \<Rightarrow> ch_state \<Rightarrow> measure_value list \<Rightarrow> outcome" where
  "read_data_list rec ch e s acc =
     (case dl_new e (cr_data_address (cur_reader s)) of
        Inl err \<Rightarrow> Some (Inl (err, s))
      | Inr dtl \<Rightarrow>
          (case dl_links dtl of
             [] \<Rightarrow> Some (Inl (PanicIndex, s))
           | a0 # _ \<Rightarrow>
               (case get_header_id e a0 of
                  Inl err \<Rightarrow> Some (Inl (err, s))
                | Inr bid \<Rightarrow> rec (CDLLoop bid dtl 0) (new_reader (load_channel_reader ch (st_cache s) a0) s) acc)))"

text \<open>
  One iteration of the \<open>for i < target\<close> loop of \<open>readDataList\<close>: point the reader at
  child \<open>i\<close>, record the next child when \<open>i+1 < Count\<close> (\<open>Link.Data[i+1]\<close> panics past
  the links), re-read the child's tag under a header list, extract, and move to the next
  child or, after the last one, to the next list of the chain.
\<close>

definition dl_loop :: "dispatch \<Rightarrow> channel \<Rightarrow> env \<Rightarrow> string \<Rightarrow> dl_node \<Rightarrow> nat \<Rightarrow> ch_state \<Rightarrow> measure_value list \<Rightarrow> outcome" where
  "dl_loop rec ch e bid dtl i s acc =
     (if i < length (dl_links dtl) then
        (let s1 = set_reader ((cur_reader s)\<lparr>cr_data_address := dl_links dtl ! i\<rparr>) s in
         if i + 1 < dl_count dtl \<and> \<not> i + 1 < length (dl_links dtl) then Some (Inl (PanicIndex, s1))
         else
           (let s2 = (if i + 1 < dl_count dtl
                      then set_reader ((cur_reader s1)\<lparr>cr_next_data_address := dl_links dtl ! (i + 1)\<rparr>) s1
                      else s1) in
            case (if st_compressed_hl s2 then get_header_id e (dl_links dtl ! i) else Inr bid) of
              Inl err \<Rightarrow> Some (Inl (err, s2))
            | Inr bid' \<Rightarrow>
                bindR (rec (CExtract bid') s2 acc)
                  (\<lambda>(s3, acc3).
                     if Suc i = length (dl_links dtl) \<and> dl_next dtl \<noteq> 0 then
                       (case dl_new e (dl_next dtl) of
                          Inl err \<Rightarrow> Some (Inl (err, s3))
                        | Inr dtl' \<Rightarrow> rec (CDLLoop bid' dtl' 0) s3 acc3)
                     else rec (CDLLoop bid' dtl (Suc i)) s3 acc3)))
      else Some (Inr (s, acc)))"

text \<open>
  \<open>readDataZipped\<close>: inflate the block into the group cache (an error leaves the cache
  \<open>nil\<close>), make it the current reader's buffer (the same slice: bytes and capacity) and
  read it under the tag the block replaced.
\<close>

definition read_data_zipped :: "dispatch \<Rightarrow> env \<Rightarrow> ch_state \<Rightarrow> measure_value list \<Rightarrow> outcome" where
  "read_data_zipped rec e s acc =
     (case dz_new e (cr_data_address (cur_reader s)) of
        Inl err \<Rightarrow> Some (Inl (err, s))
      | Inr dz \<Rightarrow>
          (case dz_read e dz of
             Inl err \<Rightarrow> Some (Inl (err, s\<lparr>st_cache := None\<rparr>))
           | Inr (d, k) \<Rightarrow>
               (let s1 = s\<lparr>st_cache := Some (d, k)\<rparr> in
                rec (CExtract (dz_org_id dz))
                  (set_reader ((cur_reader s1)\<lparr>cr_measure_buffer := d, cr_buffer_spare := k\<rparr>) s1) acc)))"

text \<open>\<open>readHeaderList\<close>: a fresh reader on the first data list, and \<open>compressedHL\<close> set.\<close>

definition read_header_list :: "dispatch \<Rightarrow> channel \<Rightarrow> env \<Rightarrow> ch_state \<Rightarrow> measure_value list \<Rightarrow> outcome" where
  "read_header_list rec ch e s acc =
     (case hl_new e (cr_data_address (cur_reader s)) of
        Inl err \<Rightarrow> Some (Inl (err, s))
      | Inr dl \<Rightarrow>
          rec (CExtract dl_id) ((new_reader (load_channel_reader ch (st_cache s) dl) s)\<lparr>st_compressed_hl := True\<rparr>) acc)"

text \<open>The dispatcher: every handler call costs one unit of fuel.\<close>

fun run :: "nat \<Rightarrow> channel \<Rightarrow> env \<Rightarrow> dispatch" where
  "run 0 ch e c s acc = None"
| "run (Suc n) ch e c s acc =
     (case c of
        CExtract bid \<Rightarrow> extract_sample (run n ch e) ch bid s acc
      | CFixed bid \<Rightarrow> read_fixed (run n ch e) ch e bid s acc
      | CVLSD bid \<Rightarrow> read_vlsd (run n ch e) e bid s acc
      | CDataList \<Rightarrow> read_data_list (run n ch e) ch e s acc
      | CDLLoop bid dtl i \<Rightarrow> dl_loop (run n ch e) ch e bid dtl i s acc
      | CZipped \<Rightarrow> read_data_zipped (run n ch e) e s acc
      | CHeaderList \<Rightarrow> read_header_list (run n ch e) ch e s acc)"


section \<open>Reference predicates for the proofs\<close>

fun dl_chain :: "env \<Rightarrow> addr \<Rightarrow> addr list list \<Rightarrow> bool" where
  "dl_chain e nxt [] = (nxt = 0)"
| "dl_chain e nxt (ls # lss) =
     (nxt \<noteq> 0 \<and> ls \<noteq> [] \<and>
      (case env_file e nxt of
         Some (DLBlock nxt' c ls') \<Rightarrow> ls' = ls \<and> c \<le> length ls \<and> dl_chain e nxt' lss
       | _ \<Rightarrow> False))"

text \<open>
  The list nodes reached from \<open>nxt\<close> along the \<open>Next\<close> links, up to the address
  \<open>stop\<close>; the loop of \<open>readDataList\<close> stops at \<open>Next = 0\<close> and, since it moves on only
  after reading a child, at a list node without links.
\<close>

fun dl_path :: "env \<Rightarrow> addr \<Rightarrow> addr list list \<Rightarrow> addr \<Rightarrow> bool" where
  "dl_path e nxt [] stop = (nxt = stop)"
| "dl_path e nxt (ls # lss) stop =
     (nxt \<noteq> 0 \<and> ls \<noteq> [] \<and>
      (case env_file e nxt of
         Some (DLBlock nxt' c ls') \<Rightarrow> ls' = ls \<and> c \<le> length ls \<and> dl_path e nxt' lss stop
       | _ \<Rightarrow> False))"

definition chain_stop :: "env \<Rightarrow> addr \<Rightarrow> bool" where
  "chain_stop e a = (a = 0 \<or> (case env_file e a of Some (DLBlock _ _ []) \<Rightarrow> True | _ \<Rightarrow> False))"

definition extends :: "dispatch \<Rightarrow> dispatch \<Rightarrow> bool" where
  "extends f g = (\<forall>c s acc. f c s acc \<noteq> None \<longrightarrow> g c s acc = f c s acc)"

definition reader_ok :: "ch_state \<Rightarrow> bool" where
  "reader_ok s = (st_reader s < length (st_readers s))"

text \<open>
  The dispatcher leaves the channel's start address, sample cache and conversion flag alone,
  and only ever allocates readers.
\<close>

definition frame :: "ch_state \<Rightarrow> ch_state \<Rightarrow> bool" where
  "frame s s' = (length (st_readers s) \<le> length (st_readers s') \<and> st_start_address s' = st_start_address s
                 \<and> st_cached_samples s' = st_cached_samples s \<and> st_is_converted s' = st_is_converted s)"

definition outcome_ok :: "ch_state \<Rightarrow> measure_value list \<Rightarrow> outcome \<Rightarrow> bool" where
  "outcome_ok s acc res =
     (case res of
        None \<Rightarrow> True
      | Some (Inl (_, s')) \<Rightarrow> reader_ok s' \<and> frame s s'
      | Some (Inr (s', vs)) \<Rightarrow> reader_ok s' \<and> frame s s' \<and> prefix acc vs)"

definition rec_ok :: "dispatch \<Rightarrow> bool" where
  "rec_ok f = (\<forall>c s acc. reader_ok s \<longrightarrow> outcome_ok s acc (f c s acc))"

definition addr_upd :: "addr \<Rightarrow> addr \<Rightarrow> channel_reader \<Rightarrow> channel_reader" where
  "addr_upd x y r = r\<lparr>cr_data_address := x, cr_next_data_address := y\<rparr>"

definition data_at :: "env \<Rightarrow> addr \<Rightarrow> byte list" where
  "data_at e a = (case env_file e a of Some b \<Rightarrow> block_data b | None \<Rightarrow> [])"

definition is_dt_at :: "env \<Rightarrow> addr \<Rightarrow> bool" where
  "is_dt_at e a = (case env_file e a of Some (DataBlock t _) \<Rightarrow> t = dt_id | _ \<Rightarrow> False)"

text \<open>
  Reading the children of a chain one after another, the reader carried along: \<open>R c\<close>
  reads child \<open>c\<close> with the reader's configuration and returns the reader moved on.
\<close>

fun chain_reads :: "(addr \<Rightarrow> channel_reader \<Rightarrow> measure_value list \<Rightarrow> error + (channel_reader \<times> measure_value list))
                    \<Rightarrow> channel_reader \<Rightarrow> addr list \<Rightarrow> measure_value list
                    \<Rightarrow> error + (channel_reader \<times> measure_value list)" where
  "chain_reads R q [] acc = Inr (q, acc)"
| "chain_reads R q (c # cs) acc = bindE (R c q acc) (\<lambda>(q', acc'). chain_reads R q' cs acc')"

text \<open>
  The record reader on the data \<open>D\<close> of one fixed-length child loaded from the file, and
  on the slice \<open>(D, k)\<close> an inflated child leaves in the reader.
\<close>

definition dt_read :: "nat \<Rightarrow> byte list \<Rightarrow> channel_reader \<Rightarrow> measure_value list
                       \<Rightarrow> error + (channel_reader \<times> measure_value list)" where
  "dt_read K D q acc = read_dt_loop (loaded D q) K (cr_start_offset q) acc"

definition zipped_read :: "nat \<Rightarrow> byte list \<times> nat \<Rightarrow> channel_reader \<Rightarrow> measure_value list
                           \<Rightarrow> error + (channel_reader \<times> measure_value list)" where
  "zipped_read K dk q acc =
     read_dt_loop (q\<lparr>cr_measure_buffer := fst dk, cr_buffer_spare := snd dk\<rparr>) K (cr_start_offset q) acc"

text \<open>
  One variable-length record as \<open>readSdBlock\<close> decodes it from a block's data \<open>d\<close>
  with the reader's configuration, and the child read of an SD block.
\<close>

definition sd_record :: "channel_reader \<Rightarrow> byte list \<Rightarrow> nat \<Rightarrow> error + measure_value" where
  "sd_record r d k =
     bindE (go_slice d k 0 4)
       (\<lambda>lb. bindE (go_slice d k 4 (4 + le_uint32 lb))
          (\<lambda>w. parse_signal_measure w (cr_byte_order r) (cr_data_type r) (cr_bit_offset r) (cr_bit_count r)))"

definition sd_read :: "byte list \<Rightarrow> channel_reader \<Rightarrow> measure_value list
                       \<Rightarrow> error + (channel_reader \<times> measure_value list)" where
  "sd_read D q acc = (let q' = loaded D q in bindE (sd_record q' D (cr_buffer_spare q')) (\<lambda>v. Inr (q', acc @ [v])))"

definition is_sd_at :: "env \<Rightarrow> addr \<Rightarrow> bool" where
  "is_sd_at e a = (case env_file e a of Some (DataBlock t _) \<Rightarrow> t = sd_id | _ \<Rightarrow> False)"

text \<open>
  What reading one child must do for the list loop: through \<open>extractSample\<close>, read the
  child as \<open>R\<close> does from the reader's configuration \<open>q\<close>, and leave a state that again
  satisfies \<open>G\<close> and whose reader is \<open>q\<close> moved on.
\<close>

definition child_ok :: "(ch_state \<Rightarrow> bool) \<Rightarrow> (channel_reader \<Rightarrow> measure_value list \<Rightarrow> error + (channel_reader \<times> measure_value list))
                        \<Rightarrow> channel_reader \<Rightarrow> addr \<Rightarrow> addr \<Rightarrow> measure_value list \<Rightarrow> outcome \<Rightarrow> bool" where
  "child_ok G R q c y acc res =
     (case R q acc of
        Inl err \<Rightarrow> (\<exists>s'. res = Some (Inl (err, s')))
      | Inr (q', acc') \<Rightarrow> (\<exists>s'. res = Some (Inr (s', acc')) \<and> G s' \<and> cur_reader s' = addr_upd c y q'))"

definition is_dz_at :: "env \<Rightarrow> addr \<Rightarrow> bool" where
  "is_dz_at e a = (case env_file e a of
                     Some (DZBlock t _ _ z) \<Rightarrow> t = dt_id \<and> (case env_inflate e z of Inr _ \<Rightarrow> True | Inl _ \<Rightarrow> False)
                   | _ \<Rightarrow> False)"

definition inflated_at :: "env \<Rightarrow> addr \<Rightarrow> byte list \<times> nat" where
  "inflated_at e a = (case env_file e a of
                        Some (DZBlock _ _ _ z) \<Rightarrow>
                          (case env_inflate e z of Inr d \<Rightarrow> (d, env_read_all_spare e (length d)) | Inl _ \<Rightarrow> ([], 0))
                      | _ \<Rightarrow> ([], 0))"

section \<open>An example file\<close>

text \<open>
  A small file used to exercise the theorems: a two-node data list of DT blocks holding the
  rows \<open>01 00 AA AA | 02 00 BB BB | 03 00 CC CC\<close> (at 100), a header list over two zipped
  blocks with the same rows (at 500), a zipped block whose inflated bytes end inside the
  second row's field (at 750), a zipped block that claims to hold a zipped block
  (at 900), a signal-data block with two length-prefixed records (at 1000), a zipped
  signal-data block with one record (at 1100), a data list whose count exceeds its links
  (at 1300), a three-node chain whose middle node is empty (at 1400), the spec's
  chain of three list nodes, two full and one partial, over nine rows (at 2000), and a
  two-node chain of SD blocks holding two records and one (at 2300).
\<close>

definition ex_channel :: channel where
  "ex_channel = \<lparr>ch_byte_order = LittleEndian, ch_signal_bytes = 2, ch_data_type = TUInt16,
     ch_byte_offset = 0, ch_bit_offset = 0, ch_bit_count = 16, ch_vlsd = False, ch_link_data = 0,
     ch_inval_bit_pos = 0, ch_record_id_size = 0, ch_dg_data_address = 100, ch_data_bytes = 4,
     ch_cycle_count = 3, ch_memory_optimized = False, ch_conversion = None\<rparr>"

definition ex_file :: "addr \<Rightarrow> block option" where
  "ex_file a =
     (if a = 100 then Some (DLBlock 200 1 [300])
      else if a = 200 then Some (DLBlock 0 1 [400])
      else if a = 300 then Some (DataBlock dt_id [1, 0, 0xAA, 0xAA, 2, 0, 0xBB, 0xBB])
      else if a = 400 then Some (DataBlock dt_id [3, 0, 0xCC, 0xCC])
      else if a = 500 then Some (HLBlock 600)
      else if a = 600 then Some (DLBlock 0 2 [700, 800])
      else if a = 700 then Some (DZBlock dt_id 0 8 [7])
      else if a = 750 then Some (DZBlock dt_id 0 5 [12])
      else if a = 800 then Some (DZBlock dt_id 0 4 [8])
      else if a = 900 then Some (DZBlock dz_id 0 1 [9])
      else if a = 1000 then Some (DataBlock sd_id [2, 0, 0, 0, 0x41, 0x42, 2, 0, 0, 0, 0x43, 0x44])
      else if a = 1100 then Some (DZBlock sd_id 0 6 [11])
      else if a = 1300 then Some (DLBlock 0 2 [300])
      else if a = 1400 then Some (DLBlock 1500 1 [300])
      else if a = 1500 then Some (DLBlock 1600 0 [])
      else if a = 1600 then Some (DLBlock 0 1 [400])
      else if a = 2000 then Some (DLBlock 2100 2 [2010, 2020])
      else if a = 2100 then Some (DLBlock 2200 2 [2030, 2040])
      else if a = 2200 then Some (DLBlock 0 1 [2050])
      else if a = 2010 then Some (DataBlock dt_id [1, 0, 0, 0, 2, 0, 0, 0])
      else if a = 2020 then Some (DataBlock dt_id [3, 0, 0, 0, 4, 0, 0, 0])
      else if a = 2030 then Some (DataBlock dt_id [5, 0, 0, 0, 6, 0, 0, 0])
      else if a = 2040 then Some (DataBlock dt_id [7, 0, 0, 0, 8, 0, 0, 0])
      else if a = 2050 then Some (DataBlock dt_id [9, 0, 0, 0])
      else if a = 2300 then Some (DLBlock 2400 1 [2310])
      else if a = 2400 then Some (DLBlock 0 1 [2320])
      else if a = 2310 then Some (DataBlock sd_id [2, 0, 0, 0, 0x41, 0x42, 1, 0, 0, 0, 0x43])
      else if a = 2320 then Some (DataBlock sd_id [1, 0, 0, 0, 0x44])
      else None)"

definition ex_inflate :: "byte list \<Rightarrow> error + byte list" where
  "ex_inflate z =
     (if z = [7] then Inr [1, 0, 0xAA, 0xAA, 2, 0, 0xBB, 0xBB]
      else if z = [8] then Inr [3, 0, 0xCC, 0xCC]
      else if z = [9] then Inr [0]
      else if z = [11] then Inr [2, 0, 0, 0, 0x41, 0x42]
      else if z = [12] then Inr [1, 0, 0xAA, 0xAA, 2]
      else Inl ErrInflate)"

definition ex_env :: env where
  "ex_env = \<lparr>env_file = ex_file, env_inflate = ex_inflate, env_read_all_spare = (\<lambda>n. 512 - n)\<rparr>"

definition ex_state :: "channel \<Rightarrow> addr \<Rightarrow> ch_state" where
  "ex_state ch a = \<lparr>st_readers = [load_channel_reader ch None a], st_reader = 0, st_compressed_hl = False,
     st_cache = None, st_start_address = a, st_cached_samples = None, st_is_converted = False\<rparr>"

section \<open>Lemmas\<close>

lemmas ex_defs = ex_channel_def ex_file_def ex_inflate_def ex_env_def ex_state_def
  load_channel_reader_def cur_reader_def reader_ok_def



lemma run_numeral:
  "run (numeral k) ch e c s acc =
     (case c of
        CExtract bid \<Rightarrow> extract_sample (run (pred_numeral k) ch e) ch bid s acc
      | CFixed bid \<Rightarrow> read_fixed (run (pred_numeral k) ch e) ch e bid s acc
      | CVLSD bid \<Rightarrow> read_vlsd (run (pred_numeral k) ch e) e bid s acc
      | CDataList \<Rightarrow> read_data_list (run (pred_numeral k) ch e) ch e s acc
      | CDLLoop bid dtl i \<Rightarrow> dl_loop (run (pred_numeral k) ch e) ch e bid dtl i s acc
      | CZipped \<Rightarrow> read_data_zipped (run (pred_numeral k) ch e) e s acc
      | CHeaderList \<Rightarrow> read_header_list (run (pred_numeral k) ch e) ch e s acc)"
  by (simp add: numeral_eq_Suc)

lemma extendsD: "extends f g \<Longrightarrow> f c s acc \<noteq> None \<Longrightarrow> g c s acc = f c s acc"
  by (simp add: extends_def)

lemma extends_Some: "extends f g \<Longrightarrow> f c s acc = Some y \<Longrightarrow> g c s acc = Some y"
  by (simp add: extends_def)

lemma bindR_extends:
  "bindR m h \<noteq> None \<Longrightarrow> (m \<noteq> None \<Longrightarrow> m' = m) \<Longrightarrow> (\<And>a. h a \<noteq> None \<Longrightarrow> h' a = h a) \<Longrightarrow> bindR m' h' = bindR m h"
  by (cases m) (auto simp: bindR_def split: sum.splits)

lemma extract_sample_extends:
  "extends f g \<Longrightarrow> extract_sample f ch bid s acc \<noteq> None \<Longrightarrow> extract_sample g ch bid s acc = extract_sample f ch bid s acc"
  by (auto simp: extract_sample_def restore_outcome_def simp: extends_Some)

lemma read_fixed_extends:
  "extends f g \<Longrightarrow> read_fixed f ch e bid s acc \<noteq> None \<Longrightarrow> read_fixed g ch e bid s acc = read_fixed f ch e bid s acc"
  by (auto simp: read_fixed_def simp: extends_Some)

lemma read_vlsd_extends:
  "extends f g \<Longrightarrow> read_vlsd f e bid s acc \<noteq> None \<Longrightarrow> read_vlsd g e bid s acc = read_vlsd f e bid s acc"
  by (auto simp: read_vlsd_def simp: extends_Some)

lemma read_data_list_extends:
  "extends f g \<Longrightarrow> read_data_list f ch e s acc \<noteq> None \<Longrightarrow> read_data_list g ch e s acc = read_data_list f ch e s acc"
  by (auto simp: read_data_list_def simp: extends_Some split: sum.splits list.splits)

lemma read_data_zipped_extends:
  "extends f g \<Longrightarrow> read_data_zipped f e s acc \<noteq> None \<Longrightarrow> read_data_zipped g e s acc = read_data_zipped f e s acc"
  by (auto simp: read_data_zipped_def Let_def simp: extends_Some split: sum.splits prod.splits)

lemma read_header_list_extends:
  "extends f g \<Longrightarrow> read_header_list f ch e s acc \<noteq> None \<Longrightarrow> read_header_list g ch e s acc = read_header_list f ch e s acc"
  by (auto simp: read_header_list_def simp: extends_Some split: sum.splits)

lemma dl_loop_extends:
  assumes "extends f g" "dl_loop f ch e bid dtl i s acc \<noteq> None"
  shows "dl_loop g ch e bid dtl i s acc = dl_loop f ch e bid dtl i s acc"
proof -
  have h: "\<And>c s acc. f c s acc \<noteq> None \<Longrightarrow> g c s acc = f c s acc" using assms(1) by (rule extendsD)
  show ?thesis using assms(2) unfolding dl_loop_def Let_def
    by (auto split: sum.splits intro!: bindR_extends h simp: h split: prod.splits)
qed

lemma run_extends: "extends (run n ch e) (run (n + k) ch e)"
proof (induction n)
  case 0
  then show ?case by (simp add: extends_def)
next
  case (Suc n)
  show ?case unfolding extends_def
  proof (intro allI impI)
    fix c s acc
    assume "run (Suc n) ch e c s acc \<noteq> None"
    then show "run (Suc n + k) ch e c s acc = run (Suc n) ch e c s acc"
      by (cases c) (simp_all add: Suc.IH extract_sample_extends read_fixed_extends read_vlsd_extends
        read_data_list_extends dl_loop_extends read_data_zipped_extends read_header_list_extends)
  qed
qed

text \<open>A result the dispatcher reaches with some fuel is reached, unchanged, with any larger fuel.\<close>

lemma run_mono: "run n ch e c s acc = Some res \<Longrightarrow> n \<le> m \<Longrightarrow> run m ch e c s acc = Some res"
  using extends_Some [OF run_extends [of n ch e "m - n"]] by simp

section \<open>Invariant\<close>

lemma reader_ok_set_reader [simp]: "reader_ok (set_reader r s) = reader_ok s"
  by (simp add: reader_ok_def set_reader_def)

lemma reader_ok_new_reader [simp]: "reader_ok (new_reader r s)"
  by (simp add: reader_ok_def new_reader_def)

lemma reader_ok_upd [simp]:
  "reader_ok (s\<lparr>st_cache := c\<rparr>) = reader_ok s"
  "reader_ok (s\<lparr>st_compressed_hl := b\<rparr>) = reader_ok s"
  by (simp_all add: reader_ok_def)

lemma length_readers_set_reader [simp]: "length (st_readers (set_reader r s)) = length (st_readers s)"
  by (simp add: set_reader_def)

lemma length_readers_new_reader [simp]: "length (st_readers (new_reader r s)) = Suc (length (st_readers s))"
  by (simp add: new_reader_def)

lemma frame_refl [simp]: "frame s s"
  by (simp add: frame_def)

lemma frame_trans: "frame s s1 \<Longrightarrow> frame s1 s2 \<Longrightarrow> frame s s2"
  by (simp add: frame_def)

lemma frame_upd [simp]:
  "frame s (set_reader r s') = frame s s'"
  "frame s (s'\<lparr>st_cache := c\<rparr>) = frame s s'"
  "frame s (s'\<lparr>st_compressed_hl := b\<rparr>) = frame s s'"
  "frame s (restore s0 s') = frame s s'"
  by (simp_all add: frame_def set_reader_def restore_def)

lemma frame_new_reader [simp]: "frame s s' \<Longrightarrow> frame s (new_reader r s')"
  by (simp add: frame_def new_reader_def)

lemma outcome_ok_weaken:
  "outcome_ok s' acc' res \<Longrightarrow> frame s s' \<Longrightarrow> prefix acc acc'
   \<Longrightarrow> outcome_ok s acc res"
  by (auto simp: outcome_ok_def split: option.splits sum.splits intro: prefix_order.trans frame_trans)

lemma rec_okD: "rec_ok f \<Longrightarrow> reader_ok s \<Longrightarrow> outcome_ok s acc (f c s acc)"
  by (simp add: rec_ok_def)

lemma read_dt_loop_prefix: "read_dt_loop r k pos acc = Inr (r', vs) \<Longrightarrow> prefix acc vs"
proof (induction k arbitrary: pos acc)
  case 0
  then show ?case by simp
next
  case (Suc k)
  show ?case
  proof (cases "length (cr_measure_buffer r) \<le> pos")
    case True
    with Suc.prems show ?thesis by (auto simp: bindE_def split: sum.splits)
  next
    case False
    with Suc.prems obtain v where "read_dt_loop r k (pos + cr_row_size r) (acc @ [v]) = Inr (r', vs)"
      by (auto simp: bindE_def split: sum.splits)
    then have "prefix (acc @ [v]) vs" by (rule Suc.IH)
    then show ?thesis by (metis prefix_order.trans prefixI)
  qed
qed

lemma reader_ok_restore:
  "reader_ok s \<Longrightarrow> frame s s' \<Longrightarrow> reader_ok (restore s s')"
  by (simp add: reader_ok_def restore_def frame_def)

lemma restore_outcome_ok:
  "reader_ok s \<Longrightarrow> outcome_ok s acc res \<Longrightarrow> outcome_ok s acc (restore_outcome s res)"
  by (auto simp: outcome_ok_def restore_outcome_def reader_ok_restore split: option.splits sum.splits)

lemma at_state_simps [simp]:
  "at_state s (Inl err) = Inl (err, s)"
  "at_state s (Inr a) = Inr a"
  by (simp_all add: at_state_def)

lemma at_state_eq_iff [simp]:
  "at_state s m = Inl (err, s') \<longleftrightarrow> m = Inl err \<and> s' = s"
  "at_state s m = Inr a \<longleftrightarrow> m = Inr a"
  by (cases m; auto simp: at_state_def)+

lemma load_if_uncached_ok:
  assumes "reader_ok s"
  shows "load_if_uncached e s = Inl (err, s1) \<Longrightarrow> reader_ok s1 \<and> frame s s1"
    and "load_if_uncached e s = Inr s1 \<Longrightarrow> reader_ok s1 \<and> frame s s1"
  using assms by (cases "read_block_to_memory e (cur_reader s)"; auto simp: load_if_uncached_def split: if_splits)+

lemma read_dt_ok:
  assumes "reader_ok s"
  shows "outcome_ok s acc (Some (read_dt ch e s acc))"
proof (cases "load_if_uncached e s")
  case (Inl x)
  then show ?thesis using load_if_uncached_ok(1) [OF assms, of e "fst x" "snd x"]
    by (cases x) (simp add: read_dt_def outcome_ok_def)
next
  case (Inr s1)
  note s1 = load_if_uncached_ok(2) [OF assms Inr]
  show ?thesis
  proof (cases "read_dt_loop (cur_reader s1) (ch_cycle_count ch) (cr_start_offset (cur_reader s1)) acc")
    case (Inl err)
    with Inr s1 show ?thesis by (simp add: read_dt_def outcome_ok_def)
  next
    case (Inr p)
    with \<open>load_if_uncached e s = Inr s1\<close> s1 show ?thesis
      by (cases p) (auto simp: read_dt_def outcome_ok_def dest: read_dt_loop_prefix)
  qed
qed

lemma read_sd_block_record:
  "read_sd_block e s acc =
     bindE (load_if_uncached e s)
       (\<lambda>s1. map_sum (\<lambda>err. (err, s1)) (\<lambda>v. (s1, acc @ [v])) (sd_record (cur_reader s1) (cr_measure_buffer (cur_reader s1)) (cr_buffer_spare (cur_reader s1))))"
  by (auto simp: read_sd_block_def sd_record_def bindE_def Let_def split: sum.splits)

lemma read_sd_block_ok:
  assumes "reader_ok s"
  shows "outcome_ok s acc (Some (read_sd_block e s acc))"
proof (cases "load_if_uncached e s")
  case (Inl x)
  then show ?thesis using load_if_uncached_ok(1) [OF assms, of e "fst x" "snd x"]
    by (cases x) (simp add: read_sd_block_def outcome_ok_def)
next
  case (Inr s1)
  then show ?thesis using load_if_uncached_ok(2) [OF assms Inr]
    by (cases "sd_record (cur_reader s1) (cr_measure_buffer (cur_reader s1)) (cr_buffer_spare (cur_reader s1))")
       (simp_all add: read_sd_block_record outcome_ok_def)
qed

lemma extract_sample_ok: "rec_ok f \<Longrightarrow> reader_ok s \<Longrightarrow> outcome_ok s acc (extract_sample f ch bid s acc)"
  by (simp add: extract_sample_def rec_okD restore_outcome_ok)

lemma outcome_ok_Inl [simp]:
  "outcome_ok s acc (Some (Inl (err, s'))) = (reader_ok s' \<and> frame s s')"
  by (simp add: outcome_ok_def)

lemma outcome_ok_done [simp]: "outcome_ok s acc (Some (Inr (s, acc))) = reader_ok s"
  by (simp add: outcome_ok_def)

lemma read_fixed_ok: "rec_ok f \<Longrightarrow> reader_ok s \<Longrightarrow> outcome_ok s acc (read_fixed f ch e bid s acc)"
  by (simp add: read_fixed_def rec_okD read_dt_ok)

lemma read_vlsd_ok: "rec_ok f \<Longrightarrow> reader_ok s \<Longrightarrow> outcome_ok s acc (read_vlsd f e bid s acc)"
  by (simp add: read_vlsd_def rec_okD read_sd_block_ok)

lemma outcome_ok_step:
  "rec_ok f \<Longrightarrow> reader_ok s' \<Longrightarrow> frame s s' \<Longrightarrow> outcome_ok s acc (f c s' acc)"
  by (rule outcome_ok_weaken [OF rec_okD]) simp_all

lemma read_data_list_ok: "rec_ok f \<Longrightarrow> reader_ok s \<Longrightarrow> outcome_ok s acc (read_data_list f ch e s acc)"
  by (auto simp: read_data_list_def intro!: outcome_ok_step [where f = f] split: sum.splits list.splits)

lemma read_data_zipped_ok: "rec_ok f \<Longrightarrow> reader_ok s \<Longrightarrow> outcome_ok s acc (read_data_zipped f e s acc)"
  by (auto simp: read_data_zipped_def Let_def intro!: outcome_ok_step [where f = f] split: sum.splits prod.splits)

lemma read_header_list_ok: "rec_ok f \<Longrightarrow> reader_ok s \<Longrightarrow> outcome_ok s acc (read_header_list f ch e s acc)"
  by (auto simp: read_header_list_def intro!: outcome_ok_step [where f = f] split: sum.splits)

lemma bindR_ok:
  assumes "outcome_ok s acc m"
    and "\<And>s' acc'. m = Some (Inr (s', acc')) \<Longrightarrow> reader_ok s' \<Longrightarrow> outcome_ok s' acc' (h s' acc')"
  shows "outcome_ok s acc (bindR m (\<lambda>(s', acc'). h s' acc'))"
proof (cases m)
  case (Some r)
  show ?thesis
  proof (cases r)
    case (Inr p)
    obtain s' acc' where p: "p = (s', acc')" by (cases p)
    have m: "m = Some (Inr (s', acc'))" using Some Inr p by simp
    with assms(1) have "reader_ok s'" "frame s s'" "prefix acc acc'"
      by (simp_all add: outcome_ok_def)
    with assms(2) [OF m] show ?thesis by (simp add: m outcome_ok_weaken)
  qed (use assms(1) Some in auto)
qed (simp add: outcome_ok_def)

lemma dl_loop_ok:
  assumes f: "rec_ok f" and s: "reader_ok s"
  shows "outcome_ok s acc (dl_loop f ch e bid dtl i s acc)"
proof -
  define s1 where "s1 = set_reader ((cur_reader s)\<lparr>cr_data_address := dl_links dtl ! i\<rparr>) s"
  define s2 where "s2 = (if i + 1 < dl_count dtl
                         then set_reader ((cur_reader s1)\<lparr>cr_next_data_address := dl_links dtl ! (i + 1)\<rparr>) s1
                         else s1)"
  have s2: "reader_ok s2" "frame s s2"
    using s by (simp_all add: s1_def s2_def)
  have tail: "outcome_ok s acc
                (bindR (f (CExtract bid') s2 acc)
                  (\<lambda>(s3, acc3).
                     if Suc i = length (dl_links dtl) \<and> dl_next dtl \<noteq> 0 then
                       (case dl_new e (dl_next dtl) of
                          Inl err \<Rightarrow> Some (Inl (err, s3))
                        | Inr dtl' \<Rightarrow> f (CDLLoop bid' dtl' 0) s3 acc3)
                     else f (CDLLoop bid' dtl (Suc i)) s3 acc3))" for bid'
  proof (rule bindR_ok)
    show "outcome_ok s acc (f (CExtract bid') s2 acc)"
      using f s2 by (simp add: outcome_ok_step)
  next
    fix s3 acc3
    assume "reader_ok s3"
    then show "outcome_ok s3 acc3
                (if Suc i = length (dl_links dtl) \<and> dl_next dtl \<noteq> 0 then
                   (case dl_new e (dl_next dtl) of
                      Inl err \<Rightarrow> Some (Inl (err, s3))
                    | Inr dtl' \<Rightarrow> f (CDLLoop bid' dtl' 0) s3 acc3)
                 else f (CDLLoop bid' dtl (Suc i)) s3 acc3)"
      using f by (simp add: rec_okD split: sum.splits)
  qed
  show ?thesis
    using s s2 tail unfolding dl_loop_def Let_def s1_def [symmetric] s2_def [symmetric]
    by (auto simp: s1_def split: sum.splits)
qed

lemma run_ok: "rec_ok (run n ch e)"
proof (induction n)
  case 0
  then show ?case by (simp add: rec_ok_def outcome_ok_def)
next
  case (Suc n)
  show ?case unfolding rec_ok_def
  proof (intro allI impI)
    fix c s acc
    assume "reader_ok s"
    with Suc.IH show "outcome_ok s acc (run (Suc n) ch e c s acc)"
      by (cases c) (simp_all add: extract_sample_ok read_fixed_ok read_vlsd_ok read_data_list_ok
        dl_loop_ok read_data_zipped_ok read_header_list_ok)
  qed
qed

section \<open>Reading a chain of DT blocks\<close>

lemma addr_upd_fields [simp]:
  "cr_measure_buffer (addr_upd x y r) = cr_measure_buffer r"
  "cr_buffer_spare (addr_upd x y r) = cr_buffer_spare r"
  "addr_upd x y r\<lparr>cr_buffer_spare := k\<rparr> = addr_upd x y (r\<lparr>cr_buffer_spare := k\<rparr>)"
  "loaded d (addr_upd x y r) = addr_upd x y (loaded d r)"
  "cr_row_size (addr_upd x y r) = cr_row_size r"
  "cr_start_offset (addr_upd x y r) = cr_start_offset r"
  "cr_data_address (addr_upd x y r) = x"
  "addr_upd x y r\<lparr>cr_measure_buffer := b\<rparr> = addr_upd x y (r\<lparr>cr_measure_buffer := b\<rparr>)"
  "addr_upd x y r\<lparr>cr_data_address := x'\<rparr> = addr_upd x' y r"
  "addr_upd x y r\<lparr>cr_next_data_address := y'\<rparr> = addr_upd x y' r"
  by (simp_all add: addr_upd_def loaded_def)

lemma read_datablock_addr_upd [simp]: "read_datablock (addr_upd x y r) pos = read_datablock r pos"
  by (simp add: addr_upd_def read_datablock_def)

lemma buffer_exhausted_addr_upd:
  "buffer_exhausted (addr_upd x y r) = map_sum id (addr_upd x y) (buffer_exhausted r)"
  by (simp add: buffer_exhausted_def addr_upd_def Let_def)

lemma read_dt_loop_addr_upd:
  "read_dt_loop (addr_upd x y r) k pos acc = map_sum id (apfst (addr_upd x y)) (read_dt_loop r k pos acc)"
proof (induction k arbitrary: pos acc)
  case 0
  then show ?case by simp
next
  case (Suc k)
  then show ?case
    by (cases "buffer_exhausted r"; cases "read_datablock r pos") (simp_all add: buffer_exhausted_addr_upd)
qed

lemma restore_set_reader [simp]: "restore s (set_reader r s) = set_reader r s"
  by (simp add: restore_def set_reader_def)

lemma cur_reader_set_reader [simp]: "reader_ok s \<Longrightarrow> cur_reader (set_reader r s) = r"
  by (simp add: cur_reader_def set_reader_def reader_ok_def)

lemma set_reader_set_reader [simp]: "set_reader r (set_reader r' s) = set_reader r s"
  by (simp add: set_reader_def)

lemma set_reader_fields [simp]:
  "st_cache (set_reader r s) = st_cache s"
  "st_compressed_hl (set_reader r s) = st_compressed_hl s"
  "st_reader (set_reader r s) = st_reader s"
  by (simp_all add: set_reader_def)

lemma is_dt_atD: "is_dt_at e a \<Longrightarrow> env_file e a = Some (DataBlock dt_id (data_at e a))"
  by (auto simp: is_dt_at_def data_at_def split: option.splits block.splits)

text \<open>One DT child, read through \<open>extractSample\<close> of a fixed-length channel.\<close>

lemma run_extract_dt:
  assumes "\<not> ch_vlsd ch" "reader_ok s" "st_cache s = None" "cur_reader s = addr_upd x y q" "is_dt_at e x"
  shows "run (Suc (Suc m)) ch e (CExtract dt_id) s acc =
           Some (case read_dt_loop (loaded (data_at e x) q) (ch_cycle_count ch) (cr_start_offset q) acc of
                   Inl err \<Rightarrow> Inl (err, set_reader (addr_upd x y (loaded (data_at e x) q)) s)
                 | Inr (q', acc') \<Rightarrow> Inr (set_reader (addr_upd x y q') s, acc'))"
proof -
  have load: "load_if_uncached e s = Inr (set_reader (addr_upd x y (loaded (data_at e x) q)) s)"
    using assms by (simp add: load_if_uncached_def read_block_to_memory_data is_dt_atD)
  show ?thesis
    using assms
    by (cases "read_dt_loop (loaded (data_at e x) q) (ch_cycle_count ch) (cr_start_offset q) acc")
       (auto simp: extract_sample_def read_fixed_def read_dt_def load read_dt_loop_addr_upd restore_outcome_def)
qed

lemma dl_chain_path: "dl_chain e nxt lss = dl_path e nxt lss 0"
  by (induction lss arbitrary: nxt) (auto split: option.splits block.splits)

lemma dl_path_Cons_dl_new:
  assumes "dl_path e nxt (ls # lss) stop"
  obtains dtl' where "dl_new e nxt = Inr dtl'" "dl_links dtl' = ls" "dl_count dtl' \<le> length ls"
    "dl_path e (dl_next dtl') lss stop" "nxt \<noteq> 0" "ls \<noteq> []"
  using assms by (auto simp: dl_new_def split: option.splits block.splits)

lemma chain_stop_dl_new:
  assumes "chain_stop e a" "a \<noteq> 0"
  obtains dtl' where "dl_new e a = Inr dtl'" "dl_links dtl' = []"
  using assms by (auto simp: chain_stop_def dl_new_def split: option.splits block.splits list.splits)

lemma dl_loop_Nil [simp]: "dl_links dtl = [] \<Longrightarrow> dl_loop f ch e bid dtl i s acc = Some (Inr (s, acc))"
  by (simp add: dl_loop_def)

lemma run_dl_loop:
  assumes G: "\<And>s. G s \<Longrightarrow> reader_ok s" "\<And>s. G s \<Longrightarrow> st_compressed_hl s = hl"
      "\<And>r s. G s \<Longrightarrow> G (set_reader r s)"
    and tag: "\<forall>c \<in> set (drop i (dl_links dtl) @ concat lss). (if hl then get_header_id e c else Inr b) = Inr b"
    and step: "\<And>c s y q acc m. c \<in> set (drop i (dl_links dtl) @ concat lss) \<Longrightarrow> G s \<Longrightarrow>
                 cur_reader s = addr_upd c y q \<Longrightarrow> k \<le> m \<Longrightarrow>
                 child_ok G (R c) q c y acc (run m ch e (CExtract b) s acc)"
    and "0 < k" "dl_path e (dl_next dtl) lss stop" "chain_stop e stop" "dl_count dtl \<le> length (dl_links dtl)"
    "i < length (dl_links dtl) \<or> lss = []" "G s" "cur_reader s = addr_upd x y q"
    "k * length (drop i (dl_links dtl) @ concat lss) < m"
  shows "map_option (map_sum fst snd) (run m ch e (CDLLoop b dtl i) s acc)
           = Some (map_sum id snd (chain_reads R q (drop i (dl_links dtl) @ concat lss) acc))"
  using tag step assms(6-)
proof (induction "length (drop i (dl_links dtl) @ concat lss)" arbitrary: i dtl lss s acc x y q m)
  case 0
  then obtain m' where "m = Suc m'" by (cases m) auto
  with 0 show ?case by (simp add: dl_loop_def)
next
  case (Suc N)
  let ?ls = "dl_links dtl" and ?K = "ch_cycle_count ch"
  have i: "i < length ?ls" using Suc.hyps Suc.prems(7) by auto
  have km: "k * N + k < m" using Suc.prems(10) unfolding Suc.hyps [symmetric] by simp
  then obtain m1 where m: "m = Suc m1" by (cases m) auto
  have fuel: "k * N < m1" "k \<le> m1" using km Suc.prems(3) unfolding m by simp_all
  define c where "c = ?ls ! i"
  define y' where "y' = (if Suc i < dl_count dtl then ?ls ! Suc i else y)"
  define s2 where "s2 = set_reader (addr_upd c y' q) s"
  have drop: "drop i ?ls = c # drop (Suc i) ?ls" using i by (simp add: c_def Cons_nth_drop_Suc)
  have N: "N = length (drop (Suc i) ?ls @ concat lss)" using Suc.hyps drop by simp
  have nopanic: "\<not> (i + 1 < dl_count dtl \<and> \<not> i + 1 < length ?ls)" using Suc.prems(6) by auto
  have s2: "G s2" "cur_reader s2 = addr_upd c y' q"
    using Suc.prems(8) G by (simp_all add: s2_def)
  have hl: "st_compressed_hl s = hl" using G(2) [OF Suc.prems(8)] .
  have hdr: "hl \<Longrightarrow> get_header_id e (?ls ! i) = Inr b"
    using Suc.prems(1) drop by (simp add: c_def)
  have loop: "run m ch e (CDLLoop b dtl i) s acc =
      bindR (run m1 ch e (CExtract b) s2 acc)
        (\<lambda>(s3, acc3).
           if Suc i = length ?ls \<and> dl_next dtl \<noteq> 0 then
             (case dl_new e (dl_next dtl) of
                Inl err \<Rightarrow> Some (Inl (err, s3))
              | Inr dtl' \<Rightarrow> run m1 ch e (CDLLoop b dtl' 0) s3 acc3)
           else run m1 ch e (CDLLoop b dtl (Suc i)) s3 acc3)"
    using i nopanic hl hdr G(1) [OF Suc.prems(8)] Suc.prems(9)
    by (cases "Suc i < dl_count dtl"; cases hl) (simp_all add: m dl_loop_def Let_def s2_def y'_def c_def)
  have ext: "child_ok G (R c) q c y' acc (run m1 ch e (CExtract b) s2 acc)"
    using Suc.prems(2) [of c s2 y' q m1 acc] s2 fuel(2) drop by simp
  show ?case
  proof (cases "R c q acc")
    case (Inl err)
    then show ?thesis using ext by (auto simp: loop drop child_ok_def)
  next
    case (Inr p)
    obtain q' acc' where p: "p = (q', acc')" by (cases p)
    obtain s3 where s3: "run m1 ch e (CExtract b) s2 acc = Some (Inr (s3, acc'))" "G s3"
      "cur_reader s3 = addr_upd c y' q'"
      using ext Inr p by (auto simp: child_ok_def)
    have rb: "chain_reads R q (drop i ?ls @ concat lss) acc
              = chain_reads R q' (drop (Suc i) ?ls @ concat lss) acc'"
      using Inr p by (simp add: drop)
    have sub: "set (drop (Suc i) ?ls @ concat lss) \<subseteq> set (drop i ?ls @ concat lss)"
      using drop by auto
    show ?thesis
    proof (cases "Suc i = length ?ls \<and> dl_next dtl \<noteq> 0")
      case True
      show ?thesis
      proof (cases lss)
        case Nil
        have "dl_next dtl = stop" using Suc.prems(4) Nil by simp
        then obtain dtl' where dtl': "dl_new e (dl_next dtl) = Inr dtl'" "dl_links dtl' = []"
          using Suc.prems(5) True by (auto elim: chain_stop_dl_new)
        have "run m1 ch e (CDLLoop b dtl' 0) s3 acc' = Some (Inr (s3, acc'))"
          using fuel(1) dtl'(2) by (cases m1) simp_all
        then have "run m ch e (CDLLoop b dtl i) s acc = Some (Inr (s3, acc'))"
          using True by (simp add: loop s3(1) dtl'(1))
        then show ?thesis using rb True Nil by simp
      next
        case (Cons ls2 lss')
        obtain dtl' where dtl': "dl_new e (dl_next dtl) = Inr dtl'" "dl_links dtl' = ls2"
          "dl_count dtl' \<le> length ls2" "dl_path e (dl_next dtl') lss' stop" "ls2 \<noteq> []"
          using Suc.prems(4) unfolding Cons by (rule dl_path_Cons_dl_new)
        have same: "drop 0 (dl_links dtl') @ concat lss' = drop (Suc i) ?ls @ concat lss"
          using True dtl'(2) Cons by simp
        have IH: "map_option (map_sum fst snd) (run m1 ch e (CDLLoop b dtl' 0) s3 acc')
              = Some (map_sum id snd (chain_reads R q' (drop 0 (dl_links dtl') @ concat lss') acc'))"
        proof (rule Suc.hyps(1))
          show "N = length (drop 0 (dl_links dtl') @ concat lss')" using N same by simp
          show "0 < length (dl_links dtl') \<or> lss' = []" using dtl'(2,5) by simp
          show "k * length (drop 0 (dl_links dtl') @ concat lss') < m1" using fuel N same by simp
          have sub': "set (drop 0 (dl_links dtl') @ concat lss') \<subseteq> set (drop i ?ls @ concat lss)"
            using same sub by simp
          show "\<forall>c\<in>set (drop 0 (dl_links dtl') @ concat lss'). (if hl then get_header_id e c else Inr b) = Inr b"
            using Suc.prems(1) sub' by blast
          show "\<And>c s y q m acc. c \<in> set (drop 0 (dl_links dtl') @ concat lss') \<Longrightarrow> G s \<Longrightarrow>
                  cur_reader s = addr_upd c y q \<Longrightarrow> k \<le> m \<Longrightarrow>
                  child_ok G (R c) q c y acc (run m ch e (CExtract b) s acc)"
            using Suc.prems(2) sub' by blast
        qed (use Suc.prems(3,5) dtl' s3 in auto)
        have eq: "run m ch e (CDLLoop b dtl i) s acc = run m1 ch e (CDLLoop b dtl' 0) s3 acc'"
          using True by (simp add: loop s3(1) dtl'(1))
        show ?thesis unfolding eq rb same [symmetric] by (rule IH)
      qed
    next
      case False
      have IH: "map_option (map_sum fst snd) (run m1 ch e (CDLLoop b dtl (Suc i)) s3 acc')
            = Some (map_sum id snd (chain_reads R q' (drop (Suc i) ?ls @ concat lss) acc'))"
      proof (rule Suc.hyps(1))
        show "N = length (drop (Suc i) ?ls @ concat lss)" by (rule N)
        show "Suc i < length ?ls \<or> lss = []"
          using False Suc.prems(4) i by (cases lss) auto
        show "k * length (drop (Suc i) ?ls @ concat lss) < m1" using fuel N by simp
        show "\<forall>c\<in>set (drop (Suc i) ?ls @ concat lss). (if hl then get_header_id e c else Inr b) = Inr b"
          using Suc.prems(1) sub by blast
        show "\<And>c s y q m acc. c \<in> set (drop (Suc i) ?ls @ concat lss) \<Longrightarrow> G s \<Longrightarrow>
                cur_reader s = addr_upd c y q \<Longrightarrow> k \<le> m \<Longrightarrow>
                child_ok G (R c) q c y acc (run m ch e (CExtract b) s acc)"
          using Suc.prems(2) sub by blast
      qed (use Suc.prems(3-6) s3 in auto)
      have eq: "run m ch e (CDLLoop b dtl i) s acc = run m1 ch e (CDLLoop b dtl (Suc i)) s3 acc'"
        using False by (simp add: loop s3(1) del: de_Morgan_conj)
      show ?thesis unfolding eq rb by (rule IH)
    qed
  qed
qed

lemma restore_outcome_proj [simp]:
  "map_option (map_sum fst snd) (restore_outcome s res) = map_option (map_sum fst snd) res"
proof (cases res)
  case (Some a)
  then show ?thesis by (cases a) (auto simp: restore_outcome_def split: prod.splits)
qed (simp add: restore_outcome_def)

lemma chain_reads_dt:
  "cr_buffer_spare q = 0 \<Longrightarrow> chain_reads (\<lambda>c. dt_read K (D c)) q cs acc = read_blocks q K (map D cs) acc"
proof (induction cs arbitrary: q acc)
  case (Cons c cs)
  show ?case
  proof (cases "read_dt_loop (q\<lparr>cr_measure_buffer := D c\<rparr>) K (cr_start_offset q) acc")
    case (Inr p)
    then show ?thesis
      using Cons.IH [of "fst p"] read_dt_loop_spare [of _ K _ acc "fst p" "snd p"] Cons.prems
      by (cases p) (simp add: dt_read_def)
  qed (simp add: dt_read_def Cons.prems)
qed simp

lemma child_ok_dt:
  assumes "\<not> ch_vlsd ch" "is_dt_at e c" "reader_ok s" "st_cache s = None" "\<not> st_compressed_hl s"
    "cur_reader s = addr_upd c y q" "2 \<le> m"
  shows "child_ok (\<lambda>s. reader_ok s \<and> st_cache s = None \<and> \<not> st_compressed_hl s)
           (dt_read (ch_cycle_count ch) (data_at e c)) q c y acc (run m ch e (CExtract dt_id) s acc)"
proof -
  obtain m' where m: "m = Suc (Suc m')" using assms(7) by (metis add_2_eq_Suc le_Suc_ex)
  show ?thesis
    using run_extract_dt [OF assms(1,3,4,6,2), of m' acc] assms(3-5)
    by (auto simp: m child_ok_def dt_read_def split: sum.splits)
qed

lemma read_data_list_start:
  assumes "reader_ok s" "env_file e (cr_data_address (cur_reader s)) = Some (DLBlock nxt cnt ls)" "ls \<noteq> []"
    "get_header_id e (hd ls) = Inr b"
  shows "read_data_list f ch e s acc =
           f (CDLLoop b \<lparr>dl_next = nxt, dl_count = cnt, dl_links = ls\<rparr> 0)
             (new_reader (load_channel_reader ch (st_cache s) (hd ls)) s) acc"
  using assms by (cases ls) (simp_all add: read_data_list_def dl_new_def)

lemma cur_reader_new_reader [simp]: "cur_reader (new_reader r s) = r"
  by (simp add: cur_reader_def new_reader_def)

lemma new_reader_fields [simp]:
  "st_cache (new_reader r s) = st_cache s"
  "st_compressed_hl (new_reader r s) = st_compressed_hl s"
  by (simp_all add: new_reader_def)

lemma load_channel_reader_no_spare [simp]: "cr_buffer_spare (load_channel_reader ch None a) = 0"
  by (simp add: load_channel_reader_def)

lemma load_channel_reader_addr_upd: "load_channel_reader ch c a = addr_upd a 0 (load_channel_reader ch c a)"
  by (simp add: addr_upd_def load_channel_reader_def)

text \<open>
  A chain of data lists over DT children, up to a stop node (\<open>Next = 0\<close> or a list
  without links), read through \<open>extractSample\<close>.
\<close>

lemma extract_dl_path_dt:
  assumes "\<not> ch_vlsd ch" "reader_ok s" "st_cache s = None" "\<not> st_compressed_hl s"
    "env_file e (cr_data_address (cur_reader s)) = Some (DLBlock nxt cnt ls)" "ls \<noteq> []" "cnt \<le> length ls"
    "dl_path e nxt lss stop" "chain_stop e stop" "\<forall>c \<in> set (concat (ls # lss)). is_dt_at e c"
    "2 * length (concat (ls # lss)) + 3 < m"
  shows "map_option (map_sum fst snd) (run m ch e (CExtract dl_id) s acc)
           = Some (map_sum id snd (read_blocks (load_channel_reader ch None (hd ls)) (ch_cycle_count ch)
                                     (map (data_at e) (concat (ls # lss))) acc))"
proof -
  obtain m' where m: "m = Suc (Suc (Suc m'))" and fuel: "2 * length (concat (ls # lss)) < m'"
    using assms(11) by (cases m; cases "m - 1"; cases "m - 2") auto
  let ?G = "\<lambda>s. reader_ok s \<and> st_cache s = None \<and> \<not> st_compressed_hl s"
  let ?r0 = "load_channel_reader ch None (hd ls)"
  have hd: "hd ls \<in> set (concat (ls # lss))" using assms(6) by simp
  have hdr: "get_header_id e (hd ls) = Inr dt_id"
    using is_dt_atD [of e "hd ls"] assms(10) hd by (simp add: get_header_id_def)
  define dtl where "dtl = \<lparr>dl_next = nxt, dl_count = cnt, dl_links = ls\<rparr>"
  have "map_option (map_sum fst snd) (run m' ch e (CDLLoop dt_id dtl 0) (new_reader ?r0 s) acc)
        = Some (map_sum id snd (chain_reads (\<lambda>c. dt_read (ch_cycle_count ch) (data_at e c)) ?r0
                                  (drop 0 (dl_links dtl) @ concat lss) acc))"
  proof (rule run_dl_loop [where G = ?G and hl = False and k = 2 and x = "hd ls" and y = 0 and stop = stop])
    show "\<And>c s y q m acc. c \<in> set (drop 0 (dl_links dtl) @ concat lss) \<Longrightarrow>
            ?G s \<Longrightarrow> cur_reader s = addr_upd c y q \<Longrightarrow> 2 \<le> m \<Longrightarrow>
            child_ok ?G (dt_read (ch_cycle_count ch) (data_at e c)) q c y acc (run m ch e (CExtract dt_id) s acc)"
      using assms(1,10) by (auto simp: dtl_def intro!: child_ok_dt)
    show "cur_reader (new_reader ?r0 s) = addr_upd (hd ls) 0 ?r0"
      by (simp flip: load_channel_reader_addr_upd)
  qed (use assms fuel in \<open>auto simp: dtl_def\<close>)
  then show ?thesis
    using assms(1-6) hdr by (simp add: m dtl_def extract_sample_def read_fixed_def block_ids_distinct
      block_ids_distinct [THEN not_sym] read_data_list_start chain_reads_dt)
qed

text \<open>C1: A fixed-length channel whose data is a chain of data lists with DT children (non-empty lists, Count at most the links) yields, given enough fuel, exactly what the record reader yields on the children's data sections in chain order, starting from a fresh reader: the chain is traversed completely and in order.\<close>

theorem extract_dl_chain_dt:
  assumes "\<not> ch_vlsd ch" "reader_ok s" "st_cache s = None" "\<not> st_compressed_hl s"
    "env_file e (cr_data_address (cur_reader s)) = Some (DLBlock nxt cnt ls)" "ls \<noteq> []" "cnt \<le> length ls"
    "dl_chain e nxt lss" "\<forall>c \<in> set (concat (ls # lss)). is_dt_at e c"
    "2 * length (concat (ls # lss)) + 3 < m"
  shows "map_option (map_sum fst snd) (run m ch e (CExtract dl_id) s acc)
           = Some (map_sum id snd (read_blocks (load_channel_reader ch None (hd ls)) (ch_cycle_count ch)
                                     (map (data_at e) (concat (ls # lss))) acc))"
  by (rule extract_dl_path_dt [where nxt = nxt and cnt = cnt and stop = 0])
     (use assms in \<open>simp_all add: dl_chain_path chain_stop_def\<close>)

text \<open>C18: A data list whose Next link leads to a list node without links ends the traversal there: the lists chained after that node are never read, even when its own Next link is not 0; the channel yields only what the record reader yields on the children before it.\<close>

theorem dl_empty_node_truncates_chain:
  assumes "\<not> ch_vlsd ch" "reader_ok s" "st_cache s = None" "\<not> st_compressed_hl s"
    "env_file e (cr_data_address (cur_reader s)) = Some (DLBlock nxt cnt ls)" "ls \<noteq> []" "cnt \<le> length ls"
    "dl_path e nxt lss stop" "env_file e stop = Some (DLBlock nxt2 cnt2 [])" "stop \<noteq> 0"
    "dl_chain e nxt2 lss2" "lss2 \<noteq> []"
    "\<forall>c \<in> set (concat (ls # lss)). is_dt_at e c" "2 * length (concat (ls # lss)) + 3 < m"
  shows "map_option (map_sum fst snd) (run m ch e (CExtract dl_id) s acc)
           = Some (map_sum id snd (read_blocks (load_channel_reader ch None (hd ls)) (ch_cycle_count ch)
                                     (map (data_at e) (concat (ls # lss))) acc))"
  by (rule extract_dl_path_dt [where nxt = nxt and cnt = cnt and stop = stop])
     (use assms in \<open>simp_all add: chain_stop_def\<close>)

lemma is_dz_atD:
  "is_dz_at e a \<Longrightarrow> \<exists>zt ol z. env_file e a = Some (DZBlock dt_id zt ol z) \<and> env_inflate e z = Inr (fst (inflated_at e a))
     \<and> snd (inflated_at e a) = env_read_all_spare e (length (fst (inflated_at e a)))"
  by (auto simp: is_dz_at_def inflated_at_def split: option.splits block.splits sum.splits)

lemma is_dz_at_header: "is_dz_at e c \<Longrightarrow> get_header_id e c = Inr dz_id"
  by (auto simp: get_header_id_def dest!: is_dz_atD)

lemma restore_same [simp]:
  "st_reader s' = st_reader s \<Longrightarrow> st_compressed_hl s' = st_compressed_hl s \<Longrightarrow> restore s s' = s'"
  by (simp add: restore_def)

lemma reader_ok_cache [simp]: "cur_reader (s\<lparr>st_cache := c\<rparr>) = cur_reader s"
  by (simp add: cur_reader_def)

lemma child_ok_dz:
  assumes "\<not> ch_vlsd ch" "is_dz_at e c" "reader_ok s" "st_compressed_hl s = hl"
    "cur_reader s = addr_upd c y q" "5 \<le> m"
  shows "child_ok (\<lambda>s. reader_ok s \<and> st_compressed_hl s = hl)
           (zipped_read (ch_cycle_count ch) (inflated_at e c)) q c y acc (run m ch e (CExtract dz_id) s acc)"
proof -
  obtain m' where m: "m = Suc (Suc (Suc (Suc (Suc m'))))" using assms(6)
    by (cases m; cases "m - 1"; cases "m - 2"; cases "m - 3"; cases "m - 4") auto
  define d where "d = fst (inflated_at e c)"
  define k where "k = snd (inflated_at e c)"
  obtain zt ol z where dz: "env_file e c = Some (DZBlock dt_id zt ol z)" "env_inflate e z = Inr d"
    "k = env_read_all_spare e (length d)"
    using is_dz_atD [OF assms(2)] unfolding d_def k_def by blast
  define q1 where "q1 = q\<lparr>cr_measure_buffer := d, cr_buffer_spare := k\<rparr>"
  define s1 where "s1 = set_reader (addr_upd c y q1) (s\<lparr>st_cache := Some (d, k)\<rparr>)"
  have zipped: "read_data_zipped (run (Suc (Suc m')) ch e) e s acc = run (Suc (Suc m')) ch e (CExtract dt_id) s1 acc"
    using assms(3,5) dz by (simp add: read_data_zipped_def dz_new_def dz_read_inflate s1_def q1_def Let_def)
  have s1: "reader_ok s1" "st_cache s1 = Some (d, k)" "cur_reader s1 = addr_upd c y q1"
    using assms(3) by (simp_all add: s1_def reader_ok_def)
  have dt: "run (Suc (Suc m')) ch e (CExtract dt_id) s1 acc =
              Some (map_sum (\<lambda>err. (err, s1)) (\<lambda>(q', acc'). (set_reader (addr_upd c y q') s1, acc'))
                (read_dt_loop q1 (ch_cycle_count ch) (cr_start_offset q) acc))"
    using assms(1) s1
    by (cases "read_dt_loop q1 (ch_cycle_count ch) (cr_start_offset q) acc")
       (auto simp: extract_sample_def read_fixed_def read_dt_def load_if_uncached_def
                   read_dt_loop_addr_upd restore_outcome_def q1_def)
  have top: "run m ch e (CExtract dz_id) s acc = restore_outcome s (read_data_zipped (run (Suc (Suc m')) ch e) e s acc)"
    using assms(1) by (simp add: m extract_sample_def read_fixed_def block_ids_distinct block_ids_distinct [THEN not_sym])
  have zr: "zipped_read (ch_cycle_count ch) (inflated_at e c) q acc = read_dt_loop q1 (ch_cycle_count ch) (cr_start_offset q) acc"
    by (simp add: zipped_read_def q1_def d_def k_def)
  show ?thesis
    unfolding top zipped dt child_ok_def zr
    using assms(3,4) s1(1)
    by (cases "read_dt_loop q1 (ch_cycle_count ch) (cr_start_offset q) acc")
       (auto simp: restore_outcome_def s1_def reader_ok_def)
qed
lemma read_slices_start_buffer:
  "bs \<noteq> [] \<Longrightarrow> read_slices (r\<lparr>cr_measure_buffer := x, cr_buffer_spare := k'\<rparr>) k bs acc = read_slices r k bs acc"
  by (cases bs) simp_all

lemma load_channel_reader_cache:
  "load_channel_reader ch c a = (load_channel_reader ch None a)\<lparr>cr_measure_buffer := case c of None \<Rightarrow> [] | Some b \<Rightarrow> fst b,
                                  cr_buffer_spare := case c of None \<Rightarrow> 0 | Some b \<Rightarrow> snd b\<rparr>"
  by (simp add: load_channel_reader_def)

lemma chain_reads_zipped:
  "chain_reads (\<lambda>c. zipped_read K (D c)) q cs acc = read_slices q K (map D cs) acc"
  by (induction cs arbitrary: q acc) (simp_all add: zipped_read_def split_def)

text \<open>C2: A header list over a chain of data lists of DZ blocks that replace DT blocks yields, given enough fuel, what the record reader yields on the inflated payloads in chain order, each read as the slice io.ReadAll returned (its bytes and its spare capacity).\<close>

theorem extract_hl_chain_dz:
  assumes "\<not> ch_vlsd ch" "reader_ok s"
    "env_file e (cr_data_address (cur_reader s)) = Some (HLBlock a)"
    "env_file e a = Some (DLBlock nxt cnt ls)" "ls \<noteq> []" "cnt \<le> length ls"
    "dl_chain e nxt lss" "\<forall>c \<in> set (concat (ls # lss)). is_dz_at e c"
    "5 * length (concat (ls # lss)) + 6 < m"
  shows "map_option (map_sum fst snd) (run m ch e (CExtract hl_id) s acc)
           = Some (map_sum id snd (read_slices (load_channel_reader ch None (hd ls)) (ch_cycle_count ch)
                                     (map (inflated_at e) (concat (ls # lss))) acc))"
proof -
  obtain m' where m: "m = Suc (Suc (Suc (Suc (Suc (Suc m')))))" and fuel: "5 * length (concat (ls # lss)) < m'"
    using assms(9) by (cases m; cases "m - 1"; cases "m - 2"; cases "m - 3"; cases "m - 4"; cases "m - 5") auto
  let ?G = "\<lambda>s. reader_ok s \<and> st_compressed_hl s = True"
  let ?r0 = "load_channel_reader ch (st_cache s) (hd ls)"
  define s' where "s' = (new_reader (load_channel_reader ch (st_cache s) a) s)\<lparr>st_compressed_hl := True\<rparr>"
  define dtl where "dtl = \<lparr>dl_next = nxt, dl_count = cnt, dl_links = ls\<rparr>"
  have s': "reader_ok s'" "st_compressed_hl s'" "cr_data_address (cur_reader s') = a" "st_cache s' = st_cache s"
    by (simp_all add: s'_def reader_ok_def new_reader_def cur_reader_def load_channel_reader_def)
  have hd: "hd ls \<in> set (concat (ls # lss))" using assms(5) by simp
  have hdr: "get_header_id e (hd ls) = Inr dz_id"
    using assms(8) hd by (simp add: is_dz_at_header)
  have loop: "map_option (map_sum fst snd) (run m' ch e (CDLLoop dz_id dtl 0) (new_reader ?r0 s') acc)
        = Some (map_sum id snd (chain_reads (\<lambda>c. zipped_read (ch_cycle_count ch) (inflated_at e c)) ?r0
                                  (drop 0 (dl_links dtl) @ concat lss) acc))"
  proof (rule run_dl_loop [where G = ?G and hl = True and k = 5 and x = "hd ls" and y = 0 and stop = 0])
    show "\<forall>c \<in> set (drop 0 (dl_links dtl) @ concat lss). (if True then get_header_id e c else Inr dz_id) = Inr dz_id"
      using assms(8) by (auto simp: dtl_def is_dz_at_header)
    show "\<And>c s y q m acc. c \<in> set (drop 0 (dl_links dtl) @ concat lss) \<Longrightarrow>
            ?G s \<Longrightarrow> cur_reader s = addr_upd c y q \<Longrightarrow> 5 \<le> m \<Longrightarrow>
            child_ok ?G (zipped_read (ch_cycle_count ch) (inflated_at e c)) q c y acc (run m ch e (CExtract dz_id) s acc)"
      using assms(1,8) by (auto simp: dtl_def intro!: child_ok_dz [where hl = True, simplified])
    show "cur_reader (new_reader ?r0 s') = addr_upd (hd ls) 0 ?r0"
      by (simp flip: load_channel_reader_addr_upd)
  qed (use assms fuel s' in \<open>auto simp: dtl_def chain_stop_def dl_chain_path\<close>)
  have top: "run m ch e (CExtract hl_id) s acc =
               restore_outcome s (restore_outcome s' (read_data_list (run m' ch e) ch e s' acc))"
    using assms(1,3) by (simp add: m extract_sample_def read_fixed_def block_ids_distinct
      block_ids_distinct [THEN not_sym] read_header_list_def hl_new_def s'_def)
  have dl: "read_data_list (run m' ch e) ch e s' acc = run m' ch e (CDLLoop dz_id dtl 0) (new_reader ?r0 s') acc"
    using read_data_list_start [OF s'(1) _ assms(5) hdr] assms(4) s'(3,4) by (simp add: dtl_def)
  from loop show ?thesis
    unfolding top dl using assms(5)
    by (simp add: dtl_def load_channel_reader_cache [of ch "st_cache s"] read_slices_start_buffer chain_reads_zipped)
qed

lemma sd_record_config [simp]:
  "sd_record (addr_upd x y r) d k = sd_record r d k"
  "sd_record (r\<lparr>cr_measure_buffer := b\<rparr>) d k = sd_record r d k"
  "sd_record (r\<lparr>cr_buffer_spare := k'\<rparr>) d k = sd_record r d k"
  "sd_record (loaded b r) d k = sd_record r d k"
  by (simp_all add: sd_record_def addr_upd_def loaded_def)

lemma is_sd_atD: "is_sd_at e a \<Longrightarrow> env_file e a = Some (DataBlock sd_id (data_at e a))"
  by (auto simp: is_sd_at_def data_at_def split: option.splits block.splits)

text \<open>One SD child, read through \<open>extractSample\<close> of a variable-length channel.\<close>

lemma child_ok_sd:
  assumes "ch_vlsd ch" "is_sd_at e c" "reader_ok s" "st_cache s = None" "\<not> st_compressed_hl s"
    "cur_reader s = addr_upd c y q" "2 \<le> m"
  shows "child_ok (\<lambda>s. reader_ok s \<and> st_cache s = None \<and> \<not> st_compressed_hl s)
           (sd_read (data_at e c)) q c y acc (run m ch e (CExtract sd_id) s acc)"
proof -
  obtain m' where m: "m = Suc (Suc m')" using assms(7) by (metis add_2_eq_Suc le_Suc_ex)
  define q1 where "q1 = loaded (data_at e c) q"
  define s1 where "s1 = set_reader (addr_upd c y q1) s"
  have load: "load_if_uncached e s = Inr s1"
    using assms(3,4,6) is_sd_atD [OF assms(2)] by (simp add: load_if_uncached_def read_block_to_memory_data s1_def q1_def)
  have s1: "reader_ok s1" "st_cache s1 = None" "\<not> st_compressed_hl s1" "cur_reader s1 = addr_upd c y q1"
    using assms(3-5) by (simp_all add: s1_def)
  have run: "run m ch e (CExtract sd_id) s acc = Some (read_sd_block e s acc)"
    using assms(1) by (simp add: m extract_sample_def read_vlsd_def block_ids_distinct [THEN not_sym])
  show ?thesis
    unfolding run read_sd_block_record load using s1
    by (cases "sd_record q (data_at e c) (cr_buffer_spare q1)")
       (auto simp: child_ok_def sd_read_def q1_def Let_def)
qed

lemma chain_reads_sd:
  "cr_buffer_spare q = 0 \<Longrightarrow> map_sum id snd (chain_reads (\<lambda>c. sd_read (D c)) q cs acc)
     = map_sum id (\<lambda>vs. acc @ vs) (mapE (\<lambda>c. sd_record q (D c) 0) cs)"
proof (induction cs arbitrary: q acc)
  case (Cons c cs)
  have q: "cr_buffer_spare (loaded (D c) q) = 0" using Cons.prems by (simp add: loaded_def)
  show ?case
    using Cons.IH [OF q] Cons.prems
    by (cases "sd_record q (D c) 0"; cases "mapE (\<lambda>c. sd_record q (D c) 0) cs") (simp_all add: sd_read_def Let_def q)
qed simp

text \<open>C13: A variable-length channel whose data is a chain of data lists with SD children (non-empty lists, Count at most the links) yields, given enough fuel, one sample per SD block in chain order, each the decode of the block's first length-prefixed record; the first block whose record does not decode stops the walk with its error.\<close>

theorem extract_dl_chain_sd:
  assumes "ch_vlsd ch" "reader_ok s" "st_cache s = None" "\<not> st_compressed_hl s"
    "env_file e (cr_data_address (cur_reader s)) = Some (DLBlock nxt cnt ls)" "ls \<noteq> []" "cnt \<le> length ls"
    "dl_chain e nxt lss" "\<forall>c \<in> set (concat (ls # lss)). is_sd_at e c"
    "2 * length (concat (ls # lss)) + 3 < m"
  shows "map_option (map_sum fst snd) (run m ch e (CExtract dl_id) s acc)
           = Some (map_sum id (\<lambda>vs. acc @ vs)
                     (mapE (\<lambda>c. sd_record (load_channel_reader ch None (hd ls)) (data_at e c) 0) (concat (ls # lss))))"
proof -
  obtain m' where m: "m = Suc (Suc (Suc m'))" and fuel: "2 * length (concat (ls # lss)) < m'"
    using assms(10) by (cases m; cases "m - 1"; cases "m - 2") auto
  let ?G = "\<lambda>s. reader_ok s \<and> st_cache s = None \<and> \<not> st_compressed_hl s"
  let ?r0 = "load_channel_reader ch None (hd ls)"
  have hd: "hd ls \<in> set (concat (ls # lss))" using assms(6) by simp
  have hdr: "get_header_id e (hd ls) = Inr sd_id"
    using is_sd_atD [of e "hd ls"] assms(9) hd by (simp add: get_header_id_def)
  define dtl where "dtl = \<lparr>dl_next = nxt, dl_count = cnt, dl_links = ls\<rparr>"
  have "map_option (map_sum fst snd) (run m' ch e (CDLLoop sd_id dtl 0) (new_reader ?r0 s) acc)
        = Some (map_sum id snd (chain_reads (\<lambda>c. sd_read (data_at e c)) ?r0 (drop 0 (dl_links dtl) @ concat lss) acc))"
  proof (rule run_dl_loop [where G = ?G and hl = False and k = 2 and x = "hd ls" and y = 0 and stop = 0])
    show "\<And>c s y q m acc. c \<in> set (drop 0 (dl_links dtl) @ concat lss) \<Longrightarrow>
            ?G s \<Longrightarrow> cur_reader s = addr_upd c y q \<Longrightarrow> 2 \<le> m \<Longrightarrow>
            child_ok ?G (sd_read (data_at e c)) q c y acc (run m ch e (CExtract sd_id) s acc)"
      using assms(1,9) by (auto simp: dtl_def intro!: child_ok_sd)
    show "cur_reader (new_reader ?r0 s) = addr_upd (hd ls) 0 ?r0"
      by (simp flip: load_channel_reader_addr_upd)
  qed (use assms fuel in \<open>auto simp: dtl_def chain_stop_def dl_chain_path\<close>)
  then show ?thesis
    using assms(1-6) hdr
    by (simp add: m dtl_def extract_sample_def read_vlsd_def block_ids_distinct block_ids_distinct [THEN not_sym]
      read_data_list_start chain_reads_sd)
qed

text \<open>A zipped block that claims to replace a zipped block is inflated again and again.\<close>

lemma dz_loop_None:
  assumes "\<not> ch_vlsd ch" "env_inflate e z = Inr d"
  shows "reader_ok s \<Longrightarrow> env_file e (cr_data_address (cur_reader s)) = Some (DZBlock dz_id zt ol z) \<Longrightarrow>
         run n ch e CZipped s acc = None \<and> run n ch e (CExtract dz_id) s acc = None \<and>
         run n ch e (CFixed dz_id) s acc = None"
proof (induction n arbitrary: s)
  case 0
  then show ?case by simp
next
  case (Suc n)
  define s1 where "s1 = set_reader ((cur_reader s)\<lparr>cr_measure_buffer := d, cr_buffer_spare := env_read_all_spare e (length d)\<rparr>)
                              (s\<lparr>st_cache := Some (d, env_read_all_spare e (length d))\<rparr>)"
  have s1: "reader_ok s1" "env_file e (cr_data_address (cur_reader s1)) = Some (DZBlock dz_id zt ol z)"
    using Suc.prems by (simp_all add: s1_def reader_ok_def)
  have "run (Suc n) ch e CZipped s acc = run n ch e (CExtract dz_id) s1 acc"
    using Suc.prems assms(2) by (simp add: read_data_zipped_def dz_new_def dz_read_inflate s1_def Let_def)
  moreover have "run (Suc n) ch e (CExtract dz_id) s acc = restore_outcome s (run n ch e (CFixed dz_id) s acc)"
    using assms(1) by (simp add: extract_sample_def)
  moreover have "run (Suc n) ch e (CFixed dz_id) s acc = run n ch e CZipped s acc"
    by (simp add: read_fixed_def block_ids_distinct [THEN not_sym])
  ultimately show ?case using Suc.IH [OF Suc.prems] Suc.IH [OF s1] by (simp add: restore_outcome_def)
qed

text \<open>C15: A zipped block whose header claims it replaces a zipped block (and whose payload inflates) is re-inflated without end: the dispatcher returns for no fuel.\<close>

theorem dz_self_reference_diverges:
  assumes "\<not> ch_vlsd ch" "reader_ok s" "env_file e (cr_data_address (cur_reader s)) = Some (DZBlock dz_id zt ol z)"
    "env_inflate e z = Inr d"
  shows "run n ch e (CExtract dz_id) s acc = None"
  using dz_loop_None [OF assms(1,4) assms(2,3)] by simp

text \<open>C20: A VLSD channel whose block is a bare DT block returns success with no samples, where the spec requires a not-yet-supported error.\<close>

theorem vlsd_bare_dt_no_samples:
  assumes "ch_vlsd ch"
  shows "run (Suc (Suc n)) ch e (CExtract dt_id) s acc = Some (Inr (s, acc))"
  using assms by (simp add: extract_sample_def read_vlsd_def)

text \<open>\<open>readSdBlock\<close> appends exactly one sample per SD block, however many records it holds.\<close>

theorem read_sd_block_one_record:
  assumes "read_sd_block e s acc = Inr (s', vs)"
  shows "length vs = Suc (length acc)"
  using assms by (auto simp: read_sd_block_def bindE_eq_Inr_iff Let_def)

section \<open>Witnesses\<close>

theorem extract_dl_chain_dt_witness:
  "map_option (map_sum fst snd) (run 20 ex_channel ex_env (CExtract dl_id) (ex_state ex_channel 100) [])
     = Some (map_sum id snd (read_blocks (load_channel_reader ex_channel None (hd [300])) (ch_cycle_count ex_channel)
                              (map (data_at ex_env) (concat ([300] # [[400]]))) []))"
  by (rule extract_dl_chain_dt [where nxt = 200 and cnt = 1])
     (simp_all add: ex_defs is_dt_at_def)

theorem extract_hl_chain_dz_witness:
  "map_option (map_sum fst snd) (run 30 ex_channel ex_env (CExtract hl_id) (ex_state ex_channel 500) [])
     = Some (map_sum id snd (read_slices (load_channel_reader ex_channel None (hd [700, 800])) (ch_cycle_count ex_channel)
                              (map (inflated_at ex_env) (concat ([700, 800] # []))) []))"
  by (rule extract_hl_chain_dz [where a = 600 and nxt = 0 and cnt = 2])
     (simp_all add: ex_defs is_dz_at_def)

theorem dz_self_reference_diverges_witness:
  "run 50 ex_channel ex_env (CExtract dz_id) (ex_state ex_channel 900) [] = None"
  by (rule dz_self_reference_diverges [where zt = 0 and z = "[9]" and d = "[0]"]) (simp_all add: ex_defs)

theorem vlsd_bare_dt_no_samples_witness:
  "run 2 (ex_channel\<lparr>ch_vlsd := True\<rparr>) ex_env (CExtract dt_id) (ex_state ex_channel 300) []
     = Some (Inr (ex_state ex_channel 300, []))"
  using vlsd_bare_dt_no_samples [of "ex_channel\<lparr>ch_vlsd := True\<rparr>" 0] by (simp add: numeral_2_eq_2)

theorem read_sd_block_one_record_witness:
  "\<exists>s' vs. read_sd_block ex_env (ex_state (ex_channel\<lparr>ch_vlsd := True, ch_data_type := TString\<rparr>) 1000) [] = Inr (s', vs)
     \<and> length vs = 1"
proof -
  have "\<exists>s' vs. read_sd_block ex_env (ex_state (ex_channel\<lparr>ch_vlsd := True, ch_data_type := TString\<rparr>) 1000) [] = Inr (s', vs)"
    by (simp add: ex_defs read_sd_block_def load_if_uncached_def read_block_to_memory_def load_buffer_def
      get_length_def read_block_from_file_def le_uint32_def be_nat_def set_reader_def Let_def)
  then obtain s' vs where r: "read_sd_block ex_env (ex_state (ex_channel\<lparr>ch_vlsd := True, ch_data_type := TString\<rparr>) 1000) [] = Inr (s', vs)"
    by blast
  show ?thesis using r read_sd_block_one_record [OF r] by simp
qed

theorem dl_empty_node_truncates_chain_witness:
  "\<not> ch_vlsd ex_channel \<and> reader_ok (ex_state ex_channel 1400) \<and> st_cache (ex_state ex_channel 1400) = None
   \<and> \<not> st_compressed_hl (ex_state ex_channel 1400)
   \<and> env_file ex_env (cr_data_address (cur_reader (ex_state ex_channel 1400))) = Some (DLBlock 1500 1 [300])
   \<and> [300] \<noteq> [] \<and> 1 \<le> length [300 :: addr] \<and> dl_path ex_env 1500 [] 1500
   \<and> env_file ex_env 1500 = Some (DLBlock 1600 0 []) \<and> (1500 :: addr) \<noteq> 0
   \<and> dl_chain ex_env 1600 [[400]] \<and> [[400 :: addr]] \<noteq> [] \<and> is_dt_at ex_env 300
   \<and> map_option (map_sum fst snd) (run 20 ex_channel ex_env (CExtract dl_id) (ex_state ex_channel 1400) [])
     = Some (Inr [VUInt16 1, VUInt16 2])"
proof -
  have h: "\<not> ch_vlsd ex_channel" "reader_ok (ex_state ex_channel 1400)" "st_cache (ex_state ex_channel 1400) = None"
    "\<not> st_compressed_hl (ex_state ex_channel 1400)"
    "env_file ex_env (cr_data_address (cur_reader (ex_state ex_channel 1400))) = Some (DLBlock 1500 1 [300])"
    "[300] \<noteq> []" "1 \<le> length [300 :: addr]" "dl_path ex_env 1500 [] 1500"
    "env_file ex_env 1500 = Some (DLBlock 1600 0 [])" "(1500 :: addr) \<noteq> 0"
    "dl_chain ex_env 1600 [[400]]" "[[400 :: addr]] \<noteq> []"
    "\<forall>c \<in> set (concat [[300 :: addr]]). is_dt_at ex_env c" "2 * length (concat [[300 :: addr]]) + 3 < (20::nat)"
    by (simp_all add: ex_defs is_dt_at_def)
  have "map_sum id snd (read_blocks (load_channel_reader ex_channel None (hd [300])) (ch_cycle_count ex_channel)
          (map (data_at ex_env) (concat [[300]])) []) = Inr [VUInt16 1, VUInt16 2]"
    by (simp add: ex_defs data_at_def read_dt_loop_numeral read_datablock_numeric field_nat_def be_nat_def
      buffer_exhausted_def)
  then show ?thesis using h dl_empty_node_truncates_chain [OF h, of "[]"] by (simp add: is_dt_at_def ex_defs)
qed

theorem extract_dl_chain_sd_witness:
  "ch_vlsd (ex_channel\<lparr>ch_vlsd := True, ch_data_type := TString\<rparr>)
   \<and> reader_ok (ex_state ex_channel 2300) \<and> st_cache (ex_state ex_channel 2300) = None
   \<and> \<not> st_compressed_hl (ex_state ex_channel 2300)
   \<and> env_file ex_env (cr_data_address (cur_reader (ex_state ex_channel 2300))) = Some (DLBlock 2400 1 [2310])
   \<and> [2310] \<noteq> [] \<and> 1 \<le> length [2310 :: addr] \<and> dl_chain ex_env 2400 [[2320]]
   \<and> is_sd_at ex_env 2310 \<and> is_sd_at ex_env 2320
   \<and> map_option (map_sum fst snd)
       (run 8 (ex_channel\<lparr>ch_vlsd := True, ch_data_type := TString\<rparr>) ex_env (CExtract dl_id) (ex_state ex_channel 2300) [])
     = Some (Inr [VString [0x41, 0x42], VString [0x44]])"
proof -
  let ?ch = "ex_channel\<lparr>ch_vlsd := True, ch_data_type := TString\<rparr>"
  have h: "ch_vlsd ?ch" "reader_ok (ex_state ex_channel 2300)" "st_cache (ex_state ex_channel 2300) = None"
    "\<not> st_compressed_hl (ex_state ex_channel 2300)"
    "env_file ex_env (cr_data_address (cur_reader (ex_state ex_channel 2300))) = Some (DLBlock 2400 1 [2310])"
    "[2310] \<noteq> []" "1 \<le> length [2310 :: addr]" "dl_chain ex_env 2400 [[2320]]"
    "\<forall>c \<in> set (concat [[2310], [2320]]). is_sd_at ex_env c" "2 * length (concat [[2310 :: addr], [2320]]) + 3 < (8::nat)"
    by (simp_all add: ex_defs is_sd_at_def)
  have "mapE (\<lambda>c. sd_record (load_channel_reader ?ch None (hd [2310])) (data_at ex_env c) 0) (concat [[2310], [2320]])
          = Inr [VString [0x41, 0x42], VString [0x44]]"
    by (simp add: ex_defs sd_record_def data_at_def go_slice_def le_uint32_def be_nat_def)
  then show ?thesis using h extract_dl_chain_sd [OF h, of "[]"] by simp
qed

end
