(* ===== verification/Orchestrator.thy ===== *)
theory Orchestrator
  imports Dispatcher
begin

text \<open>
  The entry points of \<open>src/channel.go\<close>: \<open>loadDataAdress\<close>, \<open>RawSample\<close>,
  \<open>applyConversion\<close> and \<open>Sample\<close> (with its sample cache), and the invalidation-bit
  reader \<open>readInvalidationBit\<close> with its getters. \<open>RawSample\<close> resolves the start
  address, classifies the block there, points the channel at a fresh reader and runs the
  dispatcher with an empty sample slice; \<open>Sample\<close> returns the cached samples when there
  are any and otherwise converts and (unless the file is memory-optimized) caches what
  \<open>RawSample\<close> returns.
\<close>

section \<open>Raw samples\<close>

text \<open>\<open>loadDataAdress\<close>: the channel's own data link, or the data group's.\<close>

definition load_data_adress :: "channel \<Rightarrow> ch_state \<Rightarrow> ch_state" where
  "load_data_adress ch s =
     s\<lparr>st_start_address := (if ch_link_data ch \<noteq> 0 then ch_link_data ch else ch_dg_data_address ch)\<rparr>"

text \<open>
  \<open>RawSample\<close>: an error returns \<open>nil\<close> and the error; the state reached stays with the
  channel (its reader, its start address, the group cache).
\<close>

definition raw_sample :: "nat \<Rightarrow> channel \<Rightarrow> env \<Rightarrow> ch_state \<Rightarrow> outcome" where
  "raw_sample n ch e s =
     (let s1 = load_data_adress ch s in
      case get_header_id e (st_start_address s1) of
        Inl err \<Rightarrow> Some (Inl (err, s1))
      | Inr bid \<Rightarrow>
          run n ch e (CExtract bid)
            (new_reader (load_channel_reader ch (st_cache s1) (st_start_address s1)) s1) [])"

section \<open>Conversion and the sample cache\<close>

text \<open>\<open>applyConversion\<close>: no conversion leaves the samples and the flag alone.\<close>

definition apply_conversion :: "channel \<Rightarrow> ch_state \<Rightarrow> measure_value list \<Rightarrow> measure_value list \<times> ch_state" where
  "apply_conversion ch s vs =
     (case ch_conversion ch of
        None \<Rightarrow> (vs, s)
      | Some f \<Rightarrow> (f vs, s\<lparr>st_is_converted := True\<rparr>))"

text \<open>\<open>Sample\<close>.\<close>

definition sample :: "nat \<Rightarrow> channel \<Rightarrow> env \<Rightarrow> ch_state \<Rightarrow> outcome" where
  "sample n ch e s =
     (case st_cached_samples s of
        Some cs \<Rightarrow>
          (let (cs', s1) = (if \<not> st_is_converted s then apply_conversion ch s cs else (cs, s))
           in Some (Inr (s1\<lparr>st_cached_samples := Some cs'\<rparr>, cs')))
      | None \<Rightarrow>
          bindR (raw_sample n ch e s)
            (\<lambda>(s1, vs).
               let (vs', s2) = apply_conversion ch s1 vs
               in Some (Inr (if \<not> ch_memory_optimized ch then s2\<lparr>st_cached_samples := Some vs'\<rparr> else s2, vs'))))"

section \<open>Invalidation bit\<close>

text \<open>
  \<open>getInvalidationBitStart\<close>: record-ID bytes plus data bytes, the getters
  \<open>getRecordIDSize\<close> and \<open>getDataBytes\<close> read from the DG and CG blocks.
\<close>

definition get_invalidation_bit_start :: "channel \<Rightarrow> nat" where
  "get_invalidation_bit_start ch = ch_record_id_size ch + ch_data_bytes ch"

text \<open>\<open>blocks.IsBitSet(n, pos)\<close>: bit \<open>pos\<close> of \<open>n\<close>.\<close>

definition is_bit_set :: "nat \<Rightarrow> nat \<Rightarrow> bool" where
  "is_bit_set n p = bit n p"

text \<open>
  \<open>readInvalidationBit(file)\<close> on a file of bytes with its read cursor: seek forward by
  the start from the \<^emph>\<open>current\<close> position, read one byte (past the end: \<open>io.EOF\<close>), and
  test bit \<open>InvalBitPos() & 7\<close> of it. Returns the flag and the new cursor.
\<close>

definition read_invalidation_bit :: "byte list \<Rightarrow> nat \<Rightarrow> channel \<Rightarrow> error + (bool \<times> nat)" where
  "read_invalidation_bit fb cur ch =
     (let a = cur + get_invalidation_bit_start ch in
      if a < length fb
      then Inr (is_bit_set (unat (fb ! a)) (ch_inval_bit_pos ch mod 8), Suc a)
      else Inl ErrIO)"

text \<open>
  The invalidation bit as MDF 4 defines it: bit \<open>pos\<close> of the invalidation bytes that follow
  the record's data bytes, i.e. bit \<open>pos mod 8\<close> of invalidation byte \<open>pos div 8\<close>.
\<close>

definition inval_bit_spec :: "byte list \<Rightarrow> nat \<Rightarrow> channel \<Rightarrow> error + bool" where
  "inval_bit_spec fb cur ch =
     (let a = cur + get_invalidation_bit_start ch + ch_inval_bit_pos ch div 8 in
      if a < length fb then Inr (bit (unat (fb ! a)) (ch_inval_bit_pos ch mod 8)) else Inl ErrIO)"

section \<open>Example channels\<close>

text \<open>
  Two channels of one data group over the example file of \<open>Dispatcher\<close>: a VLSD string
  channel whose signal data is the zipped SD block at 1100, and a \<open>uint16\<close> channel whose
  records are the DT block at 300.
\<close>

definition ex_vlsd_channel :: channel where
  "ex_vlsd_channel = ex_channel\<lparr>ch_vlsd := True, ch_data_type := TString, ch_link_data := 1100\<rparr>"

definition ex_dt_channel :: channel where
  "ex_dt_channel = ex_channel\<lparr>ch_dg_data_address := 300\<rparr>"

section \<open>Lemmas\<close>

lemma raw_sample_frame:
  assumes "raw_sample n ch e s = Some (Inr (s', vs))"
  shows "st_cached_samples s' = st_cached_samples s \<and> st_is_converted s' = st_is_converted s"
proof -
  let ?s1 = "load_data_adress ch s"
  obtain bid where bid: "get_header_id e (st_start_address ?s1) = Inr bid"
    using assms by (cases "get_header_id e (st_start_address ?s1)") (simp_all add: raw_sample_def)
  let ?s2 = "new_reader (load_channel_reader ch (st_cache ?s1) (st_start_address ?s1)) ?s1"
  have "outcome_ok ?s2 [] (run n ch e (CExtract bid) ?s2 [])"
    by (rule rec_okD [OF run_ok]) simp
  moreover have "run n ch e (CExtract bid) ?s2 [] = Some (Inr (s', vs))"
    using assms bid by (simp add: raw_sample_def Let_def)
  ultimately have "frame ?s2 s'" by (simp add: outcome_ok_def)
  then show ?thesis by (simp add: frame_def new_reader_def load_data_adress_def)
qed

lemma apply_conversion_cases:
  "apply_conversion ch s vs = (vs, s) \<and> ch_conversion ch = None
   \<or> (\<exists>f. ch_conversion ch = Some f \<and> apply_conversion ch s vs = (f vs, s\<lparr>st_is_converted := True\<rparr>))"
  by (cases "ch_conversion ch") (simp_all add: apply_conversion_def)

lemma sample_computed:
  assumes "st_cached_samples s = None" "sample n ch e s = Some (Inr (s', vs))"
  obtains s1 raw where "raw_sample n ch e s = Some (Inr (s1, raw))"
    "vs = fst (apply_conversion ch s1 raw)"
    "s' = (if \<not> ch_memory_optimized ch
           then (snd (apply_conversion ch s1 raw))\<lparr>st_cached_samples := Some vs\<rparr>
           else snd (apply_conversion ch s1 raw))"
proof (cases "raw_sample n ch e s")
  case (Some r)
  then show ?thesis using assms that
    by (cases r) (auto simp: sample_def split: prod.splits)
qed (use assms in \<open>simp add: sample_def\<close>)

lemma sample_cached_hit:
  assumes "st_cached_samples s = Some cs" "st_is_converted s \<or> ch_conversion ch = None"
  shows "sample n ch e s = Some (Inr (s, cs))"
  using assms by (auto simp: sample_def apply_conversion_def)

text \<open>C5: When the file is not memory-optimized, a successful Sample leaves a state on which Sample returns the same samples and the same state for any fuel and any file: the cache is hit and the conversion is not applied twice.\<close>

theorem sample_idempotent:
  assumes "\<not> ch_memory_optimized ch" "sample n ch e s = Some (Inr (s', vs))"
  shows "sample m ch e' s' = Some (Inr (s', vs))"
proof -
  have "st_cached_samples s' = Some vs \<and> (st_is_converted s' \<or> ch_conversion ch = None)"
  proof (cases "st_cached_samples s")
    case (Some cs)
    then show ?thesis using assms(2)
      by (cases "ch_conversion ch") (auto simp: sample_def apply_conversion_def split: if_splits)
  next
    case None
    obtain s1 raw where "raw_sample n ch e s = Some (Inr (s1, raw))"
      "vs = fst (apply_conversion ch s1 raw)"
      "s' = (if \<not> ch_memory_optimized ch
             then (snd (apply_conversion ch s1 raw))\<lparr>st_cached_samples := Some vs\<rparr>
             else snd (apply_conversion ch s1 raw))"
      using None assms(2) by (rule sample_computed)
    then show ?thesis using assms(1)
      by (cases "ch_conversion ch") (auto simp: apply_conversion_def)
  qed
  then show ?thesis by (auto intro: sample_cached_hit)
qed

text \<open>C19: In a memory-optimized file, Sample on a channel without cached samples never populates the sample cache (as the spec requires; the comment on CachedSamples says the opposite).\<close>

theorem sample_memory_optimized_no_cache:
  assumes "ch_memory_optimized ch" "st_cached_samples s = None" "sample n ch e s = Some (Inr (s', vs))"
  shows "st_cached_samples s' = None"
proof -
  obtain s1 raw where raw: "raw_sample n ch e s = Some (Inr (s1, raw))"
    and s': "s' = (if \<not> ch_memory_optimized ch
             then (snd (apply_conversion ch s1 raw))\<lparr>st_cached_samples := Some vs\<rparr>
             else snd (apply_conversion ch s1 raw))"
    using assms(2,3) by (rule sample_computed)
  then have "st_cached_samples s1 = None" using raw_sample_frame assms(2) by simp
  then show ?thesis using assms(1) s'
    by (cases "ch_conversion ch") (auto simp: apply_conversion_def)
qed

text \<open>C14: For a fixed-length channel whose start block is a DT block, when the data group cache is set, RawSample decodes the cached slice (its bytes, with its capacity) and never reads the block: the result depends on the cache only.\<close>

theorem raw_sample_reads_group_cache:
  assumes "\<not> ch_vlsd ch" "st_cache s = Some b"
    "get_header_id e (st_start_address (load_data_adress ch s)) = Inr dt_id"
  shows "map_option (map_sum fst snd) (raw_sample (Suc (Suc n)) ch e s)
           = Some (map_sum id snd (read_dt_loop (load_channel_reader ch (Some b) (st_start_address (load_data_adress ch s)))
                                     (ch_cycle_count ch) (ch_byte_offset ch + ch_record_id_size ch) []))"
proof -
  let ?s1 = "load_data_adress ch s"
  let ?r = "load_channel_reader ch (Some b) (st_start_address ?s1)"
  have c: "st_cache ?s1 = Some b" using assms(2) by (simp add: load_data_adress_def)
  show ?thesis
    using assms(1,3) c
    by (cases "read_dt_loop ?r (ch_cycle_count ch) (ch_byte_offset ch + ch_record_id_size ch) []")
       (auto simp: raw_sample_def extract_sample_def read_fixed_def read_dt_def load_if_uncached_def
                   restore_outcome_def load_channel_reader_def Let_def)
qed

lemmas ex_orch_defs = ex_defs ex_vlsd_channel_def ex_dt_channel_def raw_sample_def load_data_adress_def
  get_header_id_def extract_sample_def read_fixed_def read_vlsd_def read_dt_def load_if_uncached_def
  read_block_to_memory_def load_buffer_def get_length_def read_block_from_file_def restore_outcome_def
  new_reader_def set_reader_def read_data_zipped_def dz_new_def dz_read_inflate read_sd_block_def le_uint32_def
  read_dt_loop_numeral read_datablock_numeric field_nat_def be_nat_def Let_def run_numeral
  block_ids_distinct block_ids_distinct [THEN not_sym] buffer_exhausted_def restore_def

text \<open>C24: readInvalidationBit reads only the first invalidation byte: its result depends on InvalBitPos only through InvalBitPos & 7, so a bit in a later invalidation byte (position 8 or more) is never consulted; for positions below 8 it is the MDF invalidation bit.\<close>

theorem read_invalidation_bit_low_bits:
  "read_invalidation_bit fb cur ch = read_invalidation_bit fb cur (ch\<lparr>ch_inval_bit_pos := ch_inval_bit_pos ch mod 8\<rparr>)
   \<and> (ch_inval_bit_pos ch < 8 \<longrightarrow> map_sum id fst (read_invalidation_bit fb cur ch) = inval_bit_spec fb cur ch)"
  by (simp add: read_invalidation_bit_def inval_bit_spec_def get_invalidation_bit_start_def is_bit_set_def Let_def)

section \<open>Witnesses\<close>

theorem sample_idempotent_witness:
  "\<exists>s' vs. sample 10 ex_dt_channel ex_env (ex_state ex_dt_channel 0) = Some (Inr (s', vs))
     \<and> sample 0 ex_dt_channel \<lparr>env_file = Map.empty, env_inflate = \<lambda>_. Inl ErrInflate, env_read_all_spare = \<lambda>_. 0\<rparr> s' = Some (Inr (s', vs))"
proof -
  have "\<exists>s' vs. sample 10 ex_dt_channel ex_env (ex_state ex_dt_channel 0) = Some (Inr (s', vs))"
    by (simp add: sample_def apply_conversion_def ex_orch_defs)
  then obtain s' vs where r: "sample 10 ex_dt_channel ex_env (ex_state ex_dt_channel 0) = Some (Inr (s', vs))"
    by blast
  have "\<not> ch_memory_optimized ex_dt_channel" by (simp add: ex_orch_defs)
  from sample_idempotent [OF this r] r show ?thesis by blast
qed

theorem sample_memory_optimized_no_cache_witness:
  "\<exists>s' vs. sample 10 (ex_dt_channel\<lparr>ch_memory_optimized := True\<rparr>) ex_env (ex_state ex_dt_channel 0) = Some (Inr (s', vs))
     \<and> st_cached_samples s' = None"
proof -
  have "\<exists>s' vs. sample 10 (ex_dt_channel\<lparr>ch_memory_optimized := True\<rparr>) ex_env (ex_state ex_dt_channel 0) = Some (Inr (s', vs))"
    by (simp add: sample_def apply_conversion_def ex_orch_defs)
  then obtain s' vs where r: "sample 10 (ex_dt_channel\<lparr>ch_memory_optimized := True\<rparr>) ex_env (ex_state ex_dt_channel 0) = Some (Inr (s', vs))"
    by blast
  have "ch_memory_optimized (ex_dt_channel\<lparr>ch_memory_optimized := True\<rparr>)" "st_cached_samples (ex_state ex_dt_channel 0) = None"
    by (simp_all add: ex_orch_defs)
  from sample_memory_optimized_no_cache [OF this r] r show ?thesis by blast
qed

theorem raw_sample_reads_group_cache_witness:
  "map_option (map_sum fst snd) (raw_sample 10 ex_dt_channel ex_env ((ex_state ex_dt_channel 0)\<lparr>st_cache := Some ([2, 0, 0, 0, 0x41, 0x42], 506)\<rparr>))
     = Some (map_sum id snd (read_dt_loop (load_channel_reader ex_dt_channel (Some ([2, 0, 0, 0, 0x41, 0x42], 506))
                                (st_start_address (load_data_adress ex_dt_channel ((ex_state ex_dt_channel 0)\<lparr>st_cache := Some ([2, 0, 0, 0, 0x41, 0x42], 506)\<rparr>))))
                              (ch_cycle_count ex_dt_channel) (ch_byte_offset ex_dt_channel + ch_record_id_size ex_dt_channel) []))"
  using raw_sample_reads_group_cache [of ex_dt_channel "(ex_state ex_dt_channel 0)\<lparr>st_cache := Some ([2, 0, 0, 0, 0x41, 0x42], 506)\<rparr>"
      "([2, 0, 0, 0, 0x41, 0x42], 506)" ex_env 8]
  by (simp add: ex_orch_defs)

theorem read_invalidation_bit_low_bits_witness:
  "read_invalidation_bit [0xAA, 0xBB, 0x00, 0x01] 0 (ex_channel\<lparr>ch_record_id_size := 0, ch_data_bytes := 2, ch_inval_bit_pos := 8\<rparr>)
     = read_invalidation_bit [0xAA, 0xBB, 0x00, 0x01] 0 (ex_channel\<lparr>ch_record_id_size := 0, ch_data_bytes := 2, ch_inval_bit_pos := 0\<rparr>)
   \<and> map_sum id fst (read_invalidation_bit [0xAA, 0xBB, 0x03, 0x01] 0 (ex_channel\<lparr>ch_record_id_size := 0, ch_data_bytes := 2, ch_inval_bit_pos := 1\<rparr>))
     = inval_bit_spec [0xAA, 0xBB, 0x03, 0x01] 0 (ex_channel\<lparr>ch_record_id_size := 0, ch_data_bytes := 2, ch_inval_bit_pos := 1\<rparr>)
   \<and> map_sum id fst (read_invalidation_bit [0xAA, 0xBB, 0x00, 0x01] 0 (ex_channel\<lparr>ch_record_id_size := 0, ch_data_bytes := 2, ch_inval_bit_pos := 8\<rparr>))
     = Inr False
   \<and> inval_bit_spec [0xAA, 0xBB, 0x00, 0x01] 0 (ex_channel\<lparr>ch_record_id_size := 0, ch_data_bytes := 2, ch_inval_bit_pos := 8\<rparr>) = Inr True"
proof -
  let ?fb = "[0xAA, 0xBB, 0x00, 0x01] :: byte list" and ?fb' = "[0xAA, 0xBB, 0x03, 0x01] :: byte list"
  let ?c = "\<lambda>p. ex_channel\<lparr>ch_record_id_size := 0, ch_data_bytes := 2, ch_inval_bit_pos := p\<rparr>"
  have a: "read_invalidation_bit ?fb 0 (?c 8) = read_invalidation_bit ?fb 0 (?c 0)"
    using read_invalidation_bit_low_bits [of ?fb 0 "?c 8"] by simp
  have b: "map_sum id fst (read_invalidation_bit ?fb' 0 (?c 1)) = inval_bit_spec ?fb' 0 (?c 1)"
    using read_invalidation_bit_low_bits [of ?fb' 0 "?c 1"] by simp
  have c: "map_sum id fst (read_invalidation_bit ?fb 0 (?c 8)) = Inr False"
    "inval_bit_spec ?fb 0 (?c 8) = Inr True"
    by (simp_all add: read_invalidation_bit_def inval_bit_spec_def get_invalidation_bit_start_def is_bit_set_def bit_iff_odd)
  show ?thesis using a b c by simp
qed

end
