(* ===== verification/Legacy.thy ===== *)
theory Legacy
  imports BitDecoder
begin

text \<open>
  The older reader of \<open>src/mf4.go\<close>: \<open>GetChannelSample\<close> looks the channel up by name
  in the channel groups, picks a Go type from the channel's data-type code and its byte
  size with \<open>loadDataType\<close>, and reads every record straight from the file with
  \<open>seekRead\<close> and \<open>binary.Read\<close>. The file is a byte sequence with a read cursor;
  \<open>seekRead\<close> ignores its errors, so a read past the end leaves the previous bytes in
  the buffer the loop reuses.
\<close>

section \<open>Channel groups\<close>

text \<open>\<open>CN.Block\<close> fields the reader uses.\<close>

record lcn =
  lcn_data_type :: nat
  lcn_byte_offset :: nat
  lcn_bit_offset :: nat
  lcn_bit_count :: nat

text \<open>\<open>ChannelGroup\<close> of \<open>mf4.go\<close>: the channels by name, the DG link and record-ID size, the CG record size and cycle count.\<close>

record lgroup =
  lg_channels :: "string \<rightharpoonup> lcn"
  lg_dg_data :: addr
  lg_rec_id_size :: nat
  lg_data_bytes :: nat
  lg_cycle_count :: nat

text \<open>\<open>blocks.HeaderSize\<close>: the 24-byte block header (tag, reserved, length, link count).\<close>

definition header_size :: nat where
  "header_size = 24"

section \<open>Reading\<close>

text \<open>\<open>loadDataType(dataType, lenSize)\<close>; \<open>None\<close> is the \<open>nil\<close> interface.\<close>

definition load_data_type :: "nat \<Rightarrow> nat \<Rightarrow> dtype option" where
  "load_data_type dt n =
     (if dt = 0 \<or> dt = 1 then
        (if n = 1 then Some TUInt8 else if n = 2 then Some TUInt16
         else if n = 4 then Some TUInt32 else if n = 8 then Some TUInt64 else None)
      else if dt = 2 \<or> dt = 3 then
        (if n = 1 then Some TInt8 else if n = 2 then Some TInt16
         else if n = 4 then Some TInt32 else if n = 8 then Some TInt64 else None)
      else if dt = 4 \<or> dt = 5 then
        (if n = 4 then Some TFloat32 else if n = 8 then Some TFloat64 else None)
      else None)"

text \<open>The byte order \<open>GetChannelSample\<close> picks from the data-type code.\<close>

definition legacy_byte_order :: "nat \<Rightarrow> byte_order" where
  "legacy_byte_order dt =
     (if dt = 0 \<or> dt = 2 \<or> dt = 4 \<or> dt = 8 \<or> dt = 15 then LittleEndian else BigEndian)"

text \<open>
  \<open>seekRead(file, readAddr, data)\<close>: \<open>Seek(readAddr, 0)\<close> fails on a negative offset
  and leaves the cursor; \<open>Read(data)\<close> copies what is left of the file, at most
  \<open>len(data)\<close> bytes, into the front of \<open>data\<close>. Both errors are printed and dropped.
  Returns the new cursor and buffer.
\<close>

definition seek_read :: "byte list \<Rightarrow> nat \<Rightarrow> int \<Rightarrow> byte list \<Rightarrow> nat \<times> byte list" where
  "seek_read fb cur a data =
     (let pos = (if 0 \<le> a then nat a else cur);
          got = take (length data) (drop pos fb)
      in (pos + length got, got @ drop (length got) data))"

text \<open>
  \<open>binary.Read(buf, order, *T)\<close> for the fixed-size types: the first \<open>size(T)\<close> bytes,
  in the given order; a shorter buffer is an unexpected EOF.
\<close>

definition binary_read :: "byte_order \<Rightarrow> dtype \<Rightarrow> byte list \<Rightarrow> error + measure_value" where
  "binary_read bo ty data =
     (let w = type_size ty;
          bs = take w data;
          n = (if bo = LittleEndian then be_nat (rev bs) else be_nat bs)
      in if length data < w then Inl ErrIO
         else (case ty of
                 TUInt8 \<Rightarrow> Inr (VUInt8 (word_of_nat n)) | TInt8 \<Rightarrow> Inr (VInt8 (word_of_nat n))
               | TUInt16 \<Rightarrow> Inr (VUInt16 (word_of_nat n)) | TInt16 \<Rightarrow> Inr (VInt16 (word_of_nat n))
               | TUInt32 \<Rightarrow> Inr (VUInt32 (word_of_nat n)) | TInt32 \<Rightarrow> Inr (VInt32 (word_of_nat n))
               | TUInt64 \<Rightarrow> Inr (VUInt64 (word_of_nat n)) | TInt64 \<Rightarrow> Inr (VInt64 (word_of_nat n))
               | TFloat32 \<Rightarrow> Inr (VFloat32 (word_of_nat n)) | TFloat64 \<Rightarrow> Inr (VFloat64 (word_of_nat n))
               | _ \<Rightarrow> Inl ErrUnsupportedType))"

text \<open>
  The record loop of \<open>GetChannelSample\<close>: \<open>k\<close> records left, the file address of the
  next one, the reused buffer and the samples so far; returns the samples and the cursor.
\<close>

fun legacy_loop :: "byte list \<Rightarrow> nat \<Rightarrow> dtype \<Rightarrow> byte_order \<Rightarrow> nat \<Rightarrow> nat \<Rightarrow> int \<Rightarrow> byte list
                    \<Rightarrow> measure_value list \<Rightarrow> error + (measure_value list \<times> nat)" where
  "legacy_loop fb cur ty bo row 0 a data acc = Inr (acc, cur)"
| "legacy_loop fb cur ty bo row (Suc k) a data acc =
     (let (cur', data') = seek_read fb cur a data in
      case binary_read bo ty data' of
        Inl _ \<Rightarrow> Inl ErrParsing
      | Inr v \<Rightarrow> legacy_loop fb cur' ty bo row k (a + int row) data' (acc @ [v]))"

text \<open>
  One channel of a group: the record address and size (\<open>BitCount + BitOffset\<close> in
  \<open>uint32\<close>, floored to bytes), the type (\<open>reflect.New\<close> of a \<open>nil\<close> type panics, before
  the loop), then the loop from an empty sample slice.
\<close>

definition legacy_read :: "byte list \<Rightarrow> nat \<Rightarrow> lgroup \<Rightarrow> lcn \<Rightarrow> error + (measure_value list \<times> nat)" where
  "legacy_read fb cur g cn =
     (let a = int header_size + lg_dg_data g + int (lg_rec_id_size g) + int (lcn_byte_offset cn);
          size = ((lcn_bit_count cn + lcn_bit_offset cn) mod 2 ^ 32) div 8
      in case load_data_type (lcn_data_type cn) size of
           None \<Rightarrow> Inl PanicNilType
         | Some ty \<Rightarrow> legacy_loop fb cur ty (legacy_byte_order (lcn_data_type cn)) (lg_data_bytes g)
                        (lg_cycle_count g) a (replicate size 0) [])"

text \<open>\<open>GetChannelSample(channelName)\<close>: the first group that has the name.\<close>

fun get_channel_sample :: "byte list \<Rightarrow> nat \<Rightarrow> lgroup list \<Rightarrow> string \<Rightarrow> error + (measure_value list \<times> nat)" where
  "get_channel_sample fb cur [] name = Inl ErrChannelNotFound"
| "get_channel_sample fb cur (g # gs) name =
     (case lg_channels g name of
        None \<Rightarrow> get_channel_sample fb cur gs name
      | Some cn \<Rightarrow> legacy_read fb cur g cn)"

section \<open>Example\<close>

text \<open>A group with a little-endian \<open>uint16\<close> channel ''u'' at byte 0, record size 4, two records.\<close>

definition ex_group :: lgroup where
  "ex_group = \<lparr>lg_channels = [''u'' \<mapsto> \<lparr>lcn_data_type = 0, lcn_byte_offset = 0, lcn_bit_offset = 0, lcn_bit_count = 16\<rparr>],
     lg_dg_data = 0, lg_rec_id_size = 0, lg_data_bytes = 4, lg_cycle_count = 2\<rparr>"

text \<open>
  A file whose data-group data starts right after the 24-byte header at address 0, with
  one record \<open>34 12 00 00\<close>.
\<close>

definition ex_legacy_file :: "byte list" where
  "ex_legacy_file = replicate 24 0 @ [0x34, 0x12, 0, 0]"

section \<open>Lemmas\<close>

lemma legacy_loop_numeral:
  "legacy_loop fb cur ty bo row (numeral k) a data acc =
     (let (cur', data') = seek_read fb cur a data in
      case binary_read bo ty data' of
        Inl _ \<Rightarrow> Inl ErrParsing
      | Inr v \<Rightarrow> legacy_loop fb cur' ty bo row (pred_numeral k) (a + int row) data' (acc @ [v]))"
  by (simp add: numeral_eq_Suc)

lemma load_data_type_size: "load_data_type dt n = Some ty \<Longrightarrow> type_size ty = n"
  by (auto simp: load_data_type_def split: if_splits)

lemma binary_read_ok:
  assumes "load_data_type dt n = Some ty" "n \<le> length data"
  shows "\<exists>v. binary_read bo ty data = Inr v"
  using assms load_data_type_size [OF assms(1)]
  by (auto simp: load_data_type_def binary_read_def Let_def split: if_splits)

lemma length_seek_read [simp]: "length (snd (seek_read fb cur a data)) = length data"
  by (simp add: seek_read_def Let_def)

lemma legacy_loop_no_parse_error:
  assumes "load_data_type dt (length data) = Some ty"
  shows "legacy_loop fb cur ty bo row k a data acc \<noteq> Inl ErrParsing"
  using assms
proof (induction k arbitrary: cur a data acc)
  case 0
  then show ?case by simp
next
  case (Suc k)
  obtain cur' data' where sr: "seek_read fb cur a data = (cur', data')" by fastforce
  have len: "length data' = length data" using length_seek_read [of fb cur a data] sr by simp
  obtain v where "binary_read bo ty data' = Inr v"
    using binary_read_ok [OF Suc.prems] len by fastforce
  then show ?case using Suc.IH [of data'] Suc.prems len sr by simp
qed

text \<open>C26: GetChannelSample never returns its "parsing channel error": the type loadDataType picks always has exactly the size of the buffer, so binary.Read cannot fail.\<close>

theorem get_channel_sample_no_parse_error:
  "get_channel_sample fb cur gs name \<noteq> Inl ErrParsing"
proof (induction gs)
  case (Cons g gs)
  show ?case
  proof (cases "lg_channels g name")
    case (Some cn)
    let ?n = "((lcn_bit_count cn + lcn_bit_offset cn) mod 2 ^ 32) div 8"
    show ?thesis
    proof (cases "load_data_type (lcn_data_type cn) ?n")
      case (Some ty)
      have "load_data_type (lcn_data_type cn) (length (replicate ?n (0::byte))) = Some ty" using Some by simp
      then show ?thesis using \<open>lg_channels g name = Some cn\<close> Some
        by (simp add: legacy_read_def Let_def legacy_loop_no_parse_error)
    qed (use \<open>lg_channels g name = Some cn\<close> in \<open>simp add: legacy_read_def Let_def\<close>)
  qed (use Cons.IH in simp)
qed simp

text \<open>Reading a record that lies inside the file.\<close>

lemma seek_read_in_bounds:
  "0 \<le> a \<Longrightarrow> nat a + length data \<le> length fb \<Longrightarrow>
   seek_read fb cur a data = (nat a + length data, take (length data) (drop (nat a) fb))"
  by (auto simp: seek_read_def Let_def min_def)

text \<open>C25: When every record lies inside the file, the legacy reader returns, in order, the binary.Read decoding of the bytes at readAddr + j * DataBytes for each of the CycleCount records (or the parse error of the first failing one).\<close>

theorem legacy_loop_in_bounds:
  assumes "0 \<le> a" "\<forall>j < k. nat a + j * row + length data \<le> length fb"
  shows "map_sum id fst (legacy_loop fb cur ty bo row k a data acc)
           = map_sum (\<lambda>_. ErrParsing) (\<lambda>vs. acc @ vs)
               (mapE (\<lambda>j. binary_read bo ty (take (length data) (drop (nat a + j * row) fb))) [0..<k])"
  using assms
proof (induction k arbitrary: cur a data acc)
  case 0
  then show ?case by simp
next
  case (Suc k)
  let ?d = "take (length data) (drop (nat a) fb)"
  have sr: "seek_read fb cur a data = (nat a + length data, ?d)"
    using Suc.prems by (intro seek_read_in_bounds) auto
  have len: "length ?d = length data" using Suc.prems(2) by auto
  have shift: "mapE (\<lambda>j. binary_read bo ty (take (length data) (drop (nat a + j * row) fb))) [0..<Suc k]
      = bindE (binary_read bo ty ?d)
          (\<lambda>v. bindE (mapE (\<lambda>j. binary_read bo ty (take (length data) (drop (nat (a + int row) + j * row) fb))) [0..<k])
                 (\<lambda>vs. Inr (v # vs)))"
    using Suc.prems(1)
    by (simp add: upt_conv_Cons map_Suc_upt [symmetric] mapE_map comp_def nat_add_distrib algebra_simps
        del: upt_Suc)
  have IH: "map_sum id fst (legacy_loop fb (nat a + length data) ty bo row k (a + int row) ?d (acc @ [v]))
      = map_sum (\<lambda>_. ErrParsing) (\<lambda>vs. acc @ [v] @ vs)
          (mapE (\<lambda>j. binary_read bo ty (take (length data) (drop (nat (a + int row) + j * row) fb))) [0..<k])" for v
  proof -
    have "\<forall>j<k. nat (a + int row) + j * row + length ?d \<le> length fb"
    proof (intro allI impI)
      fix j assume "j < k"
      then have "Suc j < Suc k" by simp
      then show "nat (a + int row) + j * row + length ?d \<le> length fb"
        using Suc.prems(1) Suc.prems(2) [rule_format, of "Suc j"] len by (simp add: nat_add_distrib algebra_simps)
    qed
    then show ?thesis using Suc.IH [of "a + int row" ?d "nat a + length data" "acc @ [v]"] Suc.prems(1) len by (simp add: id_def)
  qed
  show ?case
    unfolding shift
    by (cases "binary_read bo ty ?d";
        cases "mapE (\<lambda>j. binary_read bo ty (take (length data) (drop (nat (a + int row) + j * row) fb))) [0..<k]")
       (simp_all add: sr IH [unfolded id_def])
qed

lemmas legacy_eval = ex_group_def ex_legacy_file_def legacy_read_def load_data_type_def legacy_byte_order_def
  header_size_def seek_read_def binary_read_def be_nat_def Let_def legacy_loop_numeral

text \<open>Past the end of the file \<open>seekRead\<close> reads nothing and the buffer keeps its bytes.\<close>

lemma seek_read_past_eof:
  "0 \<le> a \<Longrightarrow> length fb \<le> nat a \<Longrightarrow> seek_read fb cur a data = (nat a, data)"
  by (simp add: seek_read_def Let_def)

lemma legacy_loop_past_eof:
  assumes "0 \<le> a" "0 \<le> row" "length fb \<le> nat a" "binary_read bo ty data = Inr v"
  shows "map_sum id fst (legacy_loop fb cur ty bo (nat row) k a data acc) = Inr (acc @ replicate k v)"
  using assms
proof (induction k arbitrary: cur a acc)
  case (Suc k)
  have "map_sum id fst (legacy_loop fb (nat a) ty bo (nat row) k (a + int (nat row)) data (acc @ [v]))
          = Inr ((acc @ [v]) @ replicate k v)"
    using Suc.prems by (intro Suc.IH) simp_all
  then show ?case using Suc.prems by (simp add: seek_read_past_eof replicate_app_Cons_same id_def)
qed simp

text \<open>C27: Once the records run past the end of the file, every further sample repeats the last record read: when the first record lies inside the file and the next ones start at or past its end, the legacy reader returns the first record's value once per cycle (seekRead drops the EOF and the loop reuses its buffer).\<close>

theorem legacy_stale_past_eof:
  assumes "0 \<le> a" "nat a + length data \<le> length fb" "length fb \<le> nat a + row"
  shows "map_sum id fst (legacy_loop fb cur ty bo row (Suc k) a data acc)
           = map_sum (\<lambda>_. ErrParsing) (\<lambda>v. acc @ replicate (Suc k) v)
               (binary_read bo ty (take (length data) (drop (nat a) fb)))"
proof -
  let ?d = "take (length data) (drop (nat a) fb)"
  have sr: "seek_read fb cur a data = (nat a + length data, ?d)"
    using assms(1,2) by (intro seek_read_in_bounds) auto
  show ?thesis
  proof (cases "binary_read bo ty ?d")
    case (Inr v)
    have "map_sum id fst (legacy_loop fb (nat a + length data) ty bo (nat (int row)) k (a + int row) ?d (acc @ [v]))
            = Inr ((acc @ [v]) @ replicate k v)"
      using assms Inr by (intro legacy_loop_past_eof) simp_all
    then show ?thesis using Inr sr by (simp add: replicate_app_Cons_same)
  qed (simp add: sr)
qed

lemma legacy_loop_acc: "legacy_loop fb cur ty bo row k a data acc = Inr (vs, c) \<Longrightarrow> \<exists>ys. vs = acc @ ys"
proof (induction k arbitrary: cur a data acc)
  case (Suc k)
  then show ?case
    by (fastforce simp: Let_def split: prod.splits sum.splits)
qed simp

lemma legacy_loop_error: "legacy_loop fb cur ty bo row k a data acc = Inl e \<Longrightarrow> e = ErrParsing"
proof (induction k arbitrary: cur a data acc)
  case (Suc k)
  then show ?case
    by (auto simp: Let_def split: prod.splits sum.splits)
qed simp

text \<open>C28: GetChannelSample panics in reflect.New exactly when the first group holding the name has a channel whose floored byte size (BitCount + BitOffset in uint32, divided by 8) has no Go type for its data-type code, whatever the file holds; the record loop itself never panics.\<close>

theorem legacy_nil_type_panics:
  assumes "lg_channels g name = Some cn"
  shows "get_channel_sample fb cur (g # gs) name = Inl PanicNilType
         \<longleftrightarrow> load_data_type (lcn_data_type cn) (((lcn_bit_count cn + lcn_bit_offset cn) mod 2 ^ 32) div 8) = None"
proof (cases "load_data_type (lcn_data_type cn) (((lcn_bit_count cn + lcn_bit_offset cn) mod 2 ^ 32) div 8)")
  case (Some ty)
  let ?n = "((lcn_bit_count cn + lcn_bit_offset cn) mod 2 ^ 32) div 8"
  have "legacy_read fb cur g cn
          = legacy_loop fb cur ty (legacy_byte_order (lcn_data_type cn)) (lg_data_bytes g) (lg_cycle_count g)
              (int header_size + lg_dg_data g + int (lg_rec_id_size g) + int (lcn_byte_offset cn)) (replicate ?n 0) []"
    using Some by (simp add: legacy_read_def Let_def)
  then show ?thesis using assms Some by (auto dest: legacy_loop_error)
qed (use assms in \<open>simp add: legacy_read_def Let_def\<close>)

text \<open>The little-endian number of the first \<open>n\<close> bytes is the whole number cut to \<open>8 n\<close> bits.\<close>

lemma be_nat_rev_Cons: "be_nat (rev (x # xs)) = be_nat (rev xs) * 256 + unat x"
  by simp

lemma be_nat_rev_take: "be_nat (rev (take n xs)) = be_nat (rev xs) mod 2 ^ (8 * n)"
proof (induction xs arbitrary: n)
  case (Cons x xs)
  show ?case
  proof (cases n)
    case (Suc m)
    have "(be_nat (rev xs) * 256 + unat x) mod 2 ^ (8 * Suc m)
            = (be_nat (rev xs) mod 2 ^ (8 * m)) * 256 + unat x"
      using unat_byte_less [of x] by (simp add: power_add mod_mult2_eq [of _ 256] mult.commute)
    then show ?thesis using Cons.IH [of m] Suc by simp
  qed simp
qed simp

lemma binary_read_unsigned:
  assumes "load_data_type 0 n = Some ty" "n \<le> length data" "binary_read LittleEndian ty data = Inr v"
  shows "value_bits v = be_nat (rev (take n data))"
proof -
  have lt: "be_nat (rev (take n data)) < 2 ^ (8 * n)"
    using be_nat_rev_take [of n data] by simp
  show ?thesis
    using assms lt
    by (auto simp: load_data_type_def binary_read_def Let_def unat_of_nat take_bit_nat_eq_self split: if_splits)
qed

text \<open>C29: The legacy reader never extracts the bit field: for a little-endian unsigned channel at bit offset 0 whose byte size BitCount / 8 has a Go type, the first sample is the MDF field (the record's bytes read as one number, cut to BitCount bits) truncated to its whole bytes, so the top BitCount mod 8 bits of the field are lost.\<close>

theorem legacy_field_truncated:
  assumes "lg_channels g name = Some cn" "lcn_data_type cn = 0" "lcn_bit_offset cn = 0" "lcn_bit_count cn < 2 ^ 32"
    "load_data_type 0 (lcn_bit_count cn div 8) \<noteq> None" "0 < lg_cycle_count g"
    "0 \<le> int header_size + lg_dg_data g + int (lg_rec_id_size g) + int (lcn_byte_offset cn)"
    "nat (int header_size + lg_dg_data g + int (lg_rec_id_size g) + int (lcn_byte_offset cn)) + lcn_bit_count cn div 8 \<le> length fb"
    "get_channel_sample fb cur (g # gs) name = Inr (vs, c)"
  shows "vs \<noteq> [] \<and> value_bits (hd vs)
           = field_nat LittleEndian (drop (nat (int header_size + lg_dg_data g + int (lg_rec_id_size g) + int (lcn_byte_offset cn))) fb)
               0 (lcn_bit_count cn) mod 2 ^ (8 * (lcn_bit_count cn div 8))"
proof -
  let ?a = "int header_size + lg_dg_data g + int (lg_rec_id_size g) + int (lcn_byte_offset cn)"
  let ?n = "lcn_bit_count cn div 8"
  let ?d = "take ?n (drop (nat ?a) fb)"
  obtain ty where ty: "load_data_type 0 ?n = Some ty" using assms(5) by blast
  obtain k where k: "lg_cycle_count g = Suc k" using assms(6) by (cases "lg_cycle_count g") auto
  have sr: "seek_read fb cur ?a (replicate ?n 0) = (nat ?a + ?n, ?d)"
    using assms(7,8) seek_read_in_bounds [of ?a "replicate ?n 0" fb cur] by simp
  have len: "length ?d = ?n" using assms(8) by simp
  obtain v where v: "binary_read LittleEndian ty ?d = Inr v"
    using binary_read_ok [OF ty] len by fastforce
  have run: "get_channel_sample fb cur (g # gs) name
               = legacy_loop fb (nat ?a + ?n) ty LittleEndian (lg_data_bytes g) k (?a + int (lg_data_bytes g)) ?d [v]"
    using assms(1-4) ty k sr v by (simp add: legacy_read_def legacy_byte_order_def Let_def)
  have "\<exists>ys. vs = [v] @ ys"
    using assms(9) unfolding run by (rule legacy_loop_acc)
  then have hd: "vs \<noteq> [] \<and> hd vs = v" by auto
  have "value_bits v = be_nat (rev ?d)"
    using binary_read_unsigned [OF ty _ v] len by simp
  also have "\<dots> = be_nat (rev (drop (nat ?a) fb)) mod 2 ^ (8 * ?n)"
    by (rule be_nat_rev_take)
  also have "\<dots> = field_nat LittleEndian (drop (nat ?a) fb) 0 (lcn_bit_count cn) mod 2 ^ (8 * ?n)"
  proof -
    have "8 * ?n \<le> lcn_bit_count cn" by simp
    then have "(2::nat) ^ (8 * ?n) dvd 2 ^ lcn_bit_count cn" by (rule le_imp_power_dvd)
    then show ?thesis by (simp add: field_nat_def mod_mod_cancel)
  qed
  finally show ?thesis using hd by simp
qed

theorem legacy_loop_in_bounds_witness:
  "map_sum id fst (legacy_loop (replicate 24 0 @ [0x34, 0x12, 0, 0, 0x78, 0x56, 0, 0]) 0 TUInt16 LittleEndian 4 2 24 [0, 0] [])
     = map_sum (\<lambda>_. ErrParsing) (\<lambda>vs. [] @ vs)
         (mapE (\<lambda>j. binary_read LittleEndian TUInt16
                  (take (length [0::byte, 0]) (drop (nat 24 + j * 4) (replicate 24 0 @ [0x34, 0x12, 0, 0, 0x78, 0x56, 0, 0]))))
           [0..<2])"
  by (rule legacy_loop_in_bounds) simp_all

theorem legacy_stale_past_eof_witness:
  "(0::int) \<le> 24 \<and> nat 24 + length [0::byte, 0] \<le> length ex_legacy_file \<and> length ex_legacy_file \<le> nat 24 + 4
   \<and> map_sum id fst (legacy_loop ex_legacy_file 0 TUInt16 LittleEndian 4 (Suc 1) 24 [0, 0] [])
       = Inr [VUInt16 0x1234, VUInt16 0x1234]"
proof -
  have h: "(0::int) \<le> 24" "nat 24 + length [0::byte, 0] \<le> length ex_legacy_file" "length ex_legacy_file \<le> nat 24 + 4"
    by (simp_all add: ex_legacy_file_def)
  have "binary_read LittleEndian TUInt16 (take (length [0::byte, 0]) (drop (nat 24) ex_legacy_file)) = Inr (VUInt16 0x1234)"
    by (simp add: ex_legacy_file_def binary_read_def be_nat_def Let_def)
  then show ?thesis using h legacy_stale_past_eof [OF h, of 0 TUInt16 LittleEndian 1 "[]"] by simp
qed

theorem legacy_nil_type_panics_witness:
  "lg_channels \<lparr>lg_channels = [''x'' \<mapsto> \<lparr>lcn_data_type = 0, lcn_byte_offset = 0, lcn_bit_offset = 0, lcn_bit_count = 24\<rparr>],
       lg_dg_data = 0, lg_rec_id_size = 0, lg_data_bytes = 4, lg_cycle_count = 2\<rparr> ''x''
     = Some \<lparr>lcn_data_type = 0, lcn_byte_offset = 0, lcn_bit_offset = 0, lcn_bit_count = 24\<rparr>
   \<and> get_channel_sample ex_legacy_file 0
       [\<lparr>lg_channels = [''x'' \<mapsto> \<lparr>lcn_data_type = 0, lcn_byte_offset = 0, lcn_bit_offset = 0, lcn_bit_count = 24\<rparr>],
         lg_dg_data = 0, lg_rec_id_size = 0, lg_data_bytes = 4, lg_cycle_count = 2\<rparr>] ''x'' = Inl PanicNilType"
proof -
  let ?cn = "\<lparr>lcn_data_type = 0, lcn_byte_offset = 0, lcn_bit_offset = 0, lcn_bit_count = 24\<rparr>"
  let ?g = "\<lparr>lg_channels = [''x'' \<mapsto> ?cn], lg_dg_data = 0, lg_rec_id_size = 0, lg_data_bytes = 4, lg_cycle_count = 2\<rparr>"
  have h: "lg_channels ?g ''x'' = Some ?cn" by simp
  have "load_data_type (lcn_data_type ?cn) (((lcn_bit_count ?cn + lcn_bit_offset ?cn) mod 2 ^ 32) div 8) = None"
    by (simp add: load_data_type_def)
  then show ?thesis using legacy_nil_type_panics [OF h, of ex_legacy_file 0 "[]"] by simp
qed

theorem legacy_field_truncated_witness:
  "get_channel_sample (replicate 24 0 @ [0xBC, 0x0A, 0, 0]) 0
     [\<lparr>lg_channels = [''t'' \<mapsto> \<lparr>lcn_data_type = 0, lcn_byte_offset = 0, lcn_bit_offset = 0, lcn_bit_count = 12\<rparr>],
       lg_dg_data = 0, lg_rec_id_size = 0, lg_data_bytes = 4, lg_cycle_count = 1\<rparr>] ''t''
     = Inr ([VUInt8 0xBC], 25)
   \<and> field_nat LittleEndian (drop 24 (replicate 24 0 @ [0xBC, 0x0A, 0, 0])) 0 12 = 0xABC
   \<and> value_bits (VUInt8 0xBC) = 0xABC mod 2 ^ 8"
proof -
  let ?cn = "\<lparr>lcn_data_type = 0, lcn_byte_offset = 0, lcn_bit_offset = 0, lcn_bit_count = 12\<rparr>"
  let ?g = "\<lparr>lg_channels = [''t'' \<mapsto> ?cn], lg_dg_data = 0, lg_rec_id_size = 0, lg_data_bytes = 4, lg_cycle_count = 1\<rparr>"
  let ?fb = "replicate 24 0 @ [0xBC, 0x0A, 0, 0] :: byte list"
  have r: "get_channel_sample ?fb 0 [?g] ''t'' = Inr ([VUInt8 0xBC], 25)"
    by (simp add: legacy_eval)
  have h: "lg_channels ?g ''t'' = Some ?cn" "lcn_data_type ?cn = 0" "lcn_bit_offset ?cn = 0" "lcn_bit_count ?cn < 2 ^ 32"
    "load_data_type 0 (lcn_bit_count ?cn div 8) \<noteq> None" "0 < lg_cycle_count ?g"
    "0 \<le> int header_size + lg_dg_data ?g + int (lg_rec_id_size ?g) + int (lcn_byte_offset ?cn)"
    "nat (int header_size + lg_dg_data ?g + int (lg_rec_id_size ?g) + int (lcn_byte_offset ?cn)) + lcn_bit_count ?cn div 8 \<le> length ?fb"
    by (simp_all add: load_data_type_def header_size_def)
  have f: "field_nat LittleEndian (drop 24 ?fb) 0 12 = 0xABC"
    by (simp add: field_nat_def be_nat_def)
  show ?thesis
    using legacy_field_truncated [OF h r] r f by (simp add: header_size_def)
qed

end
