(* ===== verification/Bootstrap.thy ===== *)
theory Bootstrap
  imports Legacy
begin

text \<open>
  Container bootstrap of \<open>src/mf4.go\<close>: \<open>ReadFile\<close> checks the version in the ID
  block, \<open>read\<close> walks the file-history and attachment lists and then the data groups,
  their channel groups and their channels, each a linked list of blocks ended by a zero
  \<open>next\<close> link, and builds the channel groups \<open>GetChannelSample\<close> searches and
  \<open>ChannelNames\<close> lists. The block
  parsers (\<open>ID\<close>, \<open>HD\<close>, \<open>FH\<close>, \<open>AT\<close>, \<open>DG\<close>, \<open>CG\<close>, \<open>CN\<close>, \<open>TX\<close>) are outside
  \<open>src/\<close> and modelled from the MDF4 format: the metadata is a map from addresses to
  parsed blocks, and a parser fails with \<open>ErrIO\<close> on an address that holds no block of
  its kind. A cyclic list makes the Go loops run for ever, so the walker takes fuel.
  The comment and text reads that only feed \<open>fmt.Print\<close> are not modelled.
\<close>

section \<open>Metadata blocks\<close>

text \<open>
  \<open>MHD fh_first at_first dg_first\<close>, \<open>MFH next md\<close>,
  \<open>MAT next tx_filename tx_mimetype md\<close>, \<open>MDG next cg_first data rec_id_size md\<close>,
  \<open>MCG next cn_first cycle_count data_bytes\<close>,
  \<open>MCN next tx_name data_type byte_offset bit_offset bit_count md\<close>, \<open>MTX data\<close>.
\<close>

datatype mblock =
    MHD addr addr addr
  | MFH addr addr
  | MAT addr addr addr addr
  | MDG addr addr addr nat addr
  | MCG addr addr nat nat
  | MCN addr addr nat nat nat nat addr
  | MTX "byte list"

text \<open>The ID block's \<open>VersionNumber\<close> and \<open>UnfinalizedFlag\<close>, and the other blocks.\<close>

record mfile =
  mf_version :: nat
  mf_unfinalized :: nat
  mf_blocks :: "addr \<Rightarrow> mblock option"

text \<open>\<open>MF4\<close>: \<open>FileHistory\<close>, \<open>Attachments\<close>, \<open>ChannelGroup\<close>.\<close>

record mf4 =
  mf4_file_history :: "mblock list"
  mf4_attachments :: "mblock list"
  mf4_groups :: "lgroup list"

text \<open>\<open>blocks.IdblockSize\<close>: the HD block follows the 64-byte ID block.\<close>

definition idblock_size :: addr where
  "idblock_size = 64"

section \<open>Walking a block list\<close>

text \<open>
  \<open>for next != 0 { blk := New(next); ...; next = blk.Next }\<close>: the step parses the
  block at an address and returns what the loop body keeps and the next link (or runs out
  of fuel itself, when its body walks a nested list).
\<close>

fun follow :: "nat \<Rightarrow> (addr \<Rightarrow> (error + ('b \<times> addr)) option) \<Rightarrow> addr \<Rightarrow> (error + 'b list) option" where
  "follow 0 f a = None"
| "follow (Suc n) f a =
     (if a = 0 then Some (Inr [])
      else bindR (f a) (\<lambda>(b, a'). map_option (map_sum id (Cons b)) (follow n f a')))"

section \<open>The loops of \<open>read\<close>\<close>

text \<open>\<open>loadFileHistory\<close>: the FH blocks in list order.\<close>

definition fh_step :: "mfile \<Rightarrow> addr \<Rightarrow> (error + (mblock \<times> addr)) option" where
  "fh_step f a = Some (case mf_blocks f a of Some (MFH nxt md) \<Rightarrow> Inr (MFH nxt md, nxt) | _ \<Rightarrow> Inl ErrIO)"

definition load_file_history :: "nat \<Rightarrow> mfile \<Rightarrow> addr \<Rightarrow> (error + mblock list) option" where
  "load_file_history n f a = follow n (fh_step f) a"

text \<open>\<open>loadAttachmemt\<close>: the AT blocks in list order.\<close>

definition at_step :: "mfile \<Rightarrow> addr \<Rightarrow> (error + (mblock \<times> addr)) option" where
  "at_step f a = Some (case mf_blocks f a of Some (MAT nxt fn mt md) \<Rightarrow> Inr (MAT nxt fn mt md, nxt) | _ \<Rightarrow> Inl ErrIO)"

definition load_attachmemt :: "nat \<Rightarrow> mfile \<Rightarrow> addr \<Rightarrow> (error + mblock list) option" where
  "load_attachmemt n f a = follow n (at_step f) a"

text \<open>\<open>string(bytes.Trim(TxData, "\x00"))\<close>.\<close>

definition trim_nul :: "byte list \<Rightarrow> string" where
  "trim_nul d = map (\<lambda>b. char_of (unat b)) (rev (dropWhile (\<lambda>b. b = 0) (rev (dropWhile (\<lambda>b. b = 0) d))))"

text \<open>One channel: its name from its TX block and the fields \<open>GetChannelSample\<close> reads.\<close>

definition cn_step :: "mfile \<Rightarrow> addr \<Rightarrow> (error + ((string \<times> lcn) \<times> addr)) option" where
  "cn_step f a = Some
     (case mf_blocks f a of
        Some (MCN nxt tx dt bo bof bc md) \<Rightarrow>
          (case mf_blocks f tx of
             Some (MTX d) \<Rightarrow>
               Inr ((trim_nul d, \<lparr>lcn_data_type = dt, lcn_byte_offset = bo, lcn_bit_offset = bof, lcn_bit_count = bc\<rparr>), nxt)
           | _ \<Rightarrow> Inl ErrIO)
      | _ \<Rightarrow> Inl ErrIO)"

text \<open>\<open>channelGroup.Channels[channelName] = cnBlock\<close>, in list order: a later name wins.\<close>

definition channel_map :: "(string \<times> lcn) list \<Rightarrow> string \<rightharpoonup> lcn" where
  "channel_map cs = foldl (\<lambda>m (nm, c). m(nm \<mapsto> c)) Map.empty cs"

text \<open>One channel group of a data group: the CN list walked from \<open>CnFirst\<close>.\<close>

definition cg_step :: "nat \<Rightarrow> mfile \<Rightarrow> addr \<Rightarrow> nat \<Rightarrow> addr \<Rightarrow> (error + (lgroup \<times> addr)) option" where
  "cg_step n f dgdata rid a =
     (case mf_blocks f a of
        Some (MCG nxt cnf cc db) \<Rightarrow>
          map_option (map_sum id (\<lambda>cs. (\<lparr>lg_channels = channel_map cs, lg_dg_data = dgdata,
                                          lg_rec_id_size = rid, lg_data_bytes = db, lg_cycle_count = cc\<rparr>, nxt)))
            (follow n (cn_step f) cnf)
      | _ \<Rightarrow> Some (Inl ErrIO))"

text \<open>One data group: its channel groups, walked from \<open>CgFirst\<close>.\<close>

definition dg_step :: "nat \<Rightarrow> mfile \<Rightarrow> addr \<Rightarrow> (error + (lgroup list \<times> addr)) option" where
  "dg_step n f a =
     (case mf_blocks f a of
        Some (MDG nxt cgf dat rid md) \<Rightarrow>
          map_option (map_sum id (\<lambda>gs. (gs, nxt))) (follow n (cg_step n f dat rid) cgf)
      | _ \<Rightarrow> Some (Inl ErrIO))"

text \<open>
  \<open>read\<close>: a file not finalized panics; then the HD block, the file history, the
  attachments and every data group's channel groups, in list order.
\<close>

definition read :: "nat \<Rightarrow> mfile \<Rightarrow> (error + mf4) option" where
  "read n f =
     (if mf_unfinalized f \<noteq> 0 then Some (Inl PanicNotFinalized)
      else (case mf_blocks f idblock_size of
              Some (MHD fhf atf dgf) \<Rightarrow>
                bindR (load_file_history n f fhf) (\<lambda>fhs.
                bindR (load_attachmemt n f atf) (\<lambda>ats.
                bindR (follow n (dg_step n f) dgf) (\<lambda>gss.
                Some (Inr \<lparr>mf4_file_history = fhs, mf4_attachments = ats, mf4_groups = concat gss\<rparr>))))
            | _ \<Rightarrow> Some (Inl ErrIO)))"

text \<open>\<open>ReadFile\<close>: versions below 4.00 are refused.\<close>

definition read_file :: "nat \<Rightarrow> mfile \<Rightarrow> (error + mf4) option" where
  "read_file n f = (if mf_version f < 400 then Some (Inl ErrVersion) else read n f)"


text \<open>
  \<open>ChannelNames\<close>: the names of every channel group, group after group. Go's \<open>range\<close>
  over a map visits the keys in an unspecified order, which may change from call to call;
  the order is the parameter \<open>keys\<close>, and \<open>map_range_ok\<close> says it visits each key of
  every group's map once.
\<close>

definition channel_names :: "((string \<rightharpoonup> lcn) \<Rightarrow> string list) \<Rightarrow> mf4 \<Rightarrow> string list" where
  "channel_names keys m = foldl (\<lambda>ns cg. ns @ keys (lg_channels cg)) [] (mf4_groups m)"

definition map_range_ok :: "((string \<rightharpoonup> lcn) \<Rightarrow> string list) \<Rightarrow> mf4 \<Rightarrow> bool" where
  "map_range_ok keys m =
     (\<forall>cg \<in> set (mf4_groups m). distinct (keys (lg_channels cg)) \<and> set (keys (lg_channels cg)) = dom (lg_channels cg))"

section \<open>Reference predicate and example\<close>

text \<open>The list a walk visits: the blocks \<open>bs\<close> from address \<open>a\<close> to the zero link.\<close>

fun walk_chain :: "(addr \<Rightarrow> (error + ('b \<times> addr)) option) \<Rightarrow> addr \<Rightarrow> 'b list \<Rightarrow> bool" where
  "walk_chain f a [] = (a = 0)"
| "walk_chain f a (b # bs) =
     (a \<noteq> 0 \<and> (case f a of Some (Inr (b', a')) \<Rightarrow> b' = b \<and> walk_chain f a' bs | _ \<Rightarrow> False))"

text \<open>
  A version 4.10 file with one data group (records at 1000) holding one channel group of
  two 4-byte records and three channels: ''u'' (\<open>uint16\<close> at byte 0), ''v'' (\<open>uint16\<close>
  at byte 2) and a second ''u'' (\<open>uint8\<close> at byte 0, its name padded with a NUL).
\<close>

definition ex_meta :: "addr \<Rightarrow> mblock option" where
  "ex_meta a =
     (if a = 64 then Some (MHD 0 0 100)
      else if a = 100 then Some (MDG 0 200 1000 0 0)
      else if a = 200 then Some (MCG 0 300 2 4)
      else if a = 300 then Some (MCN 400 310 0 0 0 16 0)
      else if a = 310 then Some (MTX [0x75, 0])
      else if a = 400 then Some (MCN 500 410 0 2 0 16 0)
      else if a = 410 then Some (MTX [0x76])
      else if a = 500 then Some (MCN 0 510 0 0 0 8 0)
      else if a = 510 then Some (MTX [0, 0x75])
      else None)"

definition ex_mfile :: mfile where
  "ex_mfile = \<lparr>mf_version = 410, mf_unfinalized = 0, mf_blocks = ex_meta\<rparr>"


text \<open>
  Two channel groups that both define ''u'' (the second also ''v''), and a map iteration
  order for them.
\<close>

definition ex_two_groups :: mf4 where
  "ex_two_groups =
     \<lparr>mf4_file_history = [], mf4_attachments = [],
      mf4_groups = [\<lparr>lg_channels = [''u'' \<mapsto> \<lparr>lcn_data_type = 0, lcn_byte_offset = 0, lcn_bit_offset = 0, lcn_bit_count = 8\<rparr>],
                     lg_dg_data = 1000, lg_rec_id_size = 0, lg_data_bytes = 1, lg_cycle_count = 1\<rparr>,
                    \<lparr>lg_channels = [''v'' \<mapsto> \<lparr>lcn_data_type = 0, lcn_byte_offset = 0, lcn_bit_offset = 0, lcn_bit_count = 8\<rparr>,
                                     ''u'' \<mapsto> \<lparr>lcn_data_type = 0, lcn_byte_offset = 1, lcn_bit_offset = 0, lcn_bit_count = 8\<rparr>],
                     lg_dg_data = 2000, lg_rec_id_size = 0, lg_data_bytes = 2, lg_cycle_count = 1\<rparr>]\<rparr>"

definition ex_keys :: "(string \<rightharpoonup> lcn) \<Rightarrow> string list" where
  "ex_keys mp = (if mp ''v'' = None then [''u''] else [''v'', ''u''])"

section \<open>Lemmas\<close>

text \<open>
  Every block-list loop of the bootstrap returns the blocks of a finite list in list order
  when given more fuel than the list has blocks.
\<close>

lemma follow_chain:
  assumes "walk_chain f a bs" "length bs < n"
  shows "follow n f a = Some (Inr bs)"
  using assms
proof (induction bs arbitrary: a n)
  case Nil
  then obtain n' where "n = Suc n'" by (cases n) auto
  with Nil show ?case by simp
next
  case (Cons b bs)
  then obtain n' where n: "n = Suc n'" and n': "length bs < n'" by (cases n) auto
  from Cons.prems(1) obtain a' where a: "a \<noteq> 0" "f a = Some (Inr (b, a'))" "walk_chain f a' bs"
    by (auto split: option.splits sum.splits)
  show ?case using a Cons.IH [OF a(3) n'] by (simp add: n)
qed

text \<open>C30: A block list whose next links cycle (every block of a set parses and links into the set) never ends: the walk returns for no fuel.\<close>

theorem follow_cycle:
  assumes "\<forall>x \<in> S. x \<noteq> 0 \<and> (\<exists>b y. f x = Some (Inr (b, y)) \<and> y \<in> S)" "a \<in> S"
  shows "follow n f a = None"
  using assms(2)
proof (induction n arbitrary: a)
  case 0
  then show ?case by simp
next
  case (Suc n)
  from assms(1) Suc.prems obtain b y where "a \<noteq> 0" "f a = Some (Inr (b, y))" "y \<in> S" by blast
  then show ?case using Suc.IH by simp
qed

lemmas boot_eval = ex_mfile_def ex_meta_def read_file_def read_def idblock_size_def load_file_history_def
  load_attachmemt_def dg_step_def cg_step_def cn_step_def channel_map_def trim_nul_def

lemma follow_numeral:
  "follow (numeral k) f a =
     (if a = 0 then Some (Inr [])
      else bindR (f a) (\<lambda>(b, a'). map_option (map_sum id (Cons b)) (follow (pred_numeral k) f a')))"
  by (simp add: numeral_eq_Suc)

text \<open>\<open>channelGroup.Channels[name] = cn\<close> in list order is the association list read backwards.\<close>

lemma channel_map_map_of: "channel_map cs = map_of (rev cs)"
proof (induction cs rule: rev_induct)
  case (snoc x cs)
  then show ?case by (cases x) (simp add: channel_map_def)
qed (simp add: channel_map_def)

text \<open>C31: For every channel group whose channel list is finite (and enough fuel), read builds the group's channel table so that each name resolves to the last channel of that name in the CN list: a channel is silently shadowed by a later one with the same (NUL-trimmed) name.\<close>

theorem bootstrap_duplicate_name_last_wins:
  assumes "mf_blocks f a = Some (MCG nxt cnf cc db)" "walk_chain (cn_step f) cnf cs" "length cs < n"
  shows "cg_step n f dd rid a
           = Some (Inr (\<lparr>lg_channels = map_of (rev cs), lg_dg_data = dd, lg_rec_id_size = rid,
                        lg_data_bytes = db, lg_cycle_count = cc\<rparr>, nxt))"
  using follow_chain [OF assms(2,3)] assms(1) by (simp add: cg_step_def channel_map_map_of)

lemma foldl_append_concat: "foldl (\<lambda>ns x. ns @ f x) xs ys = xs @ concat (map f ys)"
  by (induction ys arbitrary: xs) simp_all

lemma channel_names_concat: "channel_names keys m = concat (map (\<lambda>cg. keys (lg_channels cg)) (mf4_groups m))"
  by (simp add: channel_names_def foldl_append_concat)

lemma legacy_read_found: "legacy_read fb cur g cn \<noteq> Inl ErrChannelNotFound"
  by (auto simp: legacy_read_def Let_def split: option.splits dest: legacy_loop_error)

lemma get_channel_sample_not_found:
  "get_channel_sample fb cur gs name = Inl ErrChannelNotFound \<longleftrightarrow> (\<forall>g \<in> set gs. lg_channels g name = None)"
  by (induction gs) (auto simp: legacy_read_found split: option.splits)

lemma count_list_distinct: "distinct xs \<Longrightarrow> count_list xs x = (if x \<in> set xs then 1 else 0)"
  by (induction xs) auto

text \<open>C32: With any map iteration order, ChannelNames lists a name exactly when GetChannelSample finds a channel of that name (does not report ErrChannelNotFound).\<close>

theorem channel_names_lookup:
  assumes "map_range_ok keys m"
  shows "name \<in> set (channel_names keys m) \<longleftrightarrow> get_channel_sample fb cur (mf4_groups m) name \<noteq> Inl ErrChannelNotFound"
  using assms by (auto simp: channel_names_concat get_channel_sample_not_found map_range_ok_def)

text \<open>C33: With any map iteration order, ChannelNames lists each name once per channel group that defines it: the result is determined up to order, and a name defined in several groups is listed several times although GetChannelSample only reads the first group's channel.\<close>

theorem channel_names_count:
  assumes "map_range_ok keys m"
  shows "count_list (channel_names keys m) name = length (filter (\<lambda>cg. lg_channels cg name \<noteq> None) (mf4_groups m))"
proof -
  have "count_list (concat (map (\<lambda>cg. keys (lg_channels cg)) gs)) name
          = length (filter (\<lambda>cg. lg_channels cg name \<noteq> None) gs)"
    if "set gs \<subseteq> set (mf4_groups m)" for gs
    using that
  proof (induction gs)
    case (Cons g gs)
    then have "distinct (keys (lg_channels g))" "set (keys (lg_channels g)) = dom (lg_channels g)"
      using assms by (auto simp: map_range_ok_def)
    with Cons show ?case by (auto simp: count_list_distinct)
  qed simp
  then show ?thesis by (simp add: channel_names_concat)
qed

section \<open>Witnesses\<close>

theorem bootstrap_duplicate_name_last_wins_witness:
  "mf_blocks ex_mfile 200 = Some (MCG 0 300 2 4)
   \<and> walk_chain (cn_step ex_mfile) 300
       [(''u'', \<lparr>lcn_data_type = 0, lcn_byte_offset = 0, lcn_bit_offset = 0, lcn_bit_count = 16\<rparr>),
        (''v'', \<lparr>lcn_data_type = 0, lcn_byte_offset = 2, lcn_bit_offset = 0, lcn_bit_count = 16\<rparr>),
        (''u'', \<lparr>lcn_data_type = 0, lcn_byte_offset = 0, lcn_bit_offset = 0, lcn_bit_count = 8\<rparr>)]
   \<and> (\<exists>g. cg_step 4 ex_mfile 1000 0 200 = Some (Inr (g, 0))
          \<and> lg_channels g ''u'' = Some \<lparr>lcn_data_type = 0, lcn_byte_offset = 0, lcn_bit_offset = 0, lcn_bit_count = 8\<rparr>)"
proof -
  let ?cs = "[(''u'', \<lparr>lcn_data_type = 0, lcn_byte_offset = 0, lcn_bit_offset = 0, lcn_bit_count = 16\<rparr>),
              (''v'', \<lparr>lcn_data_type = 0, lcn_byte_offset = 2, lcn_bit_offset = 0, lcn_bit_count = 16\<rparr>),
              (''u'', \<lparr>lcn_data_type = 0, lcn_byte_offset = 0, lcn_bit_offset = 0, lcn_bit_count = 8\<rparr>)]"
  have h: "mf_blocks ex_mfile 200 = Some (MCG 0 300 2 4)" "walk_chain (cn_step ex_mfile) 300 ?cs" "length ?cs < 4"
    by (simp_all add: ex_mfile_def ex_meta_def cn_step_def trim_nul_def char_of_def bit_iff_odd)
  show ?thesis using h bootstrap_duplicate_name_last_wins [OF h, of 1000 0] by simp
qed

theorem follow_cycle_witness:
  "follow 5 (fh_step \<lparr>mf_version = 410, mf_unfinalized = 0, mf_blocks = [700 \<mapsto> MFH 700 0]\<rparr>) 700 = None"
  by (rule follow_cycle [where S = "{700}"]) (simp_all add: fh_step_def)

theorem channel_names_lookup_witness:
  "map_range_ok ex_keys ex_two_groups
   \<and> (''v'' \<in> set (channel_names ex_keys ex_two_groups)
       \<longleftrightarrow> get_channel_sample [] 0 (mf4_groups ex_two_groups) ''v'' \<noteq> Inl ErrChannelNotFound)"
proof
  show "map_range_ok ex_keys ex_two_groups"
    by (auto simp: map_range_ok_def ex_keys_def ex_two_groups_def)
  then show "''v'' \<in> set (channel_names ex_keys ex_two_groups)
               \<longleftrightarrow> get_channel_sample [] 0 (mf4_groups ex_two_groups) ''v'' \<noteq> Inl ErrChannelNotFound"
    by (rule channel_names_lookup)
qed

theorem channel_names_count_witness:
  "map_range_ok ex_keys ex_two_groups
   \<and> channel_names ex_keys ex_two_groups = [''u'', ''v'', ''u'']
   \<and> count_list (channel_names ex_keys ex_two_groups) ''u''
       = length (filter (\<lambda>cg. lg_channels cg ''u'' \<noteq> None) (mf4_groups ex_two_groups))"
proof (intro conjI)
  show ok: "map_range_ok ex_keys ex_two_groups"
    by (auto simp: map_range_ok_def ex_keys_def ex_two_groups_def)
  show "channel_names ex_keys ex_two_groups = [''u'', ''v'', ''u'']"
    by (simp add: channel_names_def ex_keys_def ex_two_groups_def)
  show "count_list (channel_names ex_keys ex_two_groups) ''u''
          = length (filter (\<lambda>cg. lg_channels cg ''u'' \<noteq> None) (mf4_groups ex_two_groups))"
    using ok by (rule channel_names_count)
qed

end
