(* ===== verification/Liveness.thy ===== *)
theory Liveness
  imports Orchestrator
begin

text \<open>
  When the dispatcher returns. A file's block graph is \<^emph>\<open>acyclic at\<close> an address when
  the blocks reachable from it through list children, list \<open>next\<close> links and header
  lists form a finite acyclic graph and no zipped block on it claims to replace a zipped
  block. On such a file the walk of \<open>extractSample\<close> returns for some fuel, whatever
  block tag it is asked to read: \<open>RawSample\<close> terminates.
\<close>

section \<open>Acyclic block graphs\<close>

inductive acyclic_at :: "env \<Rightarrow> addr \<Rightarrow> bool" for e :: env where
  leaf: "(\<And>nxt cnt ls. env_file e a \<noteq> Some (DLBlock nxt cnt ls)) \<Longrightarrow> (\<And>dl. env_file e a \<noteq> Some (HLBlock dl))
         \<Longrightarrow> (\<And>zt ol z. env_file e a \<noteq> Some (DZBlock dz_id zt ol z)) \<Longrightarrow> acyclic_at e a"
| list: "env_file e a = Some (DLBlock nxt cnt ls) \<Longrightarrow> \<forall>c \<in> set ls. acyclic_at e c
         \<Longrightarrow> (nxt \<noteq> 0 \<longrightarrow> acyclic_at e nxt) \<Longrightarrow> acyclic_at e a"
| header: "env_file e a = Some (HLBlock dl) \<Longrightarrow> acyclic_at e dl \<Longrightarrow> acyclic_at e a"

section \<open>Lemmas\<close>

lemma run_returns_extend:
  "run n ch e c s acc \<noteq> None \<Longrightarrow> n \<le> m \<Longrightarrow> run m ch e c s acc = run n ch e c s acc"
  using extendsD [OF run_extends [of n ch e "m - n"]] by simp

lemma restore_outcome_None [simp]: "restore_outcome s r = None \<longleftrightarrow> r = None"
  by (simp add: restore_outcome_def)

lemma cur_reader_hl [simp]: "cur_reader (s\<lparr>st_compressed_hl := b\<rparr>) = cur_reader s"
  by (simp add: cur_reader_def)

lemmas handler_defs = extract_sample_def read_fixed_def read_vlsd_def read_data_list_def
  read_data_zipped_def read_header_list_def dl_new_def hl_new_def dz_new_def restore_outcome_def Let_def
  block_ids_distinct block_ids_distinct [THEN not_sym]

text \<open>
  \<open>extractSample\<close> at one block returns, given that the list it opens and the block a
  header list names do.
\<close>

lemma extract_returns:
  assumes s: "reader_ok s" "cr_data_address (cur_reader s) = a"
    and dz: "\<And>org zt ol z. env_file e a = Some (DZBlock org zt ol z) \<Longrightarrow> org \<noteq> dz_id"
    and dl: "\<And>dtl bid0 s'. dl_new e a = Inr dtl \<Longrightarrow> reader_ok s'
               \<Longrightarrow> \<exists>n. run n ch e (CDLLoop bid0 dtl 0) s' acc \<noteq> None"
    and hl: "\<And>dl s'. hl_new e a = Inr dl \<Longrightarrow> reader_ok s' \<Longrightarrow> cr_data_address (cur_reader s') = dl
               \<Longrightarrow> \<exists>n. run n ch e (CExtract dl_id) s' acc \<noteq> None"
  shows "\<exists>n. run n ch e (CExtract bid) s acc \<noteq> None"
proof (cases "env_file e a")
  case None
  then have "run 3 ch e (CExtract bid) s acc \<noteq> None"
    using s by (simp add: run_numeral handler_defs)
  then show ?thesis ..
next
  case (Some b)
  then show ?thesis
  proof (cases b)
    case (DataBlock t d)
    then have "run 3 ch e (CExtract bid) s acc \<noteq> None"
      using s Some by (simp add: run_numeral handler_defs)
    then show ?thesis ..
  next
    case (DLBlock nxt cnt ls)
    show ?thesis
    proof (cases ls)
      case Nil
      then have "run 3 ch e (CExtract bid) s acc \<noteq> None"
        using s Some DLBlock by (simp add: run_numeral handler_defs)
      then show ?thesis ..
    next
      case (Cons a0 ls')
      show ?thesis
      proof (cases "get_header_id e a0")
        case (Inl err)
        then have "run 3 ch e (CExtract bid) s acc \<noteq> None"
          using s Some DLBlock Cons by (simp add: run_numeral handler_defs)
        then show ?thesis ..
      next
        case (Inr bid0)
        let ?dtl = "\<lparr>dl_next = nxt, dl_count = cnt, dl_links = ls\<rparr>"
        have "dl_new e a = Inr ?dtl" using Some DLBlock by (simp add: dl_new_def)
        from dl [OF this reader_ok_new_reader, of bid0 "load_channel_reader ch (st_cache s) a0" s]
        obtain n where n: "run n ch e (CDLLoop bid0 ?dtl 0) (new_reader (load_channel_reader ch (st_cache s) a0) s) acc \<noteq> None" ..
        have "run (Suc (Suc (Suc n))) ch e (CExtract bid) s acc \<noteq> None"
          using s Some DLBlock Cons Inr n by (simp add: handler_defs)
        then show ?thesis ..
      qed
    qed
  next
    case (DZBlock org zt ol z)
    have "org \<noteq> dz_id" using dz Some DZBlock by simp
    then have "run 6 ch e (CExtract bid) s acc \<noteq> None"
      using s Some DZBlock
      by (simp add: run_numeral handler_defs split: sum.splits)
    then show ?thesis ..
  next
    case (HLBlock dl)
    let ?s' = "(new_reader (load_channel_reader ch (st_cache s) dl) s)\<lparr>st_compressed_hl := True\<rparr>"
    have "hl_new e a = Inr dl" "reader_ok ?s'" "cr_data_address (cur_reader ?s') = dl"
      using Some HLBlock by (simp_all add: hl_new_def load_channel_reader_def)
    from hl [OF this] obtain n where n: "run n ch e (CExtract dl_id) ?s' acc \<noteq> None" ..
    have "run (Suc (Suc (Suc n))) ch e (CExtract bid) s acc \<noteq> None"
      using s Some HLBlock n by (simp add: handler_defs)
    then show ?thesis ..
  qed
qed

lemma run_returns_mono: "run n ch e c s acc = Some y \<Longrightarrow> n \<le> m \<Longrightarrow> \<exists>y'. run m ch e c s acc = Some y'"
  using run_returns_extend [of n ch e c s acc m] by simp

lemma run_reader_ok:
  assumes "run n ch e c s acc = Some (Inr (s', acc'))" "reader_ok s"
  shows "reader_ok s'"
proof -
  have "outcome_ok s acc (run n ch e c s acc)" by (rule rec_okD [OF run_ok assms(2)])
  then show ?thesis using assms(1) by (simp add: outcome_ok_def)
qed

text \<open>
  The loop over a list's children returns, given that each child and the next list of the
  chain do: by induction on the children left.
\<close>

lemma dl_loop_returns:
  assumes children: "\<And>c bid s acc. c \<in> set (dl_links dtl) \<Longrightarrow> reader_ok s \<Longrightarrow> cr_data_address (cur_reader s) = c
                       \<Longrightarrow> \<exists>n. run n ch e (CExtract bid) s acc \<noteq> None"
    and next_dl: "\<And>dtl' bid s acc. dl_next dtl \<noteq> 0 \<Longrightarrow> dl_new e (dl_next dtl) = Inr dtl' \<Longrightarrow> reader_ok s
                   \<Longrightarrow> \<exists>n. run n ch e (CDLLoop bid dtl' 0) s acc \<noteq> None"
    and s: "reader_ok s"
  shows "\<exists>n. run n ch e (CDLLoop bid dtl i) s acc \<noteq> None"
  using s
proof (induction "length (dl_links dtl) - i" arbitrary: i s acc bid)
  case 0
  then have "run (Suc 0) ch e (CDLLoop bid dtl i) s acc \<noteq> None" by (simp add: dl_loop_def)
  then show ?case ..
next
  case (Suc k)
  define s1 where "s1 = set_reader ((cur_reader s)\<lparr>cr_data_address := dl_links dtl ! i\<rparr>) s"
  define s2 where "s2 = (if i + 1 < dl_count dtl
                         then set_reader ((cur_reader s1)\<lparr>cr_next_data_address := dl_links dtl ! (i + 1)\<rparr>) s1
                         else s1)"
  define K where "K f bid' s3 acc3 = (if Suc i = length (dl_links dtl) \<and> dl_next dtl \<noteq> 0 then
                       (case dl_new e (dl_next dtl) of
                          Inl err \<Rightarrow> Some (Inl (err, s3))
                        | Inr dtl' \<Rightarrow> f (CDLLoop bid' dtl' 0) s3 acc3)
                     else f (CDLLoop bid' dtl (Suc i)) s3 acc3)" for f :: dispatch and bid' s3 acc3
  have i: "i < length (dl_links dtl)" using Suc.hyps by simp
  have s2: "reader_ok s2" "cr_data_address (cur_reader s2) = dl_links dtl ! i"
    using Suc.prems by (simp_all add: s1_def s2_def)
  have unf: "dl_loop f ch e bid dtl i s acc =
               (if i + 1 < dl_count dtl \<and> \<not> i + 1 < length (dl_links dtl) then Some (Inl (PanicIndex, s1))
                else case (if st_compressed_hl s2 then get_header_id e (dl_links dtl ! i) else Inr bid) of
                       Inl err \<Rightarrow> Some (Inl (err, s2))
                     | Inr bid' \<Rightarrow> bindR (f (CExtract bid') s2 acc) (\<lambda>(s3, acc3). K f bid' s3 acc3))" for f
    using i unfolding dl_loop_def Let_def s1_def [symmetric] s2_def [symmetric] K_def by simp
  show ?case
  proof (cases "(if st_compressed_hl s2 then get_header_id e (dl_links dtl ! i) else Inr bid)")
    case (Inr bid')
    obtain n1 r where n1: "run n1 ch e (CExtract bid') s2 acc = Some r"
      using children [OF nth_mem [OF i] s2] by blast
    have "\<exists>n2. \<forall>s3 acc3 m. r = Inr (s3, acc3) \<longrightarrow> n2 \<le> m \<longrightarrow> K (run m ch e) bid' s3 acc3 \<noteq> None"
    proof (cases r)
      case (Inr p)
      obtain s3 acc3 where p: "p = (s3, acc3)" by (cases p)
      have s3: "reader_ok s3" using run_reader_ok [OF n1 [unfolded Inr p] s2(1)] .
      have "\<exists>n2. (if Suc i = length (dl_links dtl) \<and> dl_next dtl \<noteq> 0 then
                      (case dl_new e (dl_next dtl) of Inl err \<Rightarrow> True
                       | Inr dtl' \<Rightarrow> run n2 ch e (CDLLoop bid' dtl' 0) s3 acc3 \<noteq> None)
                    else run n2 ch e (CDLLoop bid' dtl (Suc i)) s3 acc3 \<noteq> None)"
      proof (cases "Suc i = length (dl_links dtl) \<and> dl_next dtl \<noteq> 0")
        case True
        show ?thesis
        proof (cases "dl_new e (dl_next dtl)")
          case (Inr dtl')
          then show ?thesis using True next_dl [OF _ Inr s3, of bid' acc3] by simp
        qed (use True in simp)
      next
        case False
        have "k = length (dl_links dtl) - Suc i" using Suc.hyps(2) by simp
        from Suc.hyps(1) [OF this s3] obtain n2 where n2: "run n2 ch e (CDLLoop bid' dtl (Suc i)) s3 acc3 \<noteq> None"
          by blast
        show ?thesis by (rule exI [of _ n2], subst if_not_P [OF False]) (rule n2)
      qed
      then obtain n2 where "(if Suc i = length (dl_links dtl) \<and> dl_next dtl \<noteq> 0 then
                         (case dl_new e (dl_next dtl) of Inl err \<Rightarrow> True
                          | Inr dtl' \<Rightarrow> run n2 ch e (CDLLoop bid' dtl' 0) s3 acc3 \<noteq> None)
                        else run n2 ch e (CDLLoop bid' dtl (Suc i)) s3 acc3 \<noteq> None)" ..
      then show ?thesis using Inr p
        by (intro exI [of _ n2]) (auto simp: K_def intro: run_returns_mono split: if_splits sum.splits)
    qed simp
    then obtain n2 where n2: "\<And>s3 acc3 m. r = Inr (s3, acc3) \<Longrightarrow> n2 \<le> m \<Longrightarrow> K (run m ch e) bid' s3 acc3 \<noteq> None"
      by blast
    have "run (max n1 n2) ch e (CExtract bid') s2 acc = Some r"
      using run_returns_extend [of n1 ch e _ s2 acc "max n1 n2"] n1 by simp
    then have "run (Suc (max n1 n2)) ch e (CDLLoop bid dtl i) s acc \<noteq> None"
      using Inr n2 [of _ _ "max n1 n2"] by (auto simp: unf bindR_def split: sum.splits)
    then show ?thesis ..
  next
    case (Inl err)
    then have "run (Suc 0) ch e (CDLLoop bid dtl i) s acc \<noteq> None" by (simp add: unf)
    then show ?thesis ..
  qed
qed

text \<open>By rule induction: at an acyclic address, \<open>extractSample\<close> returns for every tag and,
  when the block is a data list, so does the loop over its children.\<close>

lemma acyclic_returns:
  assumes "acyclic_at e a"
  shows "(\<forall>bid s acc. reader_ok s \<longrightarrow> cr_data_address (cur_reader s) = a
            \<longrightarrow> (\<exists>n. run n ch e (CExtract bid) s acc \<noteq> None))
       \<and> (\<forall>dtl bid s acc. dl_new e a = Inr dtl \<longrightarrow> reader_ok s
            \<longrightarrow> (\<exists>n. run n ch e (CDLLoop bid dtl 0) s acc \<noteq> None))"
  using assms
proof induction
  case (leaf a)
  have "dl_new e a \<noteq> Inr dtl" "hl_new e a \<noteq> Inr dl" for dtl dl
    using leaf.hyps(1,2) by (auto simp: dl_new_def hl_new_def split: option.splits block.splits)
  then show ?case
  proof (intro conjI allI impI)
    fix bid s acc
    assume "reader_ok s" "cr_data_address (cur_reader s) = a"
    then show "\<exists>n. run n ch e (CExtract bid) s acc \<noteq> None"
      by (rule extract_returns) (use leaf.hyps(3) \<open>dl_new e a \<noteq> Inr _\<close> \<open>hl_new e a \<noteq> Inr _\<close> in auto)
  qed blast
next
  case (list a nxt cnt ls)
  have Q: "\<exists>n. run n ch e (CDLLoop bid dtl 0) s acc \<noteq> None"
    if "dl_new e a = Inr dtl" "reader_ok s" for dtl bid s acc
  proof -
    have dtl: "dtl = \<lparr>dl_next = nxt, dl_count = cnt, dl_links = ls\<rparr>"
      using that(1) list.hyps(1) by (simp add: dl_new_def)
    show ?thesis
      by (rule dl_loop_returns) (use list.IH that(2) in \<open>auto simp: dtl\<close>)
  qed
  have "hl_new e a \<noteq> Inr dl" for dl using list.hyps(1) by (simp add: hl_new_def)
  then show ?case
  proof (intro conjI allI impI)
    fix bid s acc
    assume "reader_ok s" "cr_data_address (cur_reader s) = a"
    then show "\<exists>n. run n ch e (CExtract bid) s acc \<noteq> None"
      by (rule extract_returns) (use list.hyps(1) Q \<open>hl_new e a \<noteq> Inr _\<close> in auto)
  qed (rule Q)
next
  case (header a dl)
  have "dl_new e a \<noteq> Inr dtl" for dtl using header.hyps(1) by (simp add: dl_new_def)
  then show ?case
  proof (intro conjI allI impI)
    fix bid s acc
    assume "reader_ok s" "cr_data_address (cur_reader s) = a"
    then show "\<exists>n. run n ch e (CExtract bid) s acc \<noteq> None"
      by (rule extract_returns) (use header.hyps(1) header.IH in \<open>auto simp: hl_new_def dl_new_def\<close>)
  qed blast
qed

text \<open>C10: On a file whose block graph is acyclic at the channel's start address (list children, next links and header lists form a finite acyclic graph, and no zipped block replaces a zipped block), RawSample returns for some fuel, with samples or an error: the block walk always finishes.\<close>

theorem raw_sample_returns:
  assumes "acyclic_at e (st_start_address (load_data_adress ch s))"
  shows "\<exists>n. raw_sample n ch e s \<noteq> None"
proof (cases "get_header_id e (st_start_address (load_data_adress ch s))")
  case (Inl err)
  then have "raw_sample 0 ch e s \<noteq> None" by (simp add: raw_sample_def)
  then show ?thesis ..
next
  case (Inr bid)
  let ?s1 = "load_data_adress ch s"
  let ?s2 = "new_reader (load_channel_reader ch (st_cache ?s1) (st_start_address ?s1)) ?s1"
  have "reader_ok ?s2" "cr_data_address (cur_reader ?s2) = st_start_address ?s1"
    by (simp_all add: load_channel_reader_def)
  then obtain n where "run n ch e (CExtract bid) ?s2 [] \<noteq> None"
    using acyclic_returns [OF assms, of ch] by blast
  then have "raw_sample n ch e s \<noteq> None" using Inr by (simp add: raw_sample_def Let_def)
  then show ?thesis ..
qed

theorem raw_sample_returns_witness:
  "acyclic_at ex_env (st_start_address (load_data_adress (ex_channel\<lparr>ch_dg_data_address := 2000\<rparr>) (ex_state ex_channel 0)))
   \<and> (\<exists>n. raw_sample n (ex_channel\<lparr>ch_dg_data_address := 2000\<rparr>) ex_env (ex_state ex_channel 0) \<noteq> None)"
proof -
  have f: "env_file ex_env = ex_file" by (simp add: ex_env_def)
  have leaf: "acyclic_at ex_env a" if "a \<in> {2010, 2020, 2030, 2040, 2050}" for a
    by (rule acyclic_at.leaf) (use that in \<open>auto simp: f ex_file_def\<close>)
  have "acyclic_at ex_env 2200"
    by (rule acyclic_at.list [of _ _ 0 1 "[2050]"]) (auto simp: f ex_file_def intro: leaf)
  then have "acyclic_at ex_env 2100"
    by (intro acyclic_at.list [of _ _ 2200 2 "[2030, 2040]"]) (auto simp: f ex_file_def intro: leaf)
  then have "acyclic_at ex_env 2000"
    by (intro acyclic_at.list [of _ _ 2100 2 "[2010, 2020]"]) (auto simp: f ex_file_def intro: leaf)
  then have "acyclic_at ex_env (st_start_address (load_data_adress (ex_channel\<lparr>ch_dg_data_address := 2000\<rparr>) (ex_state ex_channel 0)))"
    by (simp add: load_data_adress_def ex_channel_def)
  with raw_sample_returns show ?thesis by blast
qed

end
