(* ===== verification/Typing.thy ===== *)
theory Typing
  imports Orchestrator
begin

text \<open>
  Typing of the samples. \<open>parseSignalMeasure\<close> returns an \<open>interface{}\<close> whose dynamic
  type is picked by the channel's data type; this theory shows that every sample
  \<open>RawSample\<close> returns has the dynamic type the channel declares, whatever blocks the
  dispatcher walks through. The readers the walk allocates all carry the channel's type,
  and the value receiver of \<open>readFixedLenghtSample\<close> only ever moves the channel's
  reader pointer back to a reader of the same walk, so the invariant is stated over the
  readers allocated from the walk's first one on (\<open>typed_from\<close>).
\<close>

section \<open>Typing predicates\<close>

abbreviation typed_vals :: "channel \<Rightarrow> measure_value list \<Rightarrow> bool" where
  "typed_vals ch vs \<equiv> \<forall>v \<in> set vs. value_dtype v = ch_data_type ch"

definition typed_from :: "nat \<Rightarrow> channel \<Rightarrow> ch_state \<Rightarrow> bool" where
  "typed_from b ch s =
     (b \<le> st_reader s \<and> (\<forall>i. b \<le> i \<longrightarrow> i < length (st_readers s) \<longrightarrow> cr_data_type (st_readers s ! i) = ch_data_type ch))"

definition outcome_typed :: "nat \<Rightarrow> channel \<Rightarrow> outcome \<Rightarrow> bool" where
  "outcome_typed b ch res =
     (case res of
        None \<Rightarrow> True
      | Some (Inl (_, s')) \<Rightarrow> typed_from b ch s'
      | Some (Inr (s', vs)) \<Rightarrow> typed_from b ch s' \<and> typed_vals ch vs)"

definition rec_typed :: "nat \<Rightarrow> channel \<Rightarrow> dispatch \<Rightarrow> bool" where
  "rec_typed b ch f =
     (\<forall>c s acc. reader_ok s \<longrightarrow> typed_from b ch s \<longrightarrow> typed_vals ch acc \<longrightarrow> outcome_typed b ch (f c s acc))"

section \<open>The decoder and the record reader\<close>

lemma numeric_value_type: "numeric_value dt len w = Inr v \<Longrightarrow> value_dtype v = dt"
  by (cases dt) (auto split: if_splits)

lemma parse_signal_measure_type: "parse_signal_measure data bo dt off bc = Inr v \<Longrightarrow> value_dtype v = dt"
  by (cases dt) (auto simp: bindE_def Let_def simp del: numeric_value.simps split: sum.splits list.splits dest: numeric_value_type)

lemma read_datablock_type: "read_datablock r pos = Inr v \<Longrightarrow> value_dtype v = cr_data_type r"
  by (auto simp: read_datablock_def bindE_def simp del: parse_signal_measure.simps split: sum.splits
      dest: parse_signal_measure_type)

lemma read_dt_loop_type:
  "read_dt_loop r k pos acc = Inr (r', vs) \<Longrightarrow> \<forall>v \<in> set acc. value_dtype v = cr_data_type r
   \<Longrightarrow> cr_data_type r' = cr_data_type r \<and> (\<forall>v \<in> set vs. value_dtype v = cr_data_type r)"
proof (induction k arbitrary: pos acc)
  case (Suc k)
  show ?case
  proof (cases "length (cr_measure_buffer r) \<le> pos")
    case True
    with Suc.prems show ?thesis
      by (auto simp: bindE_def buffer_exhausted_def Let_def split: sum.splits if_splits)
  next
    case False
    with Suc.prems(1) obtain v where v: "read_datablock r pos = Inr v"
      and rest: "read_dt_loop r k (pos + cr_row_size r) (acc @ [v]) = Inr (r', vs)"
      by (auto simp: bindE_def split: sum.splits)
    have "value_dtype v = cr_data_type r" by (rule read_datablock_type [OF v])
    with Suc.IH [OF rest] Suc.prems(2) show ?thesis by simp
  qed
qed simp

lemma read_block_to_memory_type:
  "read_block_to_memory e r = Inr r' \<Longrightarrow> cr_data_type r' = cr_data_type r"
  "read_block_to_memory e r = Inl (err, r') \<Longrightarrow> cr_data_type r' = cr_data_type r"
  by (auto simp: read_block_to_memory_def load_buffer_def bindE_def split: sum.splits if_splits)

section \<open>The state\<close>

lemma load_channel_reader_type [simp]: "cr_data_type (load_channel_reader ch c a) = ch_data_type ch"
  by (simp add: load_channel_reader_def)

lemma cur_reader_type: "reader_ok s \<Longrightarrow> typed_from b ch s \<Longrightarrow> cr_data_type (cur_reader s) = ch_data_type ch"
  by (simp add: typed_from_def reader_ok_def cur_reader_def)

lemma typed_from_set_reader:
  assumes "typed_from b ch s" "cr_data_type r = ch_data_type ch"
  shows "typed_from b ch (set_reader r s)"
proof -
  have "cr_data_type ((st_readers s)[st_reader s := r] ! i) = ch_data_type ch"
    if "b \<le> i" "i < length (st_readers s)" for i
    using assms that by (cases "i = st_reader s") (simp_all add: typed_from_def)
  then show ?thesis using assms(1) by (simp add: typed_from_def set_reader_def)
qed

lemma typed_from_new_reader:
  "typed_from b ch s \<Longrightarrow> reader_ok s \<Longrightarrow> cr_data_type r = ch_data_type ch \<Longrightarrow> typed_from b ch (new_reader r s)"
  by (auto simp: typed_from_def new_reader_def reader_ok_def nth_append)

lemma typed_from_upd [simp]:
  "typed_from b ch (s\<lparr>st_cache := c\<rparr>) = typed_from b ch s"
  "typed_from b ch (s\<lparr>st_compressed_hl := h\<rparr>) = typed_from b ch s"
  by (simp_all add: typed_from_def)

lemma typed_from_restore: "typed_from b ch s \<Longrightarrow> typed_from b ch s' \<Longrightarrow> typed_from b ch (restore s s')"
  by (simp add: typed_from_def restore_def)

lemma outcome_typed_simps [simp]:
  "outcome_typed b ch None"
  "outcome_typed b ch (Some (Inl (err, s'))) = typed_from b ch s'"
  "outcome_typed b ch (Some (Inr (s', vs))) = (typed_from b ch s' \<and> (\<forall>v \<in> set vs. value_dtype v = ch_data_type ch))"
  by (simp_all add: outcome_typed_def)

lemma rec_typedD:
  "rec_typed b ch f \<Longrightarrow> reader_ok s \<Longrightarrow> typed_from b ch s \<Longrightarrow> \<forall>v \<in> set acc. value_dtype v = ch_data_type ch
   \<Longrightarrow> outcome_typed b ch (f c s acc)"
  by (simp add: rec_typed_def)

lemma load_if_uncached_type:
  assumes s: "reader_ok s" "typed_from b ch s"
  shows "case load_if_uncached e s of Inl (_, s1) \<Rightarrow> typed_from b ch s1 | Inr s1 \<Rightarrow> typed_from b ch s1"
proof -
  have ty: "cr_data_type (cur_reader s) = ch_data_type ch" using s by (rule cur_reader_type)
  show ?thesis
  proof (cases "read_block_to_memory e (cur_reader s)")
    case (Inl p)
    then show ?thesis using read_block_to_memory_type(2) [of e "cur_reader s" "fst p" "snd p"] ty s(2)
      by (cases p) (simp add: load_if_uncached_def typed_from_set_reader)
  next
    case (Inr r)
    then show ?thesis using read_block_to_memory_type(1) [of e "cur_reader s" r] ty s(2)
      by (simp add: load_if_uncached_def typed_from_set_reader)
  qed
qed

lemma load_if_uncached_Inr:
  assumes "reader_ok s" "typed_from b ch s" "load_if_uncached e s = Inr s1"
  shows "reader_ok s1" "typed_from b ch s1" "cr_data_type (cur_reader s1) = ch_data_type ch"
proof -
  show "reader_ok s1" using load_if_uncached_ok(2) [OF assms(1,3)] by simp
  moreover show "typed_from b ch s1" using load_if_uncached_type [OF assms(1,2), of e] assms(3) by simp
  ultimately show "cr_data_type (cur_reader s1) = ch_data_type ch" by (rule cur_reader_type)
qed

lemma load_if_uncached_Inl:
  "reader_ok s \<Longrightarrow> typed_from b ch s \<Longrightarrow> load_if_uncached e s = Inl (err, s1) \<Longrightarrow> typed_from b ch s1"
  using load_if_uncached_type [of s b ch e] by simp

section \<open>The handlers\<close>

lemma read_dt_type:
  assumes s: "reader_ok s" "typed_from b ch s" and acc: "typed_vals ch acc"
  shows "outcome_typed b ch (Some (read_dt ch e s acc))"
proof (cases "load_if_uncached e s")
  case (Inl x)
  then show ?thesis using load_if_uncached_Inl [OF s, of e "fst x" "snd x"] by (cases x) (simp add: read_dt_def)
next
  case (Inr s1)
  note s1 = load_if_uncached_Inr [OF s Inr]
  show ?thesis
  proof (cases "read_dt_loop (cur_reader s1) (ch_cycle_count ch) (cr_start_offset (cur_reader s1)) acc")
    case (Inl err)
    with \<open>load_if_uncached e s = Inr s1\<close> s1 show ?thesis by (simp add: read_dt_def)
  next
    case (Inr p)
    obtain r' vs where p: "p = (r', vs)" by (cases p)
    from read_dt_loop_type [OF Inr [unfolded p]] acc s1(3)
    have "cr_data_type r' = ch_data_type ch" "\<forall>v \<in> set vs. value_dtype v = ch_data_type ch" by simp_all
    with \<open>load_if_uncached e s = Inr s1\<close> Inr p s1 show ?thesis
      by (simp add: read_dt_def typed_from_set_reader)
  qed
qed

lemma read_sd_block_type:
  assumes s: "reader_ok s" "typed_from b ch s" and acc: "typed_vals ch acc"
  shows "outcome_typed b ch (Some (read_sd_block e s acc))"
proof (cases "load_if_uncached e s")
  case (Inl x)
  then show ?thesis using load_if_uncached_Inl [OF s, of e "fst x" "snd x"] by (cases x) (simp add: read_sd_block_def)
next
  case (Inr s1)
  note s1 = load_if_uncached_Inr [OF s Inr]
  show ?thesis
    using Inr s1 acc
    by (auto simp: read_sd_block_def bindE_def Let_def simp del: parse_signal_measure.simps
        split: sum.splits dest!: parse_signal_measure_type)
qed

lemma restore_outcome_typed:
  "typed_from b ch s \<Longrightarrow> outcome_typed b ch res \<Longrightarrow> outcome_typed b ch (restore_outcome s res)"
  by (auto simp: restore_outcome_def outcome_typed_def typed_from_restore split: option.splits sum.splits)

lemma bindR_typed:
  assumes "outcome_typed b ch m" "outcome_ok s acc m"
    and "\<And>s' acc'. m = Some (Inr (s', acc')) \<Longrightarrow> reader_ok s' \<Longrightarrow> typed_from b ch s' \<Longrightarrow> typed_vals ch acc'
           \<Longrightarrow> outcome_typed b ch (h s' acc')"
  shows "outcome_typed b ch (bindR m (\<lambda>(s', acc'). h s' acc'))"
  using assms by (auto simp: bindR_def outcome_typed_def outcome_ok_def split: option.splits sum.splits)

lemma extract_sample_type:
  "rec_typed b ch f \<Longrightarrow> reader_ok s \<Longrightarrow> typed_from b ch s \<Longrightarrow> typed_vals ch acc
   \<Longrightarrow> outcome_typed b ch (extract_sample f ch bid s acc)"
  by (simp add: extract_sample_def rec_typedD restore_outcome_typed)

lemma read_fixed_type:
  "rec_typed b ch f \<Longrightarrow> reader_ok s \<Longrightarrow> typed_from b ch s \<Longrightarrow> typed_vals ch acc
   \<Longrightarrow> outcome_typed b ch (read_fixed f ch e bid s acc)"
  by (simp add: read_fixed_def rec_typedD read_dt_type)

lemma read_vlsd_type:
  "rec_typed b ch f \<Longrightarrow> reader_ok s \<Longrightarrow> typed_from b ch s \<Longrightarrow> typed_vals ch acc
   \<Longrightarrow> outcome_typed b ch (read_vlsd f e bid s acc)"
  by (simp add: read_vlsd_def rec_typedD read_sd_block_type)

lemma read_data_list_type:
  "rec_typed b ch f \<Longrightarrow> reader_ok s \<Longrightarrow> typed_from b ch s \<Longrightarrow> typed_vals ch acc
   \<Longrightarrow> outcome_typed b ch (read_data_list f ch e s acc)"
  by (auto simp: read_data_list_def split: sum.splits list.splits intro!: rec_typedD typed_from_new_reader)

lemma read_data_zipped_type:
  "rec_typed b ch f \<Longrightarrow> reader_ok s \<Longrightarrow> typed_from b ch s \<Longrightarrow> typed_vals ch acc
   \<Longrightarrow> outcome_typed b ch (read_data_zipped f e s acc)"
  by (auto simp: read_data_zipped_def Let_def cur_reader_type split: sum.splits
      intro!: rec_typedD typed_from_set_reader)

lemma read_header_list_type:
  "rec_typed b ch f \<Longrightarrow> reader_ok s \<Longrightarrow> typed_from b ch s \<Longrightarrow> typed_vals ch acc
   \<Longrightarrow> outcome_typed b ch (read_header_list f ch e s acc)"
  by (auto simp: read_header_list_def split: sum.splits intro!: rec_typedD typed_from_new_reader)

lemma dl_loop_type:
  assumes F: "rec_ok f" and T: "rec_typed b ch f"
    and s: "reader_ok s" "typed_from b ch s" and acc: "typed_vals ch acc"
  shows "outcome_typed b ch (dl_loop f ch e bid dtl i s acc)"
proof -
  define s1 where "s1 = set_reader ((cur_reader s)\<lparr>cr_data_address := dl_links dtl ! i\<rparr>) s"
  define s2 where "s2 = (if i + 1 < dl_count dtl
                         then set_reader ((cur_reader s1)\<lparr>cr_next_data_address := dl_links dtl ! (i + 1)\<rparr>) s1
                         else s1)"
  have s1: "reader_ok s1" "typed_from b ch s1"
    using s by (simp_all add: s1_def typed_from_set_reader cur_reader_type)
  then have s2: "reader_ok s2" "typed_from b ch s2"
    by (simp_all add: s2_def typed_from_set_reader cur_reader_type)
  have tail: "outcome_typed b ch
                (bindR (f (CExtract bid') s2 acc)
                  (\<lambda>(s3, acc3).
                     if Suc i = length (dl_links dtl) \<and> dl_next dtl \<noteq> 0 then
                       (case dl_new e (dl_next dtl) of
                          Inl err \<Rightarrow> Some (Inl (err, s3))
                        | Inr dtl' \<Rightarrow> f (CDLLoop bid' dtl' 0) s3 acc3)
                     else f (CDLLoop bid' dtl (Suc i)) s3 acc3))" for bid'
    by (rule bindR_typed [OF rec_typedD [OF T s2 acc] rec_okD [OF F s2(1)]])
      (simp add: rec_typedD [OF T] split: sum.splits)
  show ?thesis
    using s s1 s2 acc tail unfolding dl_loop_def Let_def s1_def [symmetric] s2_def [symmetric]
    by (auto split: sum.splits)
qed

lemma run_typed: "rec_typed b ch (run n ch e)"
proof (induction n)
  case 0
  then show ?case by (simp add: rec_typed_def)
next
  case (Suc n)
  show ?case unfolding rec_typed_def
  proof (intro allI impI)
    fix c s acc
    assume "reader_ok s" "typed_from b ch s" "typed_vals ch acc"
    then show "outcome_typed b ch (run (Suc n) ch e c s acc)"
      using Suc.IH run_ok [of n ch e]
      by (cases c) (simp_all add: extract_sample_type read_fixed_type read_vlsd_type read_data_list_type
        dl_loop_type read_data_zipped_type read_header_list_type)
  qed
qed

section \<open>RawSample\<close>

text \<open>C11: Every sample RawSample returns has the dynamic type the channel declares (its data type), whatever blocks the walk goes through and from any state.\<close>

theorem raw_sample_typed:
  assumes "raw_sample n ch e s = Some (Inr (s', vs))"
  shows "\<forall>v \<in> set vs. value_dtype v = ch_data_type ch"
proof (cases "get_header_id e (st_start_address (load_data_adress ch s))")
  case (Inl err)
  with assms show ?thesis by (simp add: raw_sample_def Let_def)
next
  case (Inr bid)
  let ?s1 = "load_data_adress ch s"
  let ?s2 = "new_reader (load_channel_reader ch (st_cache ?s1) (st_start_address ?s1)) ?s1"
  have "reader_ok ?s2" by simp
  moreover have "typed_from (length (st_readers ?s1)) ch ?s2"
    by (auto simp: typed_from_def new_reader_def nth_append less_Suc_eq)
  ultimately have "outcome_typed (length (st_readers ?s1)) ch (run n ch e (CExtract bid) ?s2 [])"
    by (simp add: rec_typedD [OF run_typed])
  moreover have "run n ch e (CExtract bid) ?s2 [] = Some (Inr (s', vs))"
    using assms Inr by (simp add: raw_sample_def Let_def)
  ultimately show ?thesis by simp
qed

theorem raw_sample_typed_witness:
  "\<exists>s'. raw_sample 20 ex_channel ex_env (ex_state ex_channel 0) = Some (Inr (s', [VUInt16 1, VUInt16 2, VUInt16 3]))
     \<and> (\<forall>v \<in> set [VUInt16 1, VUInt16 2, VUInt16 3]. value_dtype v = ch_data_type ex_channel)"
proof -
  obtain s' where r: "raw_sample 20 ex_channel ex_env (ex_state ex_channel 0) = Some (Inr (s', [VUInt16 1, VUInt16 2, VUInt16 3]))"
    by (simp add: ex_orch_defs read_data_list_def dl_loop_def dl_new_def)
  show ?thesis using r raw_sample_typed [OF r] by blast
qed

end
