(* ===== verification/Spec2Isabelle.thy ===== *)
theory Spec2Isabelle
  imports Orchestrator Bootstrap Liveness Typing
begin

text \<open>
  \<^bold>\<open>A verification model of the GoASAMMDF signal-extraction engine.\<close>

  GoASAMMDF reads ASAM MDF4 measurement files. The engine this development models turns
  one channel of a file into its sequence of typed samples. Its parts, and how they
  interact:
  \<^item> \<^emph>\<open>Orchestrator\<close> (\<open>Sample\<close>, \<open>RawSample\<close>, \<open>loadDataAdress\<close>,
    \<open>applyConversion\<close> in \<open>src/channel.go\<close>): resolves the channel's start block,
    builds a fresh \<open>ChannelReader\<close>, runs the dispatcher, converts and caches.
  \<^item> \<^emph>\<open>Dispatcher\<close> (\<open>extractSample\<close>, \<open>readFixedLenghtSample\<close>,
    \<open>readVLSDSample\<close>, \<open>readDataList\<close>, \<open>readDataZipped\<close>, \<open>readHeaderList\<close>):
    a recursive walk of the block graph (DT/DV data, DL lists chained by \<open>next\<close>, DZ
    zipped blocks, HL header lists) that hands each data buffer to a record reader.
  \<^item> \<^emph>\<open>Record readers\<close>: \<open>readDT\<close> (fixed-length rows with the remainder logic that
    carries a row split across two blocks) and \<open>readSdBlock\<close> (length-prefixed VLSD
    records), both through \<open>readDatablock\<close>/\<open>parseSignalMeasure\<close>.
  \<^item> \<^emph>\<open>Bit-level decoder\<close> (\<open>parseSignalMeasure\<close>, \<open>reverseBytes\<close>): a value from a
    byte window, byte order, type, bit offset and bit count.
  \<^item> \<^emph>\<open>Decompression adapter\<close> (\<open>Flate.Decompress\<close>, \<open>Deflate\<close> in
    \<open>src/blocks/DZ/flate.go\<close>).
  \<^item> \<^emph>\<open>Invalidation bit\<close> (\<open>readInvalidationBit\<close> and its getters).
  \<^item> \<^emph>\<open>Legacy reader\<close> (\<open>GetChannelSample\<close>, \<open>seekRead\<close>, \<open>loadDataType\<close> in
    \<open>src/mf4.go\<close>): an older path that reads records straight from the file, over the
    channel groups built by the
  \<^item> \<^emph>\<open>Container bootstrap\<close> (\<open>ReadFile\<close>, \<open>read\<close>, \<open>loadFileHistory\<close>,
    \<open>loadAttachmemt\<close>, \<open>ChannelNames\<close> in \<open>src/mf4.go\<close>): walks the linked
    lists of data groups, channel groups and channels, and lists the channel names.

  \<^bold>\<open>Theories.\<close>
  \<^item> \<open>Prelude\<close>: bytes (\<open>8 word\<close>), addresses (\<open>int\<close>, Go's \<open>int64\<close>), the
    \<open>error\<close> datatype with one constructor per returned error and per runtime panic,
    \<open>bindE\<close>/\<open>mapE\<close> (Go's \<open>if err != nil { return err }\<close>), \<open>bindR\<close> for computations
    that may also run out of fuel, Go slicing (\<open>go_slice\<close>: a slice is its elements
    plus a spare capacity of zero bytes, and \<open>s[lo:hi]\<close> is bounded by the capacity, not
    the length, as in Go), and big-endian numbers with the bit lemmas the decoder proofs
    share.
  \<^item> \<open>BitDecoder\<close>: \<open>parse_signal_measure\<close> (\<open>parseSignalMeasure\<close>),
    \<open>numeric_value\<close> (its second type switch), \<open>reverse_bytes\<close>; the go-bitarray and
    \<open>encoding/hex\<close> calls (\<open>bit_array_at\<close>, \<open>to_uint64\<close>, \<open>hex_encode\<close>) are
    modelled from their documentation. Lemmas: the round trip of every numeric field in
    both byte orders, that any successful decode is the window's field and stays below
    \<open>2^bitcount\<close>, the panic and not-enough-data branches, and that a wide signed field
    narrower than its type is never sign-extended (\<open>value_sint\<close> reads the signed value
    back).
  \<^item> \<open>RecordReader\<close>: the \<open>channel_reader\<close> record (\<open>ChannelReader\<close>),
    whose \<open>cr_buffer_spare\<close> is the spare capacity of \<open>MeasureBuffer\<close>,
    \<open>read_datablock\<close>, the row loop \<open>read_dt_loop\<close> of \<open>readDT\<close> with its remainder branch
    \<open>buffer_exhausted\<close>, \<open>read_blocks\<close>, the loop applied block after block with the
    reader carried, and \<open>read_slices\<close>, the same over buffers that each carry their own
    capacity. Lemmas: the loop visits exactly the row positions \<open>s + j*R\<close> below the
    buffer end (\<open>read_dt_loop_eq\<close>), the carried offset is \<open>(s - len) mod R\<close>, a buffer
    of exactly \<open>k\<close> rows reads the \<open>k\<close> strided rows, two blocks read one after the other
    equal their concatenation when no field straddles the boundary, a field running past a
    buffer without spare capacity panics, and the cycle count bounds each block separately
    rather than the data group.
  \<^item> \<open>Blocks\<close>: the file as a map from addresses to parsed blocks (\<open>block\<close>,
    \<open>env\<close>, whose \<open>env_read_all_spare\<close> gives the spare capacity \<open>io.ReadAll\<close>
    leaves on a result of each length): the parsers of the \<open>blocks\<close> package are outside \<open>src/\<close> and are modelled
    from the spec; \<open>readBlockFromFile\<close>, \<open>loadBuffer\<close>, \<open>readBlockToMemory\<close>, the
    \<open>Flate\<close> struct (\<open>flate\<close>), \<open>Flate.Decompress\<close> (\<open>decompress\<close>) and
    \<open>Deflate\<close> (\<open>deflate\<close>) are modelled from the source, zlib being the
    \<open>env_inflate\<close> parameter; \<open>dz_read\<close> (\<open>dz.Read\<close>, outside \<open>src/\<close>) builds the
    \<open>Flate\<close> of a DZ header. A buffer made by \<open>loadBuffer\<close> has no spare capacity; the
    inflated buffer keeps the capacity of \<open>io.ReadAll\<close>; \<open>loaded\<close> is the reader after
    \<open>readBlockToMemory\<close> copied a block into it. Lemma: the payload is plain-inflated
    whatever the zip type and the declared original length.
  \<^item> \<open>Dispatcher\<close>: the channel (\<open>channel\<close>) and the state a read changes
    (\<open>ch_state\<close>): the \<open>*ChannelReader\<close> objects live in a heap \<open>st_readers\<close>
    because handlers share them through pointers, \<open>st_reader\<close> is the channel's
    \<open>channelReader\<close>, \<open>st_cache\<close> the data group's shared \<open>CachedDataGroup\<close> (the
    inflated slice with its capacity). Each
    handler is a definition over \<open>rec\<close>, the dispatcher it calls back, with the calls as
    the datatype \<open>call\<close>; \<open>run\<close> ties them together with fuel. The value receiver of
    \<open>readFixedLenghtSample\<close> is modelled by \<open>restore\<close>: what its callees assign to the
    copy's \<open>channelReader\<close> and \<open>compressedHL\<close> is dropped when it returns. An error
    carries the state reached, since the reader objects and the group cache keep what was
    done before the error. Lemmas: the reader pointer stays valid, the heap only grows and
    samples are only appended (\<open>run_ok\<close>); extra fuel never changes a result
    (\<open>run_mono\<close>); a chain of data lists over DT blocks is read exactly as
    \<open>read_blocks\<close> reads the children's data in chain order, a header list over a chain
    of zipped blocks as \<open>read_slices\<close> reads the inflated slices, and a VLSD channel over
    a chain of SD blocks yields the first record of each block in chain order, all three
    from one generic loop lemma \<open>run_dl_loop\<close> over a chain path (\<open>dl_path\<close>, which
    ends at \<open>next = 0\<close> or at a list node without links, \<open>chain_stop\<close>) and the read of
    one child (\<open>chain_reads\<close>, \<open>child_ok\<close>, with the reference reads \<open>dt_read\<close>,
    \<open>zipped_read\<close>, \<open>sd_read\<close>); a list node without links ends the chain even when its
    \<open>next\<close> is not 0; a zipped block claiming to hold a zipped block never returns; a
    VLSD channel over a bare DT block succeeds with no samples.
  \<^item> \<open>Orchestrator\<close>: \<open>load_data_adress\<close>, \<open>raw_sample\<close>, \<open>apply_conversion\<close>,
    \<open>sample\<close>, and the invalidation-bit reader \<open>read_invalidation_bit\<close> on a byte file
    with a cursor. Lemmas: a successful \<open>Sample\<close> is idempotent (the cache is hit and the
    conversion is not applied twice), a memory-optimized file never caches (as the spec
    says and the comment on \<open>CachedSamples\<close> contradicts), a set group cache overrides
    a DT start block whatever the block holds, and the invalidation bit depends on
    \<open>InvalBitPos\<close> only modulo 8 (\<open>inval_bit_spec\<close> is the MDF bit it reads below 8).
  \<^item> \<open>Legacy\<close>: \<open>get_channel_sample\<close>, \<open>legacy_read\<close>, \<open>legacy_loop\<close>,
    \<open>seek_read\<close>, \<open>load_data_type\<close> on a byte file with a cursor. Lemmas: records inside
    the file decode in order; the parse-error branch is unreachable; reads past the end
    repeat the last record read; \<open>GetChannelSample\<close> panics exactly when
    \<open>loadDataType\<close> finds no Go type for the floored byte size; a field whose bit count
    is not a multiple of 8 is truncated to its whole bytes.
  \<^item> \<open>Bootstrap\<close>: the metadata blocks (\<open>mblock\<close>, modelled from the MDF4 format
    since their parsers are outside \<open>src/\<close>), the list walker \<open>follow\<close> that every
    \<open>for next != 0\<close> loop of \<open>read\<close> instantiates (\<open>load_file_history\<close>,
    \<open>load_attachmemt\<close>, \<open>dg_step\<close>, \<open>cg_step\<close>, \<open>cn_step\<close>), \<open>read\<close>,
    \<open>read_file\<close> and \<open>channel_names\<close> (\<open>ChannelNames\<close>, whose map iteration order is
    a parameter constrained by \<open>map_range_ok\<close>). Lemmas: a walk over a finite list
    returns its blocks in order given more fuel than blocks, a cyclic list never returns,
    a later channel of the same name replaces an earlier one, and, for every iteration
    order, \<open>ChannelNames\<close> lists exactly the names \<open>GetChannelSample\<close> finds, each once
    per group that defines it.
  \<^item> \<open>Liveness\<close>: the inductive predicate \<open>acyclic_at\<close> (the blocks reachable from an
    address through list children, list \<open>next\<close> links and header lists form a finite
    acyclic graph, and no zipped block replaces a zipped block) and, by rule induction on
    it, that the dispatcher returns for some fuel on every tag at such an address; hence
    \<open>RawSample\<close> returns (\<open>raw_sample_returns\<close>). Together with
    \<open>dz_self_reference_diverges\<close> this separates the inputs on which the Go code
    terminates from one on which it does not.
  \<^item> \<open>Typing\<close>: the dynamic type of the decoded \<open>interface{}\<close> values. The decoder
    returns a value of the type it is asked for, the record loop keeps the reader's type,
    and an invariant over the readers a walk allocates (\<open>typed_from\<close>, preserved by
    every handler) shows that every sample \<open>RawSample\<close> returns has the channel's
    declared type (\<open>raw_sample_typed\<close>).
  \<^item> This theory: the properties that span the orchestrator, dispatcher, decompression
    adapter and record reader. \<open>RawSample\<close> over a zipped start block equals
    \<open>RawSample\<close> over a plain DT block holding the inflated bytes, for every fuel from 5
    on, when every record field the reader visits lies inside the inflated bytes
    (\<open>zipped_block_equivalence\<close>); when one does not, the two part ways: the zipped
    block decodes the field from the zero padding of \<open>io.ReadAll\<close>'s spare capacity
    while the plain block panics (\<open>zipped_padding_divergence\<close>).

  \<^bold>\<open>Fuel.\<close> A cyclic data-list chain, or a zipped block whose header names a zipped
  block, makes the Go code loop or recurse for ever, so \<open>run\<close> takes fuel and returns
  \<open>None\<close> when it runs out. Every handler call costs one unit, and the two units of a
  list iteration (the loop step and the child's \<open>extractSample\<close>) are reused by the next
  iteration, so fuel bounds the nesting depth plus the number of children. The chain
  theorems show that \<open>2 * children + 4\<close> units (DT or SD children) and
  \<open>5 * children + 7\<close> units (zipped children under a header list) are enough, and
  \<open>raw_sample_returns\<close> that some fuel is enough on every file whose block graph is
  acyclic at the start address, i.e. the code returns there; \<open>run_mono\<close> makes any
  larger fuel give the same result, and \<open>dz_self_reference_diverges\<close> shows \<open>None\<close>
  for every fuel on the looping input.
  The bootstrap walker \<open>follow\<close> likewise takes fuel: one unit per block of a list, and
  the nested walks of a data group reuse the same bound, so fuel above the longest list
  is enough (the lemma \<open>follow_chain\<close>); on a cyclic list every fuel gives \<open>None\<close>
  (\<open>follow_cycle\<close>).

  \<^bold>\<open>Not modelled.\<close> The comment and text reads of the bootstrap that only feed
  \<open>fmt.Print\<close>, printing and debugging (\<open>PrintProperties\<close>, \<open>debug\<close>, \<open>Version\<close>,
  the \<open>fmt.Println\<close> calls), zlib itself (a parameter), the block parsers of
  the \<open>blocks\<close> package (modelled from the spec, not from source), the conversion formulas
  of the \<open>CC\<close> package (a function parameter), the MDF data-type table of
  \<open>CN.LoadDataType\<close> (the channel carries the resulting type), partial reads of
  \<open>io.ReadFull\<close>/\<open>io.ReadAll\<close> before an error (an error leaves a zeroed buffer, a failed
  inflate leaves the cache \<open>nil\<close>), the exact capacity \<open>io.ReadAll\<close> picks (a
  parameter; only that it is zero-filled matters), and concurrency (the engine is single-threaded).
\<close>

section \<open>Properties across components\<close>

lemma child_ok_proj:
  "child_ok G R q c y acc res \<Longrightarrow> map_option (map_sum fst snd) res = Some (map_sum id snd (R q acc))"
  by (auto simp: child_ok_def split: sum.splits)

text \<open>
  RawSample of a fixed-length channel whose start block is a DZ block replacing a DT
  block, and RawSample over a file holding a DT block with the inflated bytes there: both
  run the record reader on those bytes, the first with the spare capacity
  \<open>io.ReadAll\<close> left on them, the second without.
\<close>

lemma raw_sample_dz_dt:
  assumes "\<not> ch_vlsd ch" "st_cache s = None" "\<not> st_compressed_hl s" "st_start_address (load_data_adress ch s) = a"
    "env_file e a = Some (DZBlock dt_id zt ol z)" "env_inflate e z = Inr d"
    "env_file e' a = Some (DataBlock dt_id d)"
  shows "map_option (map_sum fst snd) (raw_sample (n + 5) ch e s)
           = Some (map_sum id snd (read_dt_loop ((load_channel_reader ch None a)\<lparr>cr_measure_buffer := d,
                      cr_buffer_spare := env_read_all_spare e (length d)\<rparr>) (ch_cycle_count ch)
                      (ch_byte_offset ch + ch_record_id_size ch) []))"
    and "map_option (map_sum fst snd) (raw_sample (n + 5) ch e' s)
           = Some (map_sum id snd (read_dt_loop ((load_channel_reader ch None a)\<lparr>cr_measure_buffer := d\<rparr>)
                      (ch_cycle_count ch) (ch_byte_offset ch + ch_record_id_size ch) []))"
proof -
  let ?s1 = "load_data_adress ch s"
  let ?r0 = "load_channel_reader ch None a"
  let ?s2 = "new_reader ?r0 ?s1"
  have c1: "st_cache ?s1 = None" using assms(2) by (simp add: load_data_adress_def)
  have cur: "cur_reader ?s2 = addr_upd a 0 ?r0" by (simp flip: load_channel_reader_addr_upd)
  have dz: "is_dz_at e a" "inflated_at e a = (d, env_read_all_spare e (length d))"
    using assms(5,6) by (simp_all add: is_dz_at_def inflated_at_def)
  have dt: "is_dt_at e' a" "data_at e' a = d" using assms(7) by (simp_all add: is_dt_at_def data_at_def)
  have "get_header_id e a = Inr dz_id" "get_header_id e' a = Inr dt_id"
    using assms(5,7) by (simp_all add: get_header_id_def)
  hence r: "raw_sample (n + 5) ch e s = run (n + 5) ch e (CExtract dz_id) ?s2 []"
           "raw_sample (n + 5) ch e' s = run (n + 5) ch e' (CExtract dt_id) ?s2 []"
    using assms(4) c1 by (simp_all add: raw_sample_def Let_def)
  have so: "cr_start_offset ?r0 = ch_byte_offset ch + ch_record_id_size ch"
    by (simp add: load_channel_reader_def)
  show "map_option (map_sum fst snd) (raw_sample (n + 5) ch e s)
           = Some (map_sum id snd (read_dt_loop (?r0\<lparr>cr_measure_buffer := d,
                      cr_buffer_spare := env_read_all_spare e (length d)\<rparr>) (ch_cycle_count ch)
                      (ch_byte_offset ch + ch_record_id_size ch) []))"
    using child_ok_proj [OF child_ok_dz [OF assms(1) dz(1) _ _ cur, of "st_compressed_hl ?s2" "n + 5" "[]"]] dz(2)
    by (simp add: r zipped_read_def so)
  have "reader_ok ?s2" "st_cache ?s2 = None" "\<not> st_compressed_hl ?s2"
    using c1 assms(3) by (simp_all add: reader_ok_def new_reader_def load_data_adress_def)
  then show "map_option (map_sum fst snd) (raw_sample (n + 5) ch e' s)
           = Some (map_sum id snd (read_dt_loop (?r0\<lparr>cr_measure_buffer := d\<rparr>)
                      (ch_cycle_count ch) (ch_byte_offset ch + ch_record_id_size ch) []))"
    using child_ok_proj [OF child_ok_dt [OF assms(1) dt(1) _ _ _ cur, of "n + 5" "[]"]] dt(2)
    by (simp add: r dt_read_def so)
qed

text \<open>C8: RawSample of a fixed-length channel whose start block is a DZ block replacing a DT block returns, for every fuel of at least 5, the same samples (or the same error) as RawSample over a file holding a plain DT block with the inflated bytes at that address, provided every record field the reader visits lies inside the inflated bytes: decompression is then transparent.\<close>

theorem zipped_block_equivalence:
  assumes "\<not> ch_vlsd ch" "st_cache s = None" "\<not> st_compressed_hl s" "st_start_address (load_data_adress ch s) = a"
    "env_file e a = Some (DZBlock dt_id zt ol z)" "env_inflate e z = Inr d"
    "env_file e' a = Some (DataBlock dt_id d)"
    "\<forall>p \<in> set (row_positions (length d) (ch_data_bytes ch) (ch_byte_offset ch + ch_record_id_size ch) (ch_cycle_count ch)).
       p + ch_signal_bytes ch \<le> length d"
  shows "map_option (map_sum fst snd) (raw_sample (n + 5) ch e s)
         = map_option (map_sum fst snd) (raw_sample (n + 5) ch e' s)"
proof -
  let ?r = "(load_channel_reader ch None a)\<lparr>cr_measure_buffer := d\<rparr>"
  have "read_dt_loop (?r\<lparr>cr_buffer_spare := env_read_all_spare e (length d)\<rparr>) (ch_cycle_count ch)
          (ch_byte_offset ch + ch_record_id_size ch) []
        = map_sum id (apfst (\<lambda>r'. r'\<lparr>cr_buffer_spare := env_read_all_spare e (length d)\<rparr>))
            (read_dt_loop ?r (ch_cycle_count ch) (ch_byte_offset ch + ch_record_id_size ch) [])"
    using assms(8) by (intro read_dt_loop_spare_upd) (simp add: load_channel_reader_def)
  then show ?thesis
    unfolding raw_sample_dz_dt [OF assms(1-7)]
    by (cases "read_dt_loop ?r (ch_cycle_count ch) (ch_byte_offset ch + ch_record_id_size ch) []") auto
qed

text \<open>C9: When a record field the reader visits runs past the end of a zipped block's inflated bytes, the zipped block and a plain DT block with the same bytes part ways: if RawSample of the zipped block returns samples (the field is decoded from the zero bytes of the spare capacity io.ReadAll left on the buffer), RawSample over the plain block panics on the slice.\<close>

theorem zipped_padding_divergence:
  assumes "\<not> ch_vlsd ch" "st_cache s = None" "\<not> st_compressed_hl s" "st_start_address (load_data_adress ch s) = a"
    "env_file e a = Some (DZBlock dt_id zt ol z)" "env_inflate e z = Inr d"
    "env_file e' a = Some (DataBlock dt_id d)"
    "p \<in> set (row_positions (length d) (ch_data_bytes ch) (ch_byte_offset ch + ch_record_id_size ch) (ch_cycle_count ch))"
    "length d < p + ch_signal_bytes ch"
    "map_option (map_sum fst snd) (raw_sample (n + 5) ch e s) = Some (Inr vs)"
  shows "map_option (map_sum fst snd) (raw_sample (n + 5) ch e' s) = Some (Inl PanicSlice)"
proof -
  let ?r = "(load_channel_reader ch None a)\<lparr>cr_measure_buffer := d\<rparr>"
  let ?K = "ch_cycle_count ch" and ?s0 = "ch_byte_offset ch + ch_record_id_size ch"
  obtain x where "read_dt_loop (?r\<lparr>cr_buffer_spare := env_read_all_spare e (length d)\<rparr>) ?K ?s0 [] = Inr x"
    using assms(10) unfolding raw_sample_dz_dt(1) [OF assms(1-7)]
    by (cases "read_dt_loop (?r\<lparr>cr_buffer_spare := env_read_all_spare e (length d)\<rparr>) ?K ?s0 []") auto
  then have "read_dt_loop ?r ?K ?s0 [] = Inl PanicSlice"
    using assms(8,9) by (intro read_dt_loop_padding [where p = p]) (simp_all add: load_channel_reader_def)
  then show ?thesis
    unfolding raw_sample_dz_dt(2) [OF assms(1-7)] by simp
qed

theorem zipped_block_equivalence_witness:
  "\<not> ch_vlsd (ex_channel\<lparr>ch_link_data := 700\<rparr>) \<and> st_cache (ex_state ex_channel 0) = None
   \<and> \<not> st_compressed_hl (ex_state ex_channel 0)
   \<and> st_start_address (load_data_adress (ex_channel\<lparr>ch_link_data := 700\<rparr>) (ex_state ex_channel 0)) = 700
   \<and> env_file ex_env 700 = Some (DZBlock dt_id 0 8 [7])
   \<and> env_inflate ex_env [7] = Inr [1, 0, 0xAA, 0xAA, 2, 0, 0xBB, 0xBB]
   \<and> env_file (ex_env\<lparr>env_file := (env_file ex_env)(700 \<mapsto> DataBlock dt_id [1, 0, 0xAA, 0xAA, 2, 0, 0xBB, 0xBB])\<rparr>) 700
         = Some (DataBlock dt_id [1, 0, 0xAA, 0xAA, 2, 0, 0xBB, 0xBB])
   \<and> row_positions 8 4 0 3 = [0, 4] \<and> 0 + 2 \<le> (8::nat) \<and> 4 + 2 \<le> (8::nat)
   \<and> map_option (map_sum fst snd) (raw_sample 5 (ex_channel\<lparr>ch_link_data := 700\<rparr>) ex_env (ex_state ex_channel 0))
       = map_option (map_sum fst snd) (raw_sample 5 (ex_channel\<lparr>ch_link_data := 700\<rparr>)
           (ex_env\<lparr>env_file := (env_file ex_env)(700 \<mapsto> DataBlock dt_id [1, 0, 0xAA, 0xAA, 2, 0, 0xBB, 0xBB])\<rparr>)
           (ex_state ex_channel 0))"
proof -
  let ?ch = "ex_channel\<lparr>ch_link_data := 700\<rparr>" and ?d = "[1, 0, 0xAA, 0xAA, 2, 0, 0xBB, 0xBB] :: byte list"
  let ?e' = "ex_env\<lparr>env_file := (env_file ex_env)(700 \<mapsto> DataBlock dt_id ?d)\<rparr>"
  have rows: "row_positions 8 4 0 3 = [0, 4]"
    by (simp add: row_positions_def upt_conv_Cons)
  have h: "\<not> ch_vlsd ?ch" "st_cache (ex_state ex_channel 0) = None" "\<not> st_compressed_hl (ex_state ex_channel 0)"
    "st_start_address (load_data_adress ?ch (ex_state ex_channel 0)) = 700"
    "env_file ex_env 700 = Some (DZBlock dt_id 0 8 [7])" "env_inflate ex_env [7] = Inr ?d"
    "env_file ?e' 700 = Some (DataBlock dt_id ?d)"
    by (simp_all add: ex_defs load_data_adress_def)
  have fits: "\<forall>p \<in> set (row_positions (length ?d) (ch_data_bytes ?ch) (ch_byte_offset ?ch + ch_record_id_size ?ch) (ch_cycle_count ?ch)).
       p + ch_signal_bytes ?ch \<le> length ?d"
    by (simp add: ex_defs row_positions_def upt_conv_Cons)
  show ?thesis
    using zipped_block_equivalence [OF h fits, of 0] h rows by simp
qed

theorem zipped_padding_divergence_witness:
  "\<not> ch_vlsd (ex_channel\<lparr>ch_link_data := 750\<rparr>) \<and> st_cache (ex_state ex_channel 0) = None
   \<and> \<not> st_compressed_hl (ex_state ex_channel 0)
   \<and> st_start_address (load_data_adress (ex_channel\<lparr>ch_link_data := 750\<rparr>) (ex_state ex_channel 0)) = 750
   \<and> env_file ex_env 750 = Some (DZBlock dt_id 0 5 [12])
   \<and> env_inflate ex_env [12] = Inr [1, 0, 0xAA, 0xAA, 2]
   \<and> env_file (ex_env\<lparr>env_file := (env_file ex_env)(750 \<mapsto> DataBlock dt_id [1, 0, 0xAA, 0xAA, 2])\<rparr>) 750
         = Some (DataBlock dt_id [1, 0, 0xAA, 0xAA, 2])
   \<and> (4::nat) \<in> set (row_positions 5 4 0 3) \<and> 5 < (4 + 2 :: nat)
   \<and> map_option (map_sum fst snd) (raw_sample 5 (ex_channel\<lparr>ch_link_data := 750\<rparr>) ex_env (ex_state ex_channel 0))
       = Some (Inr [VUInt16 1, VUInt16 2])
   \<and> map_option (map_sum fst snd) (raw_sample 5 (ex_channel\<lparr>ch_link_data := 750\<rparr>)
           (ex_env\<lparr>env_file := (env_file ex_env)(750 \<mapsto> DataBlock dt_id [1, 0, 0xAA, 0xAA, 2])\<rparr>)
           (ex_state ex_channel 0))
       = Some (Inl PanicSlice)"
proof -
  let ?ch = "ex_channel\<lparr>ch_link_data := 750\<rparr>" and ?d = "[1, 0, 0xAA, 0xAA, 2] :: byte list"
  let ?e' = "ex_env\<lparr>env_file := (env_file ex_env)(750 \<mapsto> DataBlock dt_id ?d)\<rparr>"
  have rows: "row_positions 5 4 0 3 = [0, 4]"
    by (simp add: row_positions_def upt_conv_Cons)
  have h: "\<not> ch_vlsd ?ch" "st_cache (ex_state ex_channel 0) = None" "\<not> st_compressed_hl (ex_state ex_channel 0)"
    "st_start_address (load_data_adress ?ch (ex_state ex_channel 0)) = 750"
    "env_file ex_env 750 = Some (DZBlock dt_id 0 5 [12])" "env_inflate ex_env [12] = Inr ?d"
    "env_file ?e' 750 = Some (DataBlock dt_id ?d)"
    by (simp_all add: ex_defs load_data_adress_def)
  have p: "4 \<in> set (row_positions (length ?d) (ch_data_bytes ?ch) (ch_byte_offset ?ch + ch_record_id_size ?ch) (ch_cycle_count ?ch))"
    "length ?d < 4 + ch_signal_bytes ?ch"
    by (simp_all add: ex_defs row_positions_def upt_conv_Cons)
  have z: "map_option (map_sum fst snd) (raw_sample 5 ?ch ex_env (ex_state ex_channel 0)) = Some (Inr [VUInt16 1, VUInt16 2])"
    by (simp add: ex_orch_defs read_datablock_def go_slice_def parse_numeric_field field_nat_def del: parse_signal_measure.simps)
  show ?thesis
    using zipped_padding_divergence [OF h p, of 0] z h rows by simp
qed

end
